(* ===== verification/Prelude.thy ===== *)
theory Prelude
  imports Main "HOL-Library.Word"
begin

unbundle bit_operations_syntax

text \<open>
  Shared vocabulary of the development: names for the machine integers of the C++ code, the
  compiler builtins the code calls on them (\<open>__builtin_ctzll\<close>, \<open>__builtin_popcount\<close>), the
  byte-compare of the SIMD fingerprint probes, and generic facts about bits of words, lists
  updated by index and searches over index lists.
\<close>

section \<open>Machine integers\<close>

type_synonym u8 = "8 word"
type_synonym u16 = "16 word"
type_synonym u32 = "32 word"
type_synonym u64 = "64 word"

named_theorems bitset_simps "bit-level characterisations of the bitmap words"
named_theorems slot_simps "facts about arrays of slots that are updated by index"

section \<open>Compiler builtins on words\<close>

definition bits_of :: "'a::len word \<Rightarrow> nat list" where
  "bits_of w = filter (bit w) [0..<LENGTH('a)]"

text \<open>\<open>__builtin_ctz\<close>: index of the lowest set bit (the builtin is undefined on 0).\<close>

definition ctz :: "'a::len word \<Rightarrow> nat" where
  "ctz w = length (takeWhile (\<lambda>i. \<not> bit w i) [0..<LENGTH('a)])"

definition popcount :: "'a::len word \<Rightarrow> nat" where
  "popcount w = length (bits_of w)"

text \<open>
  The SIMD probe \<open>_mm_cmpeq_epi8_mask (set1 (tag), loadu (tags))\<close>: bit \<open>i\<close> of the result
  says whether byte \<open>i\<close> of the loaded vector equals the tag.
\<close>

definition match_mask :: "u8 list \<Rightarrow> u8 \<Rightarrow> 'a::len word" where
  "match_mask ts t = horner_sum of_bool 2 (map (\<lambda>x. x = t) ts)"

lemma set_bits_of [simp]: "set (bits_of (w :: 'a::len word)) = {i. bit w i}"
  by (auto simp: bits_of_def dest: bit_imp_le_length)

lemma sorted_bits_of [simp]: "sorted_wrt (<) (bits_of w)"
  by (simp add: bits_of_def sorted_wrt_filter)

lemma distinct_bits_of [simp]: "distinct (bits_of w)"
  by (simp add: bits_of_def)

lemma finite_bits [simp]: "finite {i. bit (w :: 'a::len word) i}"
  by (metis List.finite_set set_bits_of)

lemma bits_of_0 [simp]: "bits_of 0 = []"
  by (simp add: bits_of_def)

lemma bits_of_eq_Nil [simp]: "bits_of w = [] \<longleftrightarrow> w = 0"
proof
  assume "bits_of w = []"
  then have "{i. bit w i} = {}" by (metis empty_set set_bits_of)
  then show "w = 0" by (auto intro: bit_eqI)
qed simp

lemma popcount_card: "popcount w = card {i. bit w i}"
  by (metis distinct_bits_of distinct_card popcount_def set_bits_of)

lemma popcount_0 [simp]: "popcount 0 = 0"
  by (simp add: popcount_def)

lemma popcount_eq_0 [simp]: "popcount w = 0 \<longleftrightarrow> w = 0"
  by (simp add: popcount_def)

lemma popcount_le: "popcount (w :: 'a::len word) \<le> LENGTH('a)"
  unfolding popcount_def bits_of_def by (rule order_trans [OF length_filter_le]) simp

lemma popcount_mono: "(\<And>i. bit v i \<Longrightarrow> bit w i) \<Longrightarrow> popcount v \<le> popcount w"
  unfolding popcount_card by (rule card_mono) auto

lemma popcount_insert_bit:
  assumes "\<And>j. bit v j \<longleftrightarrow> j = i \<or> bit w j" and "\<not> bit w i"
  shows "popcount v = Suc (popcount w)"
proof -
  have "{j. bit v j} = insert i {j. bit w j}" using assms(1) by auto
  then show ?thesis using assms(2) by (simp add: popcount_card)
qed

lemma popcount_remove_bit:
  assumes "\<And>j. bit v j \<longleftrightarrow> j \<noteq> i \<and> bit w j" and "bit w i"
  shows "Suc (popcount v) = popcount w"
  using popcount_insert_bit [of w i v] assms by metis

lemma bits_of_Cons: "w \<noteq> 0 \<Longrightarrow> bits_of w = ctz w # filter (\<lambda>i. bit w i \<and> i \<noteq> ctz w) [0..<LENGTH('a)]"
  for w :: "'a::len word"
proof -
  assume "w \<noteq> 0"
  then obtain k where k: "bit w k" by (auto simp: bit_eq_iff)
  let ?n = "LENGTH('a)"
  have kn: "k < ?n" using k by (rule bit_imp_le_length)
  have pre: "\<not> bit w i" if "i < ctz w" for i
  proof -
    from that have "takeWhile (\<lambda>i. \<not> bit w i) [0..<?n] ! i \<in> set (takeWhile (\<lambda>i. \<not> bit w i) [0..<?n])"
      by (simp add: ctz_def)
    moreover have "i < ?n"
      using that length_takeWhile_le [of "\<lambda>i. \<not> bit w i" "[0..<?n]"] by (simp add: ctz_def)
    ultimately show ?thesis
      using that by (auto simp: ctz_def takeWhile_nth dest!: set_takeWhileD)
  qed
  have le: "ctz w \<le> k" using pre k by (meson not_le_imp_less)
  have c: "ctz w < ?n" using le kn by simp
  have b: "bit w (ctz w)"
    using c nth_length_takeWhile [of "\<lambda>i. \<not> bit w i" "[0..<?n]"] by (simp add: ctz_def)
  have split: "[0..<?n] = [0..<ctz w] @ ctz w # [Suc (ctz w)..<?n]"
    using c upt_add_eq_append [of 0 "ctz w" "?n - ctz w"] by (simp add: upt_conv_Cons)
  have e1: "filter (bit w) [0..<ctz w] = []" using pre by simp
  have e2: "filter (\<lambda>i. bit w i \<and> i \<noteq> ctz w) [0..<ctz w] = []" using pre by simp
  have e3: "filter (\<lambda>i. bit w i \<and> i \<noteq> ctz w) [Suc (ctz w)..<?n] = filter (bit w) [Suc (ctz w)..<?n]"
    by (rule filter_cong) auto
  show ?thesis unfolding bits_of_def by (subst (1 2) split) (simp add: e1 e2 e3 b)
qed

lemma bit_ctz: "w \<noteq> 0 \<Longrightarrow> bit w (ctz w)"
  by (metis bits_of_Cons list.set_intros(1) mem_Collect_eq set_bits_of)

lemma ctz_less: "w \<noteq> 0 \<Longrightarrow> ctz (w :: 'a::len word) < LENGTH('a)"
  using bit_ctz bit_imp_le_length by blast

lemma ctz_least: "bit w i \<Longrightarrow> ctz w \<le> i"
proof -
  assume b: "bit w i"
  then have nz: "w \<noteq> 0" by auto
  have "i \<in> set (bits_of w)" using b by simp
  moreover have "sorted_wrt (<) (bits_of w)" by simp
  ultimately show ?thesis by (subst (asm) (1 2) bits_of_Cons [OF nz]) auto
qed

section \<open>Clearing the lowest set bit\<close>

lemma add_disjoint_or:
  "(\<And>n. \<not> (bit a n \<and> bit b n)) \<Longrightarrow> a + b = (a OR b :: 'a::len word)"
  by (rule disjunctive_add) auto

text \<open>\<open>w & (w - 1)\<close> clears the lowest set bit and nothing else.\<close>

lemma bit_clear_lowest:
  fixes w :: "'a::len word"
  assumes nz: "w \<noteq> 0"
  shows "bit (w AND (w - 1)) n \<longleftrightarrow> bit w n \<and> n \<noteq> ctz w"
proof -
  define k where "k = ctz w"
  define v where "v = unset_bit k w"
  have k: "k < LENGTH('a)" using ctz_less [OF nz] by (simp add: k_def)
  have low: "\<not> bit w j" if "j < k" for j
    using that ctz_least [of w j] by (auto simp: k_def)
  have bv: "bit v j \<longleftrightarrow> bit w j \<and> j \<noteq> k" for j
    by (auto simp: v_def bit_unset_bit_iff)
  have bm: "bit (mask k :: 'a word) j \<longleftrightarrow> j < k" for j
    using k by (auto simp: bit_mask_iff)
  have bk: "bit (2 ^ k :: 'a word) j \<longleftrightarrow> j = k" for j
    using k by (auto simp: bit_exp_iff)
  have "w = v OR 2 ^ k"
    using bit_ctz [OF nz] by (intro bit_eqI) (auto simp: bit_or_iff bv bk k_def [symmetric])
  also have "\<dots> = v + 2 ^ k"
    by (rule add_disjoint_or [symmetric]) (auto simp: bv bk)
  finally have "w - 1 = v + mask k" by (simp add: mask_eq_exp_minus_1)
  also have "\<dots> = v OR mask k"
    by (rule add_disjoint_or) (auto simp: bv bm dest: low)
  finally show ?thesis
    using low by (auto simp: bit_and_iff bit_or_iff bv bm k_def [symmetric])
qed

lemma clear_lowest_less: "w \<noteq> 0 \<Longrightarrow> popcount (w AND (w - 1)) < popcount w"
  using popcount_remove_bit [of "w AND (w - 1)" "ctz w" w] bit_clear_lowest [of w] bit_ctz [of w]
  by fastforce

lemma bits_of_rec: "bits_of w = (if w = 0 then [] else ctz w # bits_of (w AND (w - 1)))"
proof (cases "w = 0")
  case False
  have "bits_of (w AND (w - 1)) = filter (\<lambda>i. bit w i \<and> i \<noteq> ctz w) [0..<LENGTH('a)]"
    unfolding bits_of_def by (rule filter_cong) (simp_all add: bit_clear_lowest [OF False])
  with False show ?thesis by (simp add: bits_of_Cons)
qed simp

section \<open>Setting, clearing and testing one bit\<close>

text \<open>\<open>1 << i\<close> as the code writes it.\<close>

definition shl1 :: "nat \<Rightarrow> 'a::len word" where
  "shl1 i = push_bit i 1"

lemma bit_shl1 [bitset_simps]:
  "bit (shl1 i :: 'a::len word) j \<longleftrightarrow> j = i \<and> i < LENGTH('a)"
  by (simp only: shl1_def bit_push_bit_iff bit_1_iff) auto

lemma bit_not_word [bitset_simps]:
  "bit (NOT w :: 'a::len word) j \<longleftrightarrow> j < LENGTH('a) \<and> \<not> bit w j"
  by (auto simp: bit_not_iff)

lemmas bit_ops [bitset_simps] = bit_and_iff bit_or_iff bit_xor_iff

lemma bit_match_mask [bitset_simps]:
  "bit (match_mask ts t :: 'a::len word) i \<longleftrightarrow> i < LENGTH('a) \<and> i < length ts \<and> ts ! i = t"
  by (auto simp: match_mask_def bit_horner_sum_bit_word_iff)

lemma bit_ucast_word [bitset_simps]:
  "bit (ucast w :: 'b::len word) i \<longleftrightarrow> i < LENGTH('b) \<and> bit (w :: 'a::len word) i"
  by (auto simp: bit_ucast_iff)

lemma bits_of_ucast:
  "LENGTH('a) \<le> LENGTH('b) \<Longrightarrow> bits_of (ucast (w :: 'a::len word) :: 'b::len word) = bits_of w"
proof -
  assume le: "LENGTH('a) \<le> LENGTH('b)"
  have "set (bits_of (ucast w :: 'b word)) = set (bits_of w)"
    using le by (auto simp: bitset_simps dest: bit_imp_le_length)
  then show ?thesis
    by (metis sorted_bits_of strict_sorted_equal)
qed

lemma popcount_ucast:
  "LENGTH('a) \<le> LENGTH('b) \<Longrightarrow> popcount (ucast (w :: 'a::len word) :: 'b::len word) = popcount w"
  by (simp add: popcount_def bits_of_ucast)

section \<open>Searching a list of positions\<close>

text \<open>
  The probe loops of the code walk the set bits of a match word in increasing order and leave
  at the first slot whose key is the wanted one: a \<open>find\<close> over the positions.
\<close>

lemma find_SomeD: "find P xs = Some x \<Longrightarrow> P x \<and> x \<in> set xs"
  by (auto simp: find_Some_iff)

lemma find_NoneD: "find P xs = None \<Longrightarrow> x \<in> set xs \<Longrightarrow> \<not> P x"
  by (auto simp: find_None_iff)

lemma find_unique:
  assumes "x \<in> set xs" "P x" "\<And>y. y \<in> set xs \<Longrightarrow> P y \<Longrightarrow> y = x"
  shows "find P xs = Some x"
proof (cases "find P xs")
  case None
  with assms(1,2) show ?thesis by (auto simp: find_None_iff)
next
  case (Some z)
  with assms(3) show ?thesis using find_SomeD [OF Some] by simp
qed

lemma find_bits_of_ucast:
  "LENGTH('a) \<le> LENGTH('b) \<Longrightarrow>
   find P (bits_of (ucast (w :: 'a::len word) :: 'b::len word)) = find P (bits_of w)"
  by (simp add: bits_of_ucast)

section \<open>Arrays of slots\<close>

lemma drop_map_nth: "drop m xs = map (\<lambda>i. xs ! i) [m..<length xs]"
  by (rule nth_equalityI) auto

lemma nth_upd_eq [slot_simps]: "i < length xs \<Longrightarrow> xs[i := x] ! i = x"
  by simp

lemma nth_upd_neq [slot_simps]: "i \<noteq> j \<Longrightarrow> xs[i := x] ! j = xs ! j"
  by simp

lemma nth_upd_if [slot_simps]:
  "i < length xs \<Longrightarrow> xs[i := x] ! j = (if j = i then x else xs ! j)"
  by simp

end
