(* ===== verification/Interfaces.thy ===== *)
theory Interfaces
  imports Prelude
begin

text \<open>
  The interfaces the components are proved against, as locales: an exclusive lock seen through its
  step relation, a bitmap cursor, a bounded key-value buffer (what a write buffer or a leaf
  promises to its client), and a log of self-delimiting frames. Each locale is interpreted on the
  model's own definitions in the theory of the component that provides it.
\<close>

section \<open>Exclusive locks\<close>

text \<open>
  \<open>step\<close> is the interleaving of all threads, \<open>holds s i\<close> says that thread \<open>i\<close> is between a
  successful acquisition and its release, and \<open>held s\<close> reads the lock word. The laws are local to
  one step: whoever enters found the lock word free and made it busy, and the word only becomes
  free when a holder leaves.
\<close>

inductive reachable :: "'s \<Rightarrow> ('s \<Rightarrow> 's \<Rightarrow> bool) \<Rightarrow> 's \<Rightarrow> bool" for init step where
  reach_init: "reachable init step init"
| reach_step: "reachable init step s \<Longrightarrow> step s t \<Longrightarrow> reachable init step t"

locale exclusive_lock =
  fixes init :: "'s" and step :: "'s \<Rightarrow> 's \<Rightarrow> bool"
    and holds :: "'s \<Rightarrow> nat \<Rightarrow> bool" and held :: "'s \<Rightarrow> bool"
  assumes init_free: "\<not> holds init i"
    and enter: "step s t \<Longrightarrow> holds t i \<Longrightarrow> \<not> holds s i \<Longrightarrow>
      \<not> held s \<and> held t \<and> (\<forall>j. j \<noteq> i \<longrightarrow> holds t j \<longrightarrow> holds s j)"
    and release: "step s t \<Longrightarrow> held s \<Longrightarrow> \<not> held t \<Longrightarrow> \<exists>i. holds s i \<and> \<not> holds t i"
begin

definition single :: "'s \<Rightarrow> bool" where
  "single s \<longleftrightarrow> (\<forall>i j. holds s i \<longrightarrow> holds s j \<longrightarrow> i = j) \<and> (\<forall>i. holds s i \<longrightarrow> held s)"

lemma single_step:
  assumes st: "step s t" and inv: "single s"
  shows "single t"
proof -
  have uniq: "holds s i \<Longrightarrow> holds s j \<Longrightarrow> i = j" and hs: "holds s i \<Longrightarrow> held s" for i j
    using inv by (auto simp: single_def)
  have ht: "held t" if h: "holds t i" for i
  proof (rule ccontr)
    assume nt: "\<not> held t"
    have si: "holds s i" using enter [OF st h] nt by blast
    obtain k where "holds s k" "\<not> holds t k" using release [OF st hs [OF si] nt] by blast
    with uniq [OF si] h show False by blast
  qed
  moreover have "i = j" if hi: "holds t i" and hj: "holds t j" for i j
  proof (cases "holds s i")
    case True
    then show ?thesis using enter [OF st hj] uniq hs hj by blast
  next
    case False
    then have free: "\<not> held s" and old: "j \<noteq> i \<Longrightarrow> holds s j"
      using enter [OF st hi] hj by auto
    then show ?thesis using hs by auto
  qed
  ultimately show ?thesis by (auto simp: single_def)
qed

lemma single_init: "single init"
  by (simp add: single_def init_free)

lemma reach_single: "reachable init step s \<Longrightarrow> single s"
  by (induction rule: reachable.induct) (blast intro: single_init single_step)+

lemma mutual_exclusion: "reachable init step s \<Longrightarrow> holds s i \<Longrightarrow> holds s j \<Longrightarrow> i = j"
  using reach_single by (auto simp: single_def)

lemma holder_held: "reachable init step s \<Longrightarrow> holds s i \<Longrightarrow> held s"
  using reach_single by (auto simp: single_def)

end

section \<open>Bitmap cursors\<close>

text \<open>
  The range-for loops of the code (\<open>for (int i : bitset)\<close>) compare the cursor with \<open>end ()\<close>, read
  a position with \<open>operator*\<close> and advance with \<open>operator++\<close>.
\<close>

locale bit_cursor =
  fixes at_end :: "u64 \<Rightarrow> bool" and deref :: "u64 \<Rightarrow> nat" and advance :: "u64 \<Rightarrow> u64"
    and walk :: "u64 \<Rightarrow> nat list"
  assumes at_end: "at_end b \<longleftrightarrow> b = 0"
    and deref: "b \<noteq> 0 \<Longrightarrow> deref b = ctz b"
    and advance: "b \<noteq> 0 \<Longrightarrow> advance b = b AND (b - 1)"
    and walk: "walk b = (if at_end b then [] else deref b # walk (advance b))"
begin

lemma walk_bits_of: "walk b = bits_of b"
proof (induction "popcount b" arbitrary: b rule: less_induct)
  case less
  show ?case
  proof (cases "b = 0")
    case True
    then show ?thesis by (subst walk) (simp add: at_end)
  next
    case False
    then have "walk (b AND (b - 1)) = bits_of (b AND (b - 1))"
      by (intro less clear_lowest_less)
    with False show ?thesis
      by (subst walk, subst bits_of_rec) (simp add: at_end deref advance)
  qed
qed

lemma walk_complete: "set (walk b) = {i. bit b i}"
  by (simp add: walk_bits_of)

lemma walk_increasing: "sorted_wrt (<) (walk b)"
  by (simp add: walk_bits_of)

end

section \<open>Bounded key-value buffers\<close>

text \<open>
  A buffer of fixed capacity: \<open>put\<close> may refuse (the buffer is full and the caller must merge or
  split), and then leaves the buffer as it was; \<open>get\<close> and \<open>del\<close> always answer. \<open>view\<close> is the
  partial map a buffer stands for.
\<close>

datatype ('k, 'v) kv_op = Put 'k 'v | Get 'k | Del 'k

datatype 'v kv_out = PutRes bool | GetRes "'v option" | DelRes bool

primrec kv_spec :: "('k, 'v) kv_op \<Rightarrow> ('k \<rightharpoonup> 'v) \<Rightarrow> 'v kv_out \<Rightarrow> ('k \<rightharpoonup> 'v) \<Rightarrow> bool" where
  "kv_spec (Put k v) m r m' \<longleftrightarrow> (r = PutRes True \<and> m' = m(k \<mapsto> v) \<or> r = PutRes False \<and> m' = m \<and> m k = None)"
| "kv_spec (Get k) m r m' \<longleftrightarrow> r = GetRes (m k) \<and> m' = m"
| "kv_spec (Del k) m r m' \<longleftrightarrow> r = DelRes (m k \<noteq> None) \<and> m' = m(k := None)"

fun kv_trace :: "('k \<rightharpoonup> 'v) \<Rightarrow> (('k, 'v) kv_op \<times> 'v kv_out) list \<Rightarrow> ('k \<rightharpoonup> 'v) \<Rightarrow> bool" where
  "kv_trace m [] m' \<longleftrightarrow> m' = m"
| "kv_trace m ((c, r) # tr) m' \<longleftrightarrow> (\<exists>m1. kv_spec c m r m1 \<and> kv_trace m1 tr m')"

primrec kv_exec :: "('k \<Rightarrow> 'v \<Rightarrow> 's \<Rightarrow> bool \<times> 's) \<Rightarrow> ('k \<Rightarrow> 's \<Rightarrow> 'v option) \<Rightarrow> ('k \<Rightarrow> 's \<Rightarrow> bool \<times> 's) \<Rightarrow>
    ('k, 'v) kv_op \<Rightarrow> 's \<Rightarrow> 'v kv_out \<times> 's" where
  "kv_exec put get del (Put k v) s = (case put k v s of (b, s') \<Rightarrow> (PutRes b, s'))"
| "kv_exec put get del (Get k) s = (GetRes (get k s), s)"
| "kv_exec put get del (Del k) s = (case del k s of (b, s') \<Rightarrow> (DelRes b, s'))"

fun kv_run :: "('k \<Rightarrow> 'v \<Rightarrow> 's \<Rightarrow> bool \<times> 's) \<Rightarrow> ('k \<Rightarrow> 's \<Rightarrow> 'v option) \<Rightarrow> ('k \<Rightarrow> 's \<Rightarrow> bool \<times> 's) \<Rightarrow>
    ('k, 'v) kv_op list \<Rightarrow> 's \<Rightarrow> (('k, 'v) kv_op \<times> 'v kv_out) list \<times> 's" where
  "kv_run put get del [] s = ([], s)"
| "kv_run put get del (c # cs) s =
     (case kv_exec put get del c s of (r, s1) \<Rightarrow>
      case kv_run put get del cs s1 of (tr, s2) \<Rightarrow> ((c, r) # tr, s2))"

lemma kv_run_ops: "kv_run put get del cs s = (tr, s') \<Longrightarrow> map fst tr = cs"
  by (induction cs arbitrary: s tr) (auto split: prod.splits)

locale kv_buffer =
  fixes inv :: "'s \<Rightarrow> bool" and view :: "'s \<Rightarrow> 'k \<rightharpoonup> 'v"
    and put :: "'k \<Rightarrow> 'v \<Rightarrow> 's \<Rightarrow> bool \<times> 's"
    and get :: "'k \<Rightarrow> 's \<Rightarrow> 'v option"
    and del :: "'k \<Rightarrow> 's \<Rightarrow> bool \<times> 's"
  assumes put_inv: "inv s \<Longrightarrow> put k v s = (b, s') \<Longrightarrow> inv s'"
    and put_ok: "inv s \<Longrightarrow> put k v s = (True, s') \<Longrightarrow> view s' = (view s)(k \<mapsto> v)"
    and put_full: "inv s \<Longrightarrow> put k v s = (False, s') \<Longrightarrow> s' = s \<and> view s k = None"
    and get_view: "inv s \<Longrightarrow> get k s = view s k"
    and del_inv: "inv s \<Longrightarrow> del k s = (b, s') \<Longrightarrow> inv s'"
    and del_view: "inv s \<Longrightarrow> del k s = (b, s') \<Longrightarrow> view s' = (view s)(k := None) \<and> (b \<longleftrightarrow> view s k \<noteq> None)"
begin

lemma exec_refines:
  assumes i: "inv s" and e: "kv_exec put get del c s = (r, s')"
  shows "inv s' \<and> kv_spec c (view s) r (view s')"
proof (cases c)
  case (Put k v)
  obtain b t where p: "put k v s = (b, t)" by fastforce
  with e Put have "r = PutRes b" "s' = t" by auto
  then show ?thesis
    using Put p put_inv [OF i p] put_ok [OF i, of k v t] put_full [OF i, of k v t] by (cases b) auto
next
  case (Get k)
  with e i show ?thesis by (auto simp: get_view)
next
  case (Del k)
  obtain b t where p: "del k s = (b, t)" by fastforce
  with e Del have "r = DelRes b" "s' = t" by auto
  then show ?thesis using Del p del_inv [OF i p] del_view [OF i p] by auto
qed

text \<open>Every run of operations is a run of the partial map.\<close>

lemma run_refines:
  "inv s \<Longrightarrow> kv_run put get del cs s = (tr, s') \<Longrightarrow> inv s' \<and> kv_trace (view s) tr (view s')"
proof (induction cs arbitrary: s tr)
  case (Cons c cs)
  obtain r s1 where e: "kv_exec put get del c s = (r, s1)" by fastforce
  obtain tr1 s2 where u: "kv_run put get del cs s1 = (tr1, s2)" by fastforce
  from Cons.prems(2) e u have tr: "tr = (c, r) # tr1" "s' = s2" by auto
  have one: "inv s1 \<and> kv_spec c (view s) r (view s1)" by (rule exec_refines [OF Cons.prems(1) e])
  then have "inv s2 \<and> kv_trace (view s1) tr1 (view s2)"
    using Cons.IH [of s1 tr1] u tr by simp
  with one tr show ?case by auto
qed simp

lemma get_put: "inv s \<Longrightarrow> put k v s = (True, s') \<Longrightarrow> get k' s' = (if k' = k then Some v else get k' s)"
  using put_inv put_ok get_view by fastforce

lemma get_del: "inv s \<Longrightarrow> del k s = (b, s') \<Longrightarrow> get k' s' = (if k' = k then None else get k' s)"
  using del_inv del_view get_view by fastforce

end

section \<open>Logs of frames\<close>

text \<open>
  A log to which frames of \<open>sz e\<close> bytes are appended. \<open>entry_at s o e\<close> says that the frame of \<open>e\<close> is
  at offset \<open>o\<close>; \<open>fwd\<close>, \<open>bwd\<close> and \<open>dec\<close> are the three moves of the iterators: over a frame, from the
  end of a frame to its start, and back by the size of the frame the iterator is on. \<open>room e s\<close> is the
  condition under which an append stays within the log.
\<close>

locale framed_log =
  fixes sz :: "'e \<Rightarrow> nat" and tail limit :: "'s \<Rightarrow> nat" and room :: "'e \<Rightarrow> 's \<Rightarrow> bool"
    and app :: "'e \<Rightarrow> 's \<Rightarrow> 's" and entry_at :: "'s \<Rightarrow> nat \<Rightarrow> 'e \<Rightarrow> bool"
    and good :: "'s \<Rightarrow> bool" and fwd bwd dec :: "'s \<Rightarrow> nat \<Rightarrow> nat"
  assumes room_tail: "room e s \<Longrightarrow> tail s + sz e \<le> limit s"
    and app_good: "room e s \<Longrightarrow> good (app e s) \<and> limit (app e s) = limit s"
    and app_tail: "room e s \<Longrightarrow> tail (app e s) = tail s + sz e"
    and app_entry: "room e s \<Longrightarrow> entry_at (app e s) (tail s) e"
    and app_keep: "room e s \<Longrightarrow> entry_at s i f \<Longrightarrow> i + sz f \<le> tail s \<Longrightarrow> entry_at (app e s) i f"
    and entry_fwd: "good s \<Longrightarrow> entry_at s i e \<Longrightarrow> i + sz e \<le> tail s \<Longrightarrow> fwd s i = i + sz e"
    and entry_bwd: "good s \<Longrightarrow> entry_at s i e \<Longrightarrow> i + sz e \<le> tail s \<Longrightarrow> bwd s (i + sz e) = i"
    and entry_dec: "good s \<Longrightarrow> entry_at s i e \<Longrightarrow> i + sz e \<le> tail s \<Longrightarrow> sz e \<le> i \<Longrightarrow> dec s i = i - sz e"
begin

primrec appends :: "'e list \<Rightarrow> 's \<Rightarrow> 's" where
  "appends [] s = s"
| "appends (e # es) s = appends es (app e s)"

primrec rooms :: "'e list \<Rightarrow> 's \<Rightarrow> bool" where
  "rooms [] s \<longleftrightarrow> True"
| "rooms (e # es) s \<longleftrightarrow> room e s \<and> rooms es (app e s)"

definition start :: "'s \<Rightarrow> 'e list \<Rightarrow> nat \<Rightarrow> nat" where
  "start s es i = tail s + sum_list (map sz (take i es))"

lemma appends_tail: "rooms es s \<Longrightarrow> tail (appends es s) = tail s + sum_list (map sz es)"
  by (induction es arbitrary: s) (auto simp: app_tail)

lemma appends_limit: "rooms es s \<Longrightarrow> limit (appends es s) = limit s"
  by (induction es arbitrary: s) (auto simp: app_good)

lemma appends_good: "rooms es s \<Longrightarrow> good s \<or> es \<noteq> [] \<Longrightarrow> good (appends es s)"
  by (induction es arbitrary: s) (auto simp: app_good)

lemma appends_keep:
  "rooms es s \<Longrightarrow> entry_at s i f \<Longrightarrow> i + sz f \<le> tail s \<Longrightarrow> entry_at (appends es s) i f"
  by (induction es arbitrary: s) (auto simp: app_keep app_tail)

lemma start_Cons: "room e s \<Longrightarrow> start s (e # es) (Suc i) = start (app e s) es i"
  by (simp add: start_def app_tail)

lemma appends_entry: "rooms es s \<Longrightarrow> i < length es \<Longrightarrow> entry_at (appends es s) (start s es i) (es ! i)"
proof (induction es arbitrary: s i)
  case (Cons e es)
  then have r: "room e s" "rooms es (app e s)" by auto
  show ?case
  proof (cases i)
    case 0
    have "entry_at (appends es (app e s)) (tail s) e"
      by (rule appends_keep [OF r(2) app_entry [OF r(1)]]) (simp add: app_tail [OF r(1)])
    with 0 show ?thesis by (simp add: start_def)
  next
    case (Suc j)
    with Cons r show ?thesis by (simp add: start_Cons)
  qed
qed simp

lemma start_Suc: "i < length es \<Longrightarrow> start s es (Suc i) = start s es i + sz (es ! i)"
  by (simp add: start_def take_Suc_conv_app_nth)

lemma start_le: "rooms es s \<Longrightarrow> i < length es \<Longrightarrow> start s es i + sz (es ! i) \<le> tail (appends es s)"
proof -
  assume r: "rooms es s" and i: "i < length es"
  have "sum_list (map sz es) = sum_list (map sz (take (Suc i) es)) + sum_list (map sz (drop (Suc i) es))"
    by (metis append_take_drop_id map_append sum_list_append)
  then show ?thesis using start_Suc [OF i, of s] by (simp add: appends_tail [OF r] start_def)
qed

text \<open>A forward scan from the first appended frame visits the frames in order and ends at the tail.\<close>

lemma scan_forward:
  assumes r: "rooms es s" and i: "i \<le> length es"
  shows "(fwd (appends es s) ^^ i) (tail s) = start s es i"
  using i
proof (induction i)
  case 0
  then show ?case by (simp add: start_def)
next
  case (Suc i)
  then have l: "i < length es" by simp
  then have g: "good (appends es s)" using appends_good [OF r] by force
  from entry_fwd [OF g appends_entry [OF r l] start_le [OF r l]] Suc start_Suc [OF l, of s]
  show ?case by simp
qed

lemma start_end: "rooms es s \<Longrightarrow> start s es (length es) = tail (appends es s)"
  by (simp add: start_def appends_tail)

text \<open>A reverse scan starts at the last frame.\<close>

lemma scan_last:
  assumes r: "rooms es s" and ne: "es \<noteq> []"
  shows "bwd (appends es s) (tail (appends es s)) = start s es (length es - 1)"
proof -
  let ?i = "length es - 1"
  have l: "?i < length es" using ne by simp
  have g: "good (appends es s)" using appends_good [OF r] ne by simp
  have "tail (appends es s) = start s es ?i + sz (es ! ?i)"
    using start_Suc [OF l, of s] start_end [OF r] ne by simp
  with entry_bwd [OF g appends_entry [OF r l] start_le [OF r l]] show ?thesis by simp
qed

text \<open>If all frames have one size, stepping back by the size of the current frame visits all of them.\<close>

lemma scan_reverse:
  assumes r: "rooms es s" and c: "\<And>e. e \<in> set es \<Longrightarrow> sz e = c" and j: "j < length es"
  shows "(dec (appends es s) ^^ j) (start s es (length es - 1)) = start s es (length es - 1 - j)"
  using j
proof (induction j)
  case (Suc j)
  let ?k = "length es - 1 - j"
  have k: "?k < length es" "?k = Suc (length es - 1 - Suc j)" using Suc.prems by auto
  have g: "good (appends es s)" using appends_good [OF r] k by force
  have e: "sz (es ! ?k) = c" using c k by simp
  have s: "start s es ?k = start s es (length es - 1 - Suc j) + c"
    using start_Suc [of "length es - 1 - Suc j" es s] k c by simp
  from entry_dec [OF g appends_entry [OF r k(1)] start_le [OF r k(1)]] e s Suc
  show ?case by simp
qed simp

end

end
