(* ===== verification/SpotonUtil.thy ===== *)
theory SpotonUtil
  imports Interfaces
begin

text \<open>
  \<open>src/spoton_util.h\<close>: the hash functions of \<open>Hasher\<close>, the \<open>SpinLock\<close>, \<open>print_binary\<close>,
  \<open>isPowerOfTwo\<close>, the 64-bit \<open>BitSet\<close> cursor and \<open>Slice\<close>. A \<open>BitSet\<close> is its one field
  \<open>bits_\<close>, a \<open>Slice\<close> is the list of the \<open>size_\<close> bytes at \<open>data_\<close>. \<open>XXH32\<close> is a library the
  repository links and is a parameter of the definitions that use it.
\<close>

section \<open>Hasher\<close>

text \<open>\<open>umul128\<close> returns the low half and writes the high half.\<close>

definition umul128 :: "u64 \<Rightarrow> u64 \<Rightarrow> u64 \<times> u64" where
  "umul128 a b =
     (let result = (ucast a :: 128 word) * ucast b
      in (ucast result, ucast (drop_bit 64 result)))"

definition hash_int :: "u64 \<Rightarrow> u64" where
  "hash_int obj = (case umul128 obj 0xde5fb9d2630458e9 of (l, h) \<Rightarrow> h + l)"

text \<open>An unaligned little-endian load of the bytes of a list.\<close>

definition load_le :: "u8 list \<Rightarrow> u64" where
  "load_le bs = foldr (\<lambda>b acc. ucast b + 256 * acc) bs 0"

definition murmur_m :: u64 where
  "murmur_m = 0xc6a4a7935bd1e995"

definition murmur_step :: "u64 \<Rightarrow> u64 \<Rightarrow> u64" where
  "murmur_step h k0 =
     (let k1 = k0 * murmur_m;
          k2 = k1 XOR drop_bit 47 k1;
          k3 = k2 * murmur_m
      in (h XOR k3) * murmur_m)"

fun murmur_body :: "u64 \<Rightarrow> u8 list \<Rightarrow> u64 \<times> u8 list" where
  "murmur_body h bs =
     (if length bs < 8 then (h, bs)
      else murmur_body (murmur_step h (load_le (take 8 bs))) (drop 8 bs))"

declare murmur_body.simps [simp del]

text \<open>The fall-through \<open>switch (len & 7)\<close>: the remaining bytes from the last one down.\<close>

definition murmur_tail :: "u64 \<Rightarrow> u8 list \<Rightarrow> u64" where
  "murmur_tail h rest =
     (if rest = [] then h
      else foldl (\<lambda>h i. h XOR push_bit (8 * i) (ucast (rest ! i))) h (rev [0..<length rest]) * murmur_m)"

definition MurmurHash64A :: "u8 list \<Rightarrow> u64" where
  "MurmurHash64A key =
     (let h0 = 0xe17a1465 XOR (of_nat (length key) * murmur_m);
          (h1, rest) = murmur_body h0 key;
          h2 = murmur_tail h1 rest;
          h3 = (h2 XOR drop_bit 47 h2) * murmur_m
      in h3 XOR drop_bit 47 h3)"

text \<open>
  \<open>hash_string (string, seed)\<close> hashes the bytes before the first NUL. \<open>bytes\<close> is what can be
  read at the pointer, None is the null pointer.
\<close>

definition c_str :: "u8 list \<Rightarrow> u8 list" where
  "c_str bytes = takeWhile (\<lambda>b. b \<noteq> 0) bytes"

definition hash_string :: "(u8 list \<Rightarrow> u32 \<Rightarrow> u32) \<Rightarrow> u8 list option \<Rightarrow> u32 \<Rightarrow> u32" where
  "hash_string XXH32 s seed = XXH32 (case s of None \<Rightarrow> [] | Some bytes \<Rightarrow> c_str bytes) seed"

section \<open>SpinLock\<close>

text \<open>
  The lock is one atomic flag. A thread in \<open>lock ()\<close> alternates between the \<open>exchange\<close> and the
  relaxed-load wait loop; \<open>try_lock ()\<close> loads once and exchanges once.
\<close>

datatype spin_pc = Outside | Exchanging | Waiting | TryExchanging | Inside

record spin_state =
  lock_flag :: bool
  spin_pcs :: "nat \<Rightarrow> spin_pc"

definition spin_init :: spin_state where
  "spin_init = \<lparr>lock_flag = False, spin_pcs = (\<lambda>_. Outside)\<rparr>"

definition spin_exchange :: "spin_state \<Rightarrow> bool \<times> spin_state" where
  "spin_exchange s = (lock_flag s, s\<lparr>lock_flag := True\<rparr>)"

definition spin_is_locked :: "spin_state \<Rightarrow> bool" where
  "spin_is_locked s = lock_flag s"

definition spin_goto :: "nat \<Rightarrow> spin_pc \<Rightarrow> spin_state \<Rightarrow> spin_state" where
  "spin_goto i p s = s\<lparr>spin_pcs := (spin_pcs s)(i := p)\<rparr>"

definition spin_lock_exchange :: "nat \<Rightarrow> spin_state \<Rightarrow> spin_state" where
  "spin_lock_exchange i s =
     (case spin_exchange s of (old, s') \<Rightarrow> spin_goto i (if \<not> old then Inside else Waiting) s')"

definition spin_try_exchange :: "nat \<Rightarrow> spin_state \<Rightarrow> spin_state" where
  "spin_try_exchange i s =
     (case spin_exchange s of (old, s') \<Rightarrow> spin_goto i (if \<not> old then Inside else Outside) s')"

definition spin_unlock :: "nat \<Rightarrow> spin_state \<Rightarrow> spin_state" where
  "spin_unlock i s = spin_goto i Outside (s\<lparr>lock_flag := False\<rparr>)"

inductive spin_step :: "spin_state \<Rightarrow> spin_state \<Rightarrow> bool" where
  call_lock: "spin_pcs s i = Outside \<Longrightarrow> spin_step s (spin_goto i Exchanging s)"
| lock_exchange: "spin_pcs s i = Exchanging \<Longrightarrow> spin_step s (spin_lock_exchange i s)"
| wait_load: "spin_pcs s i = Waiting \<Longrightarrow>
    spin_step s (spin_goto i (if spin_is_locked s then Waiting else Exchanging) s)"
| try_load: "spin_pcs s i = Outside \<Longrightarrow>
    spin_step s (spin_goto i (if spin_is_locked s then Outside else TryExchanging) s)"
| try_exchange: "spin_pcs s i = TryExchanging \<Longrightarrow> spin_step s (spin_try_exchange i s)"
| unlock: "spin_pcs s i = Inside \<Longrightarrow> spin_step s (spin_unlock i s)"

section \<open>Bit tricks\<close>

definition bit_rep :: "string list" where
  "bit_rep = [''0000'', ''0001'', ''0010'', ''0011'', ''0100'', ''0101'',
              ''0110'', ''0111'', ''1000'', ''1001'', ''1010'', ''1011'',
              ''1100'', ''1101'', ''1110'', ''1111'']"

definition print_binary :: "u16 \<Rightarrow> string" where
  "print_binary bitmap =
     bit_rep ! unat (drop_bit 12 bitmap AND 0x0F) @ bit_rep ! unat (drop_bit 8 bitmap AND 0x0F) @
     bit_rep ! unat (drop_bit 4 bitmap AND 0x0F) @ bit_rep ! unat (drop_bit 0 bitmap AND 0x0F)"

definition isPowerOfTwo :: "u64 \<Rightarrow> bool" where
  "isPowerOfTwo n \<longleftrightarrow>
     n \<noteq> 0 \<and>
     popcount (ucast (drop_bit 32 n) :: u32) + popcount (ucast (n AND 0xFFFFFFFF) :: u32) = 1"

section \<open>BitSet\<close>

definition bitset_validCount :: "u64 \<Rightarrow> nat" where
  "bitset_validCount b = popcount b"

definition bitset_advance :: "u64 \<Rightarrow> u64" where
  "bitset_advance b = b AND (b - 1)"

definition bitset_bool :: "u64 \<Rightarrow> bool" where
  "bitset_bool b \<longleftrightarrow> b \<noteq> 0"

definition bitset_deref :: "u64 \<Rightarrow> nat" where
  "bitset_deref b = ctz b"

definition bitset_begin :: "u64 \<Rightarrow> u64" where
  "bitset_begin b = b"

definition bitset_end :: u64 where
  "bitset_end = 0"

text \<open>\<open>set (pos)\<close> asserts \<open>pos < 64\<close>; None is the failed assertion.\<close>

definition bitset_set :: "nat \<Rightarrow> u64 \<Rightarrow> u64 option" where
  "bitset_set pos b = (if pos < 64 then Some (b OR shl1 pos) else None)"

text \<open>\<open>for (int i : bitset)\<close>\<close>

function bitset_walk :: "u64 \<Rightarrow> nat list" where
  "bitset_walk b =
     (if b = bitset_end then [] else bitset_deref b # bitset_walk (bitset_advance b))"
  by pat_completeness auto
termination
  by (relation "measure popcount") (auto simp: bitset_end_def bitset_advance_def clear_lowest_less)

declare bitset_walk.simps [simp del]

section \<open>Slice\<close>

type_synonym slice = "u8 list"

definition slice_make :: "u8 list \<Rightarrow> nat \<Rightarrow> slice" where
  "slice_make d n = take n d"

definition slice_of_cstring :: "u8 list option \<Rightarrow> slice" where
  "slice_of_cstring s = (case s of None \<Rightarrow> [] | Some bytes \<Rightarrow> c_str bytes)"

definition slice_at :: "slice \<Rightarrow> nat \<Rightarrow> u8 option" where
  "slice_at s n = (if n < length s then Some (s ! n) else None)"

text \<open>\<open>memcmp\<close> of the C library on the first \<open>n\<close> bytes, as unsigned chars.\<close>

fun memcmp :: "u8 list \<Rightarrow> u8 list \<Rightarrow> nat \<Rightarrow> int" where
  "memcmp (x # xs) (y # ys) (Suc n) =
     (if x < y then -1 else if y < x then 1 else memcmp xs ys n)"
| "memcmp _ _ _ = 0"

definition slice_compare :: "slice \<Rightarrow> slice \<Rightarrow> int" where
  "slice_compare a b =
     (let min_len = (if length a < length b then length a else length b);
          r = memcmp a b min_len
      in if r = 0
         then (if length a < length b then -1 else if length a > length b then 1 else r)
         else r)"

definition slice_less :: "slice \<Rightarrow> slice \<Rightarrow> bool" where
  "slice_less a b \<longleftrightarrow> slice_compare a b < 0"

definition slice_greater :: "slice \<Rightarrow> slice \<Rightarrow> bool" where
  "slice_greater a b \<longleftrightarrow> slice_compare a b > 0"

definition slice_eq :: "slice \<Rightarrow> slice \<Rightarrow> bool" where
  "slice_eq x y \<longleftrightarrow> length x = length y \<and> memcmp x y (length x) = 0"

section \<open>Properties\<close>

subsection \<open>Hash functions\<close>

text \<open>The two halves of the 128-bit product.\<close>

lemma umul128_halves:
  "case umul128 a b of (l, h) \<Rightarrow>
     unat l = unat a * unat b mod 2 ^ 64 \<and> unat h = unat a * unat b div 2 ^ 64"
proof -
  let ?p = "(ucast a :: 128 word) * ucast b"
  have up: "unat (ucast x :: 128 word) = unat x" for x :: u64
    using unsigned_less [of x, where 'a = nat]
    by (simp add: unsigned_ucast_eq take_bit_nat_eq_self)
  have small: "unat a * unat b < 2 ^ 64 * 2 ^ 64"
    using unsigned_less [of a, where 'a = nat] unsigned_less [of b, where 'a = nat]
    by (intro mult_strict_mono) auto
  then have p: "unat ?p = unat a * unat b"
    by (simp add: unat_word_ariths up)
  have "unat (ucast ?p :: u64) = unat a * unat b mod 2 ^ 64"
    by (simp add: unsigned_ucast_eq p take_bit_eq_mod)
  moreover have "unat (ucast (drop_bit 64 ?p) :: u64) = unat a * unat b div 2 ^ 64"
  proof -
    have "unat (drop_bit 64 ?p) = unat a * unat b div 2 ^ 64"
      unfolding unat_drop_bit_eq p by (rule drop_bit_eq_div)
    moreover have "unat a * unat b div 2 ^ 64 < 2 ^ 64"
      using small by (rule less_mult_imp_div_less)
    ultimately show ?thesis by (simp only: unsigned_ucast_eq) (simp add: take_bit_nat_eq_self)
  qed
  ultimately show ?thesis by (simp add: umul128_def Let_def)
qed

lemma hash_int_unat:
  "unat (hash_int x) =
     (unat x * 0xde5fb9d2630458e9 div 2 ^ 64 + unat x * 0xde5fb9d2630458e9 mod 2 ^ 64) mod 2 ^ 64"
  using umul128_halves [of x "0xde5fb9d2630458e9"]
  by (simp add: hash_int_def unat_word_ariths split: prod.splits)

text \<open>The fall-through switch is one XOR with the little-endian load of the remaining bytes.\<close>

lemma load_le_Cons: "load_le (b # bs) = ucast b + 256 * load_le bs"
  by (simp add: load_le_def)

lemma bit_times_256: "bit (256 * (w :: u64)) n \<longleftrightarrow> 8 \<le> n \<and> n < 64 \<and> bit w (n - 8)"
proof -
  have "256 * w = push_bit 8 w" by (simp add: push_bit_eq_mult)
  then show ?thesis by (simp add: bit_push_bit_iff)
qed

lemma bit_load_le:
  "bit (load_le bs) n \<longleftrightarrow> n < 64 \<and> n div 8 < length bs \<and> bit (bs ! (n div 8)) (n mod 8)"
proof (induction bs arbitrary: n)
  case Nil
  then show ?case by (simp add: load_le_def)
next
  case (Cons b bs)
  have "load_le (b # bs) = ucast b OR 256 * load_le bs"
    unfolding load_le_Cons
    by (rule add_disjoint_or) (auto simp: bit_times_256 bitset_simps dest: bit_imp_le_length)
  then have *: "bit (load_le (b # bs)) n \<longleftrightarrow>
      n < 64 \<and> (bit b n \<or> 8 \<le> n \<and> bit (load_le bs) (n - 8))"
    by (auto simp: bitset_simps bit_times_256)
  show ?case
  proof (cases "n < 8")
    case True
    then show ?thesis by (auto simp: *)
  next
    case False
    then have "\<not> bit b n" by (auto dest: bit_imp_le_length)
    moreover have "n div 8 = Suc ((n - 8) div 8)" "n mod 8 = (n - 8) mod 8"
      using False by (auto simp: div_if mod_if)
    ultimately show ?thesis using False by (auto simp: * Cons.IH)
  qed
qed

lemma foldl_xor_bytes:
  "n \<le> length rest \<Longrightarrow> n \<le> 8 \<Longrightarrow>
   foldl (\<lambda>h i. h XOR push_bit (8 * i) (ucast (rest ! i))) h (rev [0..<n]) = h XOR load_le (take n rest)"
  for h :: u64
proof (induction n arbitrary: h)
  case 0
  then show ?case by (simp add: load_le_def)
next
  case (Suc n)
  have "(h XOR push_bit (8 * n) (ucast (rest ! n))) XOR load_le (take n rest) = h XOR load_le (take (Suc n) rest)"
  proof (rule bit_word_eqI)
    fix j assume "j < LENGTH(64)"
    then have j: "j < 64" by simp
    show "bit ((h XOR push_bit (8 * n) (ucast (rest ! n))) XOR load_le (take n rest)) j \<longleftrightarrow>
          bit (h XOR load_le (take (Suc n) rest)) j"
    proof (cases "j div 8 = n")
      case True
      then have "j mod 8 = j - 8 * n" "8 * n \<le> j" "j - 8 * n < 8"
        by (auto simp: minus_mult_div_eq_mod)
      with True j Suc.prems show ?thesis
        by (simp add: bitset_simps bit_load_le bit_push_bit_iff)
    next
      case False
      then have "\<not> (8 * n \<le> j \<and> j - 8 * n < 8)" by auto
      then have "\<not> bit (push_bit (8 * n) (ucast (rest ! n) :: u64)) j"
        by (auto simp: bit_push_bit_iff bitset_simps dest: bit_imp_le_length)
      with False Suc.prems show ?thesis
        by (auto simp: bitset_simps bit_load_le less_Suc_eq)
    qed
  qed
  with Suc show ?case by simp
qed

lemma murmur_tail_load:
  "length rest < 8 \<Longrightarrow> rest \<noteq> [] \<Longrightarrow> murmur_tail h rest = (h XOR load_le rest) * murmur_m"
  using foldl_xor_bytes [of "length rest" rest h] by (simp add: murmur_tail_def)

lemma murmur_body_rest: "murmur_body h bs = (h', rest) \<Longrightarrow>
   length rest = length bs mod 8 \<and> rest = drop (8 * (length bs div 8)) bs"
proof (induction h bs rule: murmur_body.induct)
  case (1 h bs)
  show ?case
  proof (cases "length bs < 8")
    case True
    with "1.prems" show ?thesis by (auto simp: murmur_body.simps [of h bs])
  next
    case False
    with "1.prems" have "murmur_body (murmur_step h (load_le (take 8 bs))) (drop 8 bs) = (h', rest)"
      by (simp add: murmur_body.simps [of h bs])
    from "1.IH" [OF False this] False show ?thesis
      by (auto simp: div_if [of "length bs"] mod_if [of "length bs"] add.commute)
  qed
qed

text \<open>
  C37: the body of \<open>MurmurHash64A\<close> leaves exactly the last \<open>len & 7\<close> bytes for the switch, and the
  fall-through switch over them amounts to one XOR with their little-endian load.
\<close>

theorem murmur_switch_is_load:
  "murmur_body h key = (h', rest) \<Longrightarrow>
   length rest = length key mod 8 \<and> rest = drop (8 * (length key div 8)) key \<and>
   murmur_tail h' rest = (if rest = [] then h' else (h' XOR load_le rest) * murmur_m)"
  using murmur_body_rest [of h key h' rest] murmur_tail_load [of rest h']
  by (auto simp: murmur_tail_def)

theorem murmur_switch_is_load_witness:
  "murmur_body 5 [1, 2, 3, 4, 5, 6, 7, 8, 9, 10] = (murmur_step 5 (load_le [1, 2, 3, 4, 5, 6, 7, 8]), [9, 10]) \<and>
   murmur_tail (murmur_step 5 (load_le [1, 2, 3, 4, 5, 6, 7, 8])) [9, 10] =
     (murmur_step 5 (load_le [1, 2, 3, 4, 5, 6, 7, 8]) XOR load_le [9, 10]) * murmur_m"
proof -
  have run: "murmur_body 5 [1, 2, 3, 4, 5, 6, 7, 8, 9, 10] =
      (murmur_step 5 (load_le [1, 2, 3, 4, 5, 6, 7, 8]), [9, 10])"
    by (simp add: murmur_body.simps)
  from murmur_switch_is_load [OF run] run show ?thesis by simp
qed

subsection \<open>SpinLock\<close>

lemmas spin_defs = spin_init_def spin_exchange_def spin_is_locked_def spin_goto_def
  spin_lock_exchange_def spin_try_exchange_def spin_unlock_def

interpretation spin: exclusive_lock spin_init spin_step "\<lambda>s i. spin_pcs s i = Inside" lock_flag
proof unfold_locales
  show "spin_pcs spin_init i \<noteq> Inside" for i by (simp add: spin_defs)
next
  fix s t i
  assume "spin_step s t" "spin_pcs t i = Inside" "spin_pcs s i \<noteq> Inside"
  then show "\<not> lock_flag s \<and> lock_flag t \<and> (\<forall>j. j \<noteq> i \<longrightarrow> spin_pcs t j = Inside \<longrightarrow> spin_pcs s j = Inside)"
    by (cases rule: spin_step.cases) (auto simp: spin_defs split: if_splits)
next
  fix s t
  assume "spin_step s t" "lock_flag s" "\<not> lock_flag t"
  then show "\<exists>i. spin_pcs s i = Inside \<and> spin_pcs t i \<noteq> Inside"
    by (cases rule: spin_step.cases) (auto simp: spin_defs split: if_splits)
qed

text \<open>
  C35: with any number of threads calling \<open>lock ()\<close>, \<open>try_lock ()\<close> and \<open>unlock ()\<close> in any
  interleaving of their atomic accesses, at most one is inside, and while one is, the flag is set.
\<close>

theorem spinlock_mutual_exclusion:
  assumes "reachable spin_init spin_step s" and "spin_pcs s i = Inside"
  shows "lock_flag s \<and> (\<forall>j. spin_pcs s j = Inside \<longrightarrow> j = i)"
  using assms spin.mutual_exclusion spin.holder_held by blast

theorem spinlock_mutual_exclusion_witness:
  "\<exists>s. reachable spin_init spin_step s \<and> spin_pcs s 7 = Inside \<and> lock_flag s \<and>
       (\<forall>j. spin_pcs s j = Inside \<longrightarrow> j = 7)"
proof -
  define s1 where "s1 = spin_goto 7 Exchanging spin_init"
  have "reachable spin_init spin_step s1"
    unfolding s1_def
    by (intro reach_step [OF reach_init] call_lock) (simp add: spin_defs)
  then have r: "reachable spin_init spin_step (spin_lock_exchange 7 s1)"
    by (rule reach_step, intro lock_exchange) (simp add: s1_def spin_defs)
  have "spin_pcs (spin_lock_exchange 7 s1) 7 = Inside"
    by (simp add: s1_def spin_defs)
  with spinlock_mutual_exclusion [OF r this] r show ?thesis by blast
qed

subsection \<open>Bit tricks and the BitSet cursor\<close>

lemma popcount_halves:
  "popcount (ucast (drop_bit 32 n) :: u32) + popcount (ucast (n AND 0xFFFFFFFF) :: u32) = popcount (n :: u64)"
proof -
  have m: "(0xFFFFFFFF :: u64) = mask 32" by (simp add: mask_eq_exp_minus_1)
  have hi: "{i. bit (ucast (drop_bit 32 n) :: u32) i} = {i. i < 32 \<and> bit n (32 + i)}"
    by (auto simp: bitset_simps bit_drop_bit_eq)
  have lo: "{i. bit (ucast (n AND 0xFFFFFFFF) :: u32) i} = {i. i < 32 \<and> bit n i}"
    unfolding m by (auto simp: bitset_simps bit_mask_iff)
  have "{i. bit n i} = {i. i < 32 \<and> bit n i} \<union> (+) 32 ` {i. i < 32 \<and> bit n (32 + i)}"
  proof -
    have "i \<in> (+) 32 ` {i. i < 32 \<and> bit n (32 + i)}" if "bit n i" "\<not> i < 32" for i
      using that bit_imp_le_length [OF that(1)] by (intro image_eqI [of _ _ "i - 32"]) auto
    then show ?thesis by auto
  qed
  then have "popcount n = card {i. i < 32 \<and> bit n i} + card ((+) 32 ` {i. i < 32 \<and> bit n (32 + i)})"
    by (simp add: popcount_card) (subst card_Un_disjoint, auto)
  then show ?thesis by (simp add: popcount_card hi lo card_image)
qed

lemma popcount_1_iff: "popcount (w :: 'a::len word) = 1 \<longleftrightarrow> (\<exists>k < LENGTH('a). w = 2 ^ k)"
proof
  assume "popcount w = 1"
  then obtain k where k: "{i. bit w i} = {k}" by (auto simp: popcount_card card_1_singleton_iff)
  then have "k < LENGTH('a)" by (metis bit_imp_le_length mem_Collect_eq singletonI)
  moreover have "w = 2 ^ k"
    using k by (intro bit_eqI) (auto simp: bit_exp_iff)
  ultimately show "\<exists>k < LENGTH('a). w = 2 ^ k" by blast
next
  assume "\<exists>k < LENGTH('a). w = 2 ^ k"
  then obtain k where "k < LENGTH('a)" "w = 2 ^ k" by blast
  then have "{i. bit w i} = {k}" by (auto simp: bit_exp_iff)
  then show "popcount w = 1" by (simp add: popcount_card)
qed

text \<open>\<open>isPowerOfTwo\<close> decides exactly the powers of two of a 64-bit word.\<close>

theorem isPowerOfTwo_iff: "isPowerOfTwo n \<longleftrightarrow> (\<exists>k < 64. n = 2 ^ k)"
  using popcount_1_iff [of n] unfolding isPowerOfTwo_def popcount_halves by force

interpretation bitset: bit_cursor "\<lambda>b. b = bitset_end" bitset_deref bitset_advance bitset_walk
  by unfold_locales
    (simp_all add: bitset_end_def bitset_deref_def bitset_advance_def bitset_walk.simps [of _])

text \<open>
  C38: a range-for over a \<open>BitSet\<close> visits exactly the set bit positions, each once, in increasing
  order, and as many as \<open>validCount ()\<close> says.
\<close>

theorem bitset_walk_spec:
  "bitset_walk b = filter (bit b) [0..<64] \<and> length (bitset_walk b) = bitset_validCount b"
  by (simp add: bitset.walk_bits_of bits_of_def bitset_validCount_def popcount_def)

subsection \<open>Slice\<close>

lemma memcmp_eq: "length xs = length ys \<Longrightarrow> memcmp xs ys (length xs) = 0 \<longleftrightarrow> xs = ys"
  by (induction xs ys rule: list_induct2) auto

lemma memcmp_range: "memcmp xs ys n \<in> {-1, 0, 1}"
  by (induction xs ys n rule: memcmp.induct) auto

lemma memcmp_swap: "memcmp ys xs n = - memcmp xs ys n"
  by (induction xs ys n rule: memcmp.induct) auto

lemma slice_compare_Cons:
  "slice_compare (x # xs) (y # ys) = (if x < y then -1 else if y < x then 1 else slice_compare xs ys)"
  by (simp add: slice_compare_def Let_def)

lemma slice_compare_Nil:
  "slice_compare [] [] = 0" "slice_compare (x # xs) [] = 1" "slice_compare [] (y # ys) = -1"
  by (simp_all add: slice_compare_def)

text \<open>
  C36: \<open>Slice::compare\<close> is the lexicographic three-way order on unsigned bytes: negative exactly on
  the lexicographically smaller slice, zero exactly on equal slices (so it agrees with
  \<open>operator==\<close>), and it changes sign when the arguments are swapped.
\<close>

theorem slice_compare_lexicographic:
  "(slice_compare a b < 0 \<longleftrightarrow> (a, b) \<in> lexord {(x, y). x < y}) \<and>
   (slice_compare a b = 0 \<longleftrightarrow> a = b) \<and> (slice_eq a b \<longleftrightarrow> a = b) \<and>
   slice_compare b a = - slice_compare a b"
proof -
  have "(slice_compare a b < 0 \<longleftrightarrow> (a, b) \<in> lexord {(x, y). x < y}) \<and>
        (slice_compare a b = 0 \<longleftrightarrow> a = b) \<and> slice_compare b a = - slice_compare a b"
  proof (induction a arbitrary: b)
    case Nil
    show ?case by (cases b) (simp_all add: slice_compare_Nil)
  next
    case (Cons x xs)
    show ?case
    proof (cases b)
      case (Cons y ys)
      with Cons.IH [of ys] show ?thesis
        by (cases "x < y"; cases "y < x") (auto simp: slice_compare_Cons)
    qed (simp add: slice_compare_Nil)
  qed
  moreover have "slice_eq a b \<longleftrightarrow> a = b"
    using memcmp_eq [of a b] by (auto simp: slice_eq_def)
  ultimately show ?thesis by blast
qed

end
