(* ===== verification/Slots.thy ===== *)
theory Slots
  imports Interfaces
begin

text \<open>
  Arrays of key-value slots with a validity predicate, the shape that \<open>SortedBufNode_t\<close>,
  \<open>NodeBuffer\<close>, \<open>LeafNode64\<close> and the CCEH segments share: what map such an array stands for, how
  a fingerprint probe finds a key in it, and how writing or invalidating one slot changes the map.
\<close>

definition slot_find :: "nat \<Rightarrow> (nat \<Rightarrow> bool) \<Rightarrow> (nat \<Rightarrow> 'k) \<Rightarrow> 'k \<Rightarrow> nat option" where
  "slot_find N live key k = find (\<lambda>i. live i \<and> key i = k) [0..<N]"

definition slot_view :: "nat \<Rightarrow> (nat \<Rightarrow> bool) \<Rightarrow> (nat \<Rightarrow> 'k) \<Rightarrow> (nat \<Rightarrow> 'v) \<Rightarrow> 'k \<rightharpoonup> 'v" where
  "slot_view N live key val = (\<lambda>k. map_option val (slot_find N live key k))"

definition slots_distinct :: "nat \<Rightarrow> (nat \<Rightarrow> bool) \<Rightarrow> (nat \<Rightarrow> 'k) \<Rightarrow> bool" where
  "slots_distinct N live key \<longleftrightarrow>
     (\<forall>i < N. \<forall>j < N. live i \<longrightarrow> live j \<longrightarrow> key i = key j \<longrightarrow> i = j)"

lemma slot_find_SomeD: "slot_find N live key k = Some i \<Longrightarrow> i < N \<and> live i \<and> key i = k"
  by (auto simp: slot_find_def dest: find_SomeD)

lemma slot_find_None: "slot_find N live key k = None \<longleftrightarrow> (\<forall>i < N. live i \<longrightarrow> key i \<noteq> k)"
  by (auto simp: slot_find_def find_None_iff)

lemma slot_find_eq:
  assumes "slots_distinct N live key" "i < N" "live i" "key i = k"
  shows "slot_find N live key k = Some i"
  unfolding slot_find_def
  by (rule find_unique) (use assms in \<open>auto simp: slots_distinct_def\<close>)

lemma slot_view_eq:
  "slots_distinct N live key \<Longrightarrow> i < N \<Longrightarrow> live i \<Longrightarrow> key i = k \<Longrightarrow> slot_view N live key val k = Some (val i)"
  by (simp add: slot_view_def slot_find_eq)

lemma slot_view_None: "slot_view N live key val k = None \<longleftrightarrow> (\<forall>i < N. live i \<longrightarrow> key i \<noteq> k)"
  by (simp add: slot_view_def slot_find_None)

lemma slot_view_SomeD:
  "slot_view N live key val k = Some v \<Longrightarrow> \<exists>i < N. live i \<and> key i = k \<and> val i = v"
  by (auto simp: slot_view_def dest: slot_find_SomeD)

lemma slot_find_cong:
  "(\<And>i. i < N \<Longrightarrow> (live i \<and> key i = k) = (live' i \<and> key' i = k)) \<Longrightarrow>
   slot_find N live key k = slot_find N live' key' k"
  unfolding slot_find_def by (rule find_cong) auto

lemma slot_view_cong:
  assumes "\<And>i. i < N \<Longrightarrow> live i = live' i"
    and "\<And>i. i < N \<Longrightarrow> live i \<Longrightarrow> key i = key' i"
    and "\<And>i. i < N \<Longrightarrow> live i \<Longrightarrow> val i = val' i"
  shows "slot_view N live key val = slot_view N live' key' val'"
proof
  fix k
  have "slot_find N live key k = slot_find N live' key' k"
    by (rule slot_find_cong) (use assms in auto)
  then show "slot_view N live key val k = slot_view N live' key' val' k"
    unfolding slot_view_def using assms(3)
    by (cases "slot_find N live key k") (metis option.simps(8), metis option.simps(9) slot_find_SomeD)
qed

section \<open>Probing through fingerprints\<close>

lemma find_filter: "find P (filter Q xs) = find (\<lambda>x. Q x \<and> P x) xs"
  by (induction xs) auto

lemma find_app: "find P (xs @ ys) = (case find P xs of None \<Rightarrow> find P ys | Some x \<Rightarrow> Some x)"
  by (induction xs) auto

lemma find_upt_prefix:
  assumes "N \<le> M" and "\<And>i. P i \<Longrightarrow> i < N"
  shows "find P [0..<M] = find P [0..<N]"
proof -
  have "[0..<M] = [0..<N] @ [N..<M]" using assms(1) by (metis le_add_diff_inverse upt_add_eq_append zero_le)
  moreover have "find P [N..<M] = None" using assms(2) by (fastforce simp: find_None_iff)
  ultimately show ?thesis by (simp add: find_app split: option.split)
qed

text \<open>
  Walking the set bits of \<open>match word AND valid word\<close> and comparing keys finds the same slot as a
  scan of all live slots, provided the tag of a live slot is the fingerprint of its key.
\<close>

lemma probe_find:
  fixes w :: "'a::len word"
  assumes le: "N \<le> LENGTH('a)"
    and w: "\<And>i. bit w i \<longleftrightarrow> i < N \<and> live i \<and> tag i = t"
    and tags: "\<And>i. i < N \<Longrightarrow> live i \<Longrightarrow> key i = k \<Longrightarrow> tag i = t"
  shows "find (\<lambda>i. key i = k) (bits_of w) = slot_find N live key k"
proof -
  have "find (\<lambda>i. key i = k) (bits_of w) = find (\<lambda>i. bit w i \<and> key i = k) [0..<LENGTH('a)]"
    by (simp add: bits_of_def find_filter)
  also have "\<dots> = find (\<lambda>i. bit w i \<and> key i = k) [0..<N]"
    by (rule find_upt_prefix [OF le]) (simp add: w)
  also have "\<dots> = slot_find N live key k"
    unfolding slot_find_def by (rule find_cong) (auto simp: w tags)
  finally show ?thesis .
qed

section \<open>Writing and invalidating a slot\<close>

text \<open>
  Slot \<open>p\<close> now holds \<open>(k, v)\<close>, every other slot is as before except that an older slot of the same
  key is no longer live. This covers an insertion, an update in place and an update that moves the
  record to another slot.
\<close>

lemma slots_write:
  assumes d: "slots_distinct N live key" and p: "p < N"
    and new: "live' p" "key' p = k"
    and frame: "\<And>i. i < N \<Longrightarrow> i \<noteq> p \<Longrightarrow> live' i \<longleftrightarrow> live i \<and> key i \<noteq> k"
    and frame_key: "\<And>i. i < N \<Longrightarrow> i \<noteq> p \<Longrightarrow> live' i \<Longrightarrow> key' i = key i"
    and frame_val: "\<And>i. i < N \<Longrightarrow> i \<noteq> p \<Longrightarrow> live' i \<Longrightarrow> val' i = val i"
    and free: "live p \<Longrightarrow> key p = k"
  shows "slots_distinct N live' key' \<and>
         slot_view N live' key' val' = (slot_view N live key val)(k \<mapsto> val' p)"
proof
  show d': "slots_distinct N live' key'"
    using d new frame frame_key unfolding slots_distinct_def by metis
  show "slot_view N live' key' val' = (slot_view N live key val)(k \<mapsto> val' p)"
  proof
    fix x
    show "slot_view N live' key' val' x = ((slot_view N live key val)(k \<mapsto> val' p)) x"
    proof (cases "x = k")
      case True
      then show ?thesis using slot_view_eq [OF d' p new] by simp
    next
      case False
      show ?thesis
      proof (cases "\<exists>i < N. live i \<and> key i = x")
        case True
        then obtain i where i: "i < N" "live i" "key i = x" by blast
        with False free have "i \<noteq> p" by auto
        with i frame False frame_key frame_val
        have "live' i" "key' i = x" "val' i = val i" by auto
        with slot_view_eq [OF d' i(1), of x val'] slot_view_eq [OF d i, of val] False
        show ?thesis by simp
      next
        case none: False
        have "\<forall>i < N. live' i \<longrightarrow> key' i \<noteq> x"
          using none False frame frame_key new by metis
        then have "slot_view N live' key' val' x = None" by (simp only: slot_view_None)
        moreover have "slot_view N live key val x = None" using none by (simp only: slot_view_None) blast
        ultimately show ?thesis using False by simp
      qed
    qed
  qed
qed

lemma slots_erase:
  assumes d: "slots_distinct N live key"
    and frame: "\<And>i. i < N \<Longrightarrow> live' i \<longleftrightarrow> live i \<and> key i \<noteq> k"
    and frame_key: "\<And>i. i < N \<Longrightarrow> live' i \<Longrightarrow> key' i = key i"
    and frame_val: "\<And>i. i < N \<Longrightarrow> live' i \<Longrightarrow> val' i = val i"
  shows "slots_distinct N live' key' \<and>
         slot_view N live' key' val' = (slot_view N live key val)(k := None)"
proof
  show d': "slots_distinct N live' key'"
    using d frame frame_key unfolding slots_distinct_def by metis
  show "slot_view N live' key' val' = (slot_view N live key val)(k := None)"
  proof
    fix x
    show "slot_view N live' key' val' x = ((slot_view N live key val)(k := None)) x"
    proof (cases "x \<noteq> k \<and> (\<exists>i < N. live i \<and> key i = x)")
      case True
      then obtain i where i: "i < N" "live i" "key i = x" by blast
      with True frame frame_key frame_val have "live' i" "key' i = x" "val' i = val i" by auto
      with slot_view_eq [OF d' i(1), of x val'] slot_view_eq [OF d i, of val] True
      show ?thesis by simp
    next
      case False
      have "\<forall>i < N. live' i \<longrightarrow> key' i \<noteq> x"
        using False frame frame_key by metis
      then have "slot_view N live' key' val' x = None" by (simp only: slot_view_None)
      moreover have "x \<noteq> k \<Longrightarrow> slot_view N live key val x = None"
        using False by (simp only: slot_view_None) blast
      ultimately show ?thesis by simp
    qed
  qed
qed

text \<open>Restricting the live slots restricts the map to the keys that stay.\<close>

lemma slots_restrict:
  assumes d: "slots_distinct N live key" and sub: "\<And>i. i < N \<Longrightarrow> live' i \<Longrightarrow> live i"
  shows "slots_distinct N live' key \<and>
    slot_view N live' key val x = (if x \<in> key ` {i. i < N \<and> live' i} then slot_view N live key val x else None)"
proof
  show d': "slots_distinct N live' key"
    using d sub unfolding slots_distinct_def by blast
  show "slot_view N live' key val x = (if x \<in> key ` {i. i < N \<and> live' i} then slot_view N live key val x else None)"
  proof (cases "x \<in> key ` {i. i < N \<and> live' i}")
    case True
    then obtain i where i: "i < N" "live' i" "key i = x" by blast
    with slot_view_eq [OF d' i, of val] slot_view_eq [OF d i(1) sub [OF i(1,2)] i(3), of val] True
    show ?thesis by simp
  next
    case False
    then have "slot_view N live' key val x = None" by (auto simp only: slot_view_None)
    with False show ?thesis by simp
  qed
qed

end
