(* ===== verification/BufNode.thy ===== *)
theory BufNode
  imports Slots SpotonUtil
begin

text \<open>
  \<open>SortedBufNode_t\<close> of \<open>src/spoton_bufnode.h\<close> and \<open>src/spoton_bufnode.cc\<close>: 13 key-value slots
  with one fingerprint byte each, a bitmap of valid and a bitmap of deleted slots. Twelve slots may
  be valid; the thirteenth is the spare that an update writes before it invalidates the old slot.
  Keys are \<open>int64_t\<close>; they are kept as 64-bit words and compared as signed integers by \<open>Sort\<close>.
\<close>

section \<open>State\<close>

record kv_t =
  kv_key :: u64
  kv_val :: u64

record bufnode =
  bn_valid :: u16
  bn_deleted :: u16
  bn_lockbit :: bool
  bn_full :: u8
  bn_tags :: "u8 list"
  bn_seqs :: "u8 list"
  bn_highkey :: u64
  bn_parentkey :: u64
  bn_kvs :: "kv_t list"
  bn_logptr :: u64

definition kBufNodeFull :: nat where
  "kBufNodeFull = 12"

definition kBitMapMask :: u16 where
  "kBitMapMask = 0x1FFF"

text \<open>
  The constructor clears the first 64 bytes of the object, that is everything up to and including
  \<open>kvs_[0]\<close>; the other twelve slots keep whatever the memory held.
\<close>

definition bufnode_new :: "kv_t list \<Rightarrow> bufnode" where
  "bufnode_new garbage =
     \<lparr>bn_valid = 0, bn_deleted = 0, bn_lockbit = False, bn_full = 0,
      bn_tags = replicate 13 0, bn_seqs = replicate 13 0,
      bn_highkey = -1, bn_parentkey = -1,
      bn_kvs = \<lparr>kv_key = 0, kv_val = 0\<rparr> # garbage, bn_logptr = 0xFFFF000000000000\<rparr>"

definition bn_Lock :: "bufnode \<Rightarrow> bufnode option" where
  "bn_Lock n = (if bn_lockbit n then None else Some (n\<lparr>bn_lockbit := True\<rparr>))"

definition bn_Unlock :: "bufnode \<Rightarrow> bufnode" where
  "bn_Unlock n = n\<lparr>bn_lockbit := False\<rparr>"

definition bn_Reset :: "bufnode \<Rightarrow> bufnode" where
  "bn_Reset n = n\<lparr>bn_valid := 0, bn_deleted := 0\<rparr>"

section \<open>Bitmaps\<close>

text \<open>The 16-byte load at \<open>tags_\<close> also covers the first three bytes of \<open>seqs_\<close>.\<close>

definition bn_MatchBitSet :: "bufnode \<Rightarrow> u8 \<Rightarrow> u64" where
  "bn_MatchBitSet n hash_val =
     (let mask = (match_mask (bn_tags n @ take 3 (bn_seqs n)) hash_val :: u16)
      in ucast (mask AND bn_valid n AND NOT (bn_deleted n) AND kBitMapMask))"

definition bn_EraseBitSet :: "bufnode \<Rightarrow> u64" where
  "bn_EraseBitSet n = ucast (bn_deleted n AND kBitMapMask)"

definition bn_BackupBitSet :: "bufnode \<Rightarrow> u64" where
  "bn_BackupBitSet n = ucast (NOT (bn_valid n) AND kBitMapMask)"

definition bn_ValidBitSet :: "bufnode \<Rightarrow> u64" where
  "bn_ValidBitSet n = ucast (bn_valid n AND NOT (bn_deleted n) AND kBitMapMask)"

definition bn_ValidCount :: "bufnode \<Rightarrow> nat" where
  "bn_ValidCount n = popcount (bn_valid n AND NOT (bn_deleted n) AND kBitMapMask)"

definition bn_Full :: "bufnode \<Rightarrow> bool" where
  "bn_Full n \<longleftrightarrow> popcount (bn_valid n AND kBitMapMask) = kBufNodeFull"

section \<open>Operations\<close>

text \<open>The probe loop: the first matching slot whose key is the wanted one.\<close>

definition bn_probe :: "bufnode \<Rightarrow> u64 \<Rightarrow> u8 \<Rightarrow> nat option" where
  "bn_probe n key tag = find (\<lambda>i. kv_key (bn_kvs n ! i) = key) (bitset_walk (bn_MatchBitSet n tag))"

definition bn_insert_at :: "u64 \<Rightarrow> u64 \<Rightarrow> nat \<Rightarrow> nat option \<Rightarrow> u8 \<Rightarrow> bufnode \<Rightarrow> bufnode" where
  "bn_insert_at key val insert_pos old_pos tag n =
     (let n1 = n\<lparr>bn_kvs := (bn_kvs n)[insert_pos := \<lparr>kv_key = key, kv_val = val\<rparr>],
                 bn_tags := (bn_tags n)[insert_pos := tag]\<rparr>;
          valid1 = bn_valid n1 OR shl1 insert_pos;
          valid2 = (case old_pos of None \<Rightarrow> valid1 | Some p \<Rightarrow> valid1 XOR shl1 p);
          deleted1 = bn_deleted n1 AND NOT (shl1 insert_pos)
      in n1\<lparr>bn_valid := valid2, bn_deleted := deleted1\<rparr>)"

definition bn_insert_hash :: "u64 \<Rightarrow> u64 \<Rightarrow> u64 \<Rightarrow> bufnode \<Rightarrow> bool \<times> bufnode" where
  "bn_insert_hash key val hash n =
     (let tag = ucast (hash AND 0xFF);
          old_pos = bn_probe n key tag;
          pos1 = (case old_pos of Some _ \<Rightarrow> Some (bitset_deref (bn_BackupBitSet n)) | None \<Rightarrow> None);
          pos2 = (case pos1 of
                    Some p \<Rightarrow> Some p
                  | None \<Rightarrow> if bitset_validCount (bn_EraseBitSet n) \<noteq> 0
                            then Some (bitset_deref (bn_EraseBitSet n)) else None);
          pos3 = (case pos2 of
                    Some p \<Rightarrow> Some p
                  | None \<Rightarrow> if \<not> bn_Full n then Some (bitset_deref (bn_BackupBitSet n)) else None)
      in case pos3 of
           Some insert_pos \<Rightarrow> (True, bn_insert_at key val insert_pos old_pos tag n)
         | None \<Rightarrow> (False, n))"

definition bn_insert :: "u64 \<Rightarrow> u64 \<Rightarrow> bufnode \<Rightarrow> bool \<times> bufnode" where
  "bn_insert key val n = bn_insert_hash key val (hash_int key) n"

definition bn_get_hash :: "u64 \<Rightarrow> u64 \<Rightarrow> bufnode \<Rightarrow> u64 option" where
  "bn_get_hash key hash n =
     (case bn_probe n key (ucast (hash AND 0xFF)) of
        Some i \<Rightarrow> Some (kv_val (bn_kvs n ! i)) | None \<Rightarrow> None)"

definition bn_get :: "u64 \<Rightarrow> bufnode \<Rightarrow> u64 option" where
  "bn_get key n = bn_get_hash key (hash_int key) n"

definition bn_delete_hash :: "u64 \<Rightarrow> u64 \<Rightarrow> bufnode \<Rightarrow> bool \<times> bufnode" where
  "bn_delete_hash key hash n =
     (case bn_probe n key (ucast (hash AND 0xFF)) of
        Some i \<Rightarrow> (True, n\<lparr>bn_deleted := bn_deleted n OR shl1 i\<rparr>) | None \<Rightarrow> (False, n))"

definition bn_delete :: "u64 \<Rightarrow> bufnode \<Rightarrow> bool \<times> bufnode" where
  "bn_delete key n = bn_delete_hash key (hash_int key) n"

text \<open>
  \<open>Sort\<close> orders the live positions by signed key (\<open>std::sort\<close>; the keys of live slots differ, so
  the result does not depend on its treatment of equal elements) and writes them to \<open>seqs_\<close>.
\<close>

definition bn_Sort :: "bufnode \<Rightarrow> bufnode" where
  "bn_Sort n =
     (let valid_pos = bitset_walk (bn_ValidBitSet n);
          sorted_pos = sort_key (\<lambda>i. sint (kv_key (bn_kvs n ! i))) valid_pos
      in n\<lparr>bn_seqs := map of_nat sorted_pos @ drop (length sorted_pos) (bn_seqs n)\<rparr>)"

text \<open>
  \<open>MaskLastN (k)\<close> reads \<open>seqs_\<close> from \<open>count - k\<close> up to \<open>count\<close>; None is the read before the array
  when \<open>k\<close> exceeds the number of live records.
\<close>

definition bn_MaskLastN :: "nat \<Rightarrow> bufnode \<Rightarrow> bufnode option" where
  "bn_MaskLastN k n =
     (let count = bn_ValidCount n in
      if count < k then None
      else
        (let mask = foldl (\<lambda>m i. m OR shl1 (unat (bn_seqs n ! i))) (0 :: u16) [count - k..<count]
         in Some (n\<lparr>bn_valid := bn_valid n AND (NOT mask AND kBitMapMask)\<rparr>)))"

section \<open>Iterators\<close>

definition bn_Iterator :: "bufnode \<Rightarrow> kv_t list" where
  "bn_Iterator n = map (\<lambda>i. bn_kvs n ! i) (bitset_walk (bn_ValidBitSet n))"

definition bn_IteratorSorted :: "bufnode \<Rightarrow> kv_t list" where
  "bn_IteratorSorted n = map (\<lambda>i. bn_kvs n ! unat (bn_seqs n ! i)) [0..<bn_ValidCount n]"

section \<open>Invariant and abstraction\<close>

definition bn_tag :: "(u64 \<Rightarrow> u64) \<Rightarrow> u64 \<Rightarrow> u8" where
  "bn_tag H key = ucast (H key AND 0xFF)"

definition bn_live :: "bufnode \<Rightarrow> nat \<Rightarrow> bool" where
  "bn_live n i \<longleftrightarrow> i < 13 \<and> bit (bn_valid n) i \<and> \<not> bit (bn_deleted n) i"

abbreviation bn_key :: "bufnode \<Rightarrow> nat \<Rightarrow> u64" where
  "bn_key n i \<equiv> kv_key (bn_kvs n ! i)"

abbreviation bn_val :: "bufnode \<Rightarrow> nat \<Rightarrow> u64" where
  "bn_val n i \<equiv> kv_val (bn_kvs n ! i)"

definition bn_view :: "bufnode \<Rightarrow> u64 \<rightharpoonup> u64" where
  "bn_view n = slot_view 13 (bn_live n) (bn_key n) (bn_val n)"

text \<open>
  The record invariant for the hash function \<open>H\<close>: only the 13 slot bits are used, deleted slots are
  valid slots, one slot is always spare, live keys differ and carry their fingerprint.
\<close>

definition bn_inv :: "(u64 \<Rightarrow> u64) \<Rightarrow> bufnode \<Rightarrow> bool" where
  "bn_inv H n \<longleftrightarrow>
     length (bn_kvs n) = 13 \<and> length (bn_tags n) = 13 \<and> length (bn_seqs n) = 13 \<and>
     bn_valid n AND NOT kBitMapMask = 0 \<and> bn_deleted n AND NOT (bn_valid n) = 0 \<and>
     popcount (bn_valid n) \<le> kBufNodeFull \<and>
     slots_distinct 13 (bn_live n) (bn_key n) \<and>
     (\<forall>i < 13. bn_live n i \<longrightarrow> bn_tags n ! i = bn_tag H (bn_key n i))"

lemma bit_kBitMapMask [bitset_simps]: "bit kBitMapMask i \<longleftrightarrow> i < 13"
proof -
  have eq: "kBitMapMask = mask 13" by (simp add: kBitMapMask_def mask_eq_exp_minus_1)
  show ?thesis by (simp only: eq bit_mask_iff) auto
qed

lemma and_not_eq_0: "v AND NOT w = 0 \<longleftrightarrow> (\<forall>i. bit v i \<longrightarrow> bit w i)" for v w :: "'a::len word"
  by (auto simp: bit_eq_iff bitset_simps dest: bit_imp_le_length)

lemma bn_invD:
  assumes "bn_inv H n"
  shows "length (bn_kvs n) = 13" "length (bn_tags n) = 13" "length (bn_seqs n) = 13"
    "bit (bn_valid n) i \<Longrightarrow> i < 13" "bit (bn_deleted n) i \<Longrightarrow> bit (bn_valid n) i"
    "popcount (bn_valid n) \<le> 12" "slots_distinct 13 (bn_live n) (bn_key n)"
    "bn_live n i \<Longrightarrow> bn_tags n ! i = bn_tag H (bn_key n i)"
  using assms by (auto simp: bn_inv_def and_not_eq_0 bit_kBitMapMask kBufNodeFull_def bn_live_def)

lemma bn_invI:
  assumes "length (bn_kvs n) = 13" "length (bn_tags n) = 13" "length (bn_seqs n) = 13"
    "\<And>i. bit (bn_valid n) i \<Longrightarrow> i < 13" "\<And>i. bit (bn_deleted n) i \<Longrightarrow> bit (bn_valid n) i"
    "popcount (bn_valid n) \<le> 12" "slots_distinct 13 (bn_live n) (bn_key n)"
    "\<And>i. bn_live n i \<Longrightarrow> bn_tags n ! i = bn_tag H (bn_key n i)"
  shows "bn_inv H n"
  using assms by (auto simp: bn_inv_def and_not_eq_0 bit_kBitMapMask kBufNodeFull_def)

text \<open>What the four bitmaps select.\<close>

lemma bit_bn_Match:
  assumes "length (bn_tags n) = 13"
  shows "bit (bn_MatchBitSet n t) i \<longleftrightarrow> i < 13 \<and> bn_live n i \<and> bn_tags n ! i = t"
  using assms by (auto simp: bn_MatchBitSet_def Let_def bitset_simps bn_live_def nth_append)

lemma bit_bn_Erase: "bit (bn_EraseBitSet n) i \<longleftrightarrow> i < 13 \<and> bit (bn_deleted n) i"
  by (auto simp: bn_EraseBitSet_def bitset_simps)

lemma bit_bn_Backup: "bit (bn_BackupBitSet n) i \<longleftrightarrow> i < 13 \<and> \<not> bit (bn_valid n) i"
  by (auto simp: bn_BackupBitSet_def bitset_simps)

lemma bit_bn_Valid: "bit (bn_ValidBitSet n) i \<longleftrightarrow> bn_live n i"
  by (auto simp: bn_ValidBitSet_def bitset_simps bn_live_def)

lemma bn_Backup_nonempty:
  assumes "bn_inv H n"
  shows "bn_BackupBitSet n \<noteq> 0"
proof
  assume "bn_BackupBitSet n = 0"
  then have "{..<13} \<subseteq> {i. bit (bn_valid n) i}" using bit_bn_Backup [of n] by auto
  then have "card {..<13::nat} \<le> popcount (bn_valid n)"
    unfolding popcount_card by (rule card_mono [OF finite_bits])
  then have "13 \<le> popcount (bn_valid n)" by simp
  with bn_invD(6) [OF assms] show False by simp
qed

lemma bn_valid_masked: "bn_inv H n \<Longrightarrow> bn_valid n AND kBitMapMask = bn_valid n"
  by (rule bit_word_eqI) (use bn_invD(4) [of H n] in \<open>auto simp: bitset_simps\<close>)

lemma bn_Full_iff: "bn_inv H n \<Longrightarrow> bn_Full n \<longleftrightarrow> popcount (bn_valid n) = 12"
  by (simp add: bn_Full_def kBufNodeFull_def bn_valid_masked)

lemma bn_probe_find:
  assumes "bn_inv H n"
  shows "bn_probe n k (bn_tag H k) = slot_find 13 (bn_live n) (bn_key n) k"
  unfolding bn_probe_def bitset.walk_bits_of
  by (rule probe_find [where tag = "\<lambda>i. bn_tags n ! i" and t = "bn_tag H k"])
    (use bn_invD [OF assms] in \<open>auto simp: bit_bn_Match\<close>)

section \<open>The effect of a write\<close>

lemma bn_insert_at_live:
  "bn_live (bn_insert_at k v p old t n) i \<longleftrightarrow>
     i < 13 \<and> ((bit (bn_valid n) i \<or> i = p \<and> p < 16) \<noteq> (old = Some i \<and> i < 16)) \<and>
     (\<not> bit (bn_deleted n) i \<or> i = p)"
  by (auto simp: bn_insert_at_def Let_def bn_live_def bitset_simps split: option.splits)

lemma bn_insert_at_slot:
  assumes "length (bn_kvs n) = 13" "p < 13"
  shows "bn_kvs (bn_insert_at k v p old t n) ! i = (if i = p then \<lparr>kv_key = k, kv_val = v\<rparr> else bn_kvs n ! i)"
  using assms by (auto simp: bn_insert_at_def Let_def nth_list_update)

lemma bn_insert_at_tag:
  assumes "length (bn_tags n) = 13" "p < 13"
  shows "bn_tags (bn_insert_at k v p old t n) ! i = (if i = p then t else bn_tags n ! i)"
  using assms by (auto simp: bn_insert_at_def Let_def nth_list_update)

lemma bn_insert_at_valid:
  "bit (bn_valid (bn_insert_at k v p old t n)) i \<longleftrightarrow>
     (bit (bn_valid n) i \<or> i = p \<and> p < 16) \<noteq> (old = Some i \<and> i < 16)"
  by (auto simp: bn_insert_at_def Let_def bitset_simps split: option.splits)

lemma bn_insert_at_deleted:
  "bit (bn_deleted (bn_insert_at k v p old t n)) i \<longleftrightarrow> bit (bn_deleted n) i \<and> i \<noteq> p"
  by (auto simp: bn_insert_at_def Let_def bitset_simps dest: bit_imp_le_length)

lemma bn_insert_at_lengths [simp]:
  "length (bn_kvs (bn_insert_at k v p old t n)) = length (bn_kvs n)"
  "length (bn_tags (bn_insert_at k v p old t n)) = length (bn_tags n)"
  "bn_seqs (bn_insert_at k v p old t n) = bn_seqs n"
  by (simp_all add: bn_insert_at_def Let_def)

text \<open>
  \<open>Insert (key, val, insert_pos, old_pos, tag)\<close> with a free target slot: the old slot of the key is
  retired (if there is one), all other records stay, and the new record is in.
\<close>

lemma bn_insert_at_write:
  assumes inv: "bn_inv H n" and p: "p < 13" and free: "\<not> bn_live n p"
    and old: "\<And>i. old = Some i \<longleftrightarrow> bn_live n i \<and> bn_key n i = k"
    and cnt: "popcount (bn_valid (bn_insert_at k v p old (bn_tag H k) n)) \<le> 12"
  shows "bn_inv H (bn_insert_at k v p old (bn_tag H k) n) \<and>
         bn_view (bn_insert_at k v p old (bn_tag H k) n) = (bn_view n)(k \<mapsto> v)"
proof -
  let ?n = "bn_insert_at k v p old (bn_tag H k) n"
  note I = bn_invD [OF inv]
  have live: "bn_live ?n i \<longleftrightarrow> i = p \<or> bn_live n i \<and> bn_key n i \<noteq> k" for i
    using p free old [of i] I(5) [of i] unfolding bn_insert_at_live by (auto simp: bn_live_def)
  have slot: "bn_key ?n i = (if i = p then k else bn_key n i)" "bn_val ?n i = (if i = p then v else bn_val n i)" for i
    using bn_insert_at_slot [OF I(1) p] by auto
  have w: "slots_distinct 13 (bn_live ?n) (bn_key ?n) \<and>
      slot_view 13 (bn_live ?n) (bn_key ?n) (bn_val ?n) =
        (slot_view 13 (bn_live n) (bn_key n) (bn_val n))(k \<mapsto> bn_val ?n p)"
    by (rule slots_write [OF I(7) p]) (use free in \<open>auto simp: live slot\<close>)
  have "bn_inv H ?n"
  proof (rule bn_invI)
    show "i < 13" if "bit (bn_valid ?n) i" for i
      using that I(4) [of i] p old [of i] by (auto simp: bn_insert_at_valid bn_live_def)
    show "bit (bn_valid ?n) i" if "bit (bn_deleted ?n) i" for i
      using that I(5) [of i] I(4) [of i] old [of i] p
      by (auto simp: bn_insert_at_valid bn_insert_at_deleted bn_live_def)
    show "bn_tags ?n ! i = bn_tag H (bn_key ?n i)" if "bn_live ?n i" for i
      using that I(8) [of i] by (auto simp: live slot bn_insert_at_tag [OF I(2) p])
  qed (use w cnt I in auto)
  with w show ?thesis by (simp add: bn_view_def slot)
qed

lemma popcount_same_card:
  assumes "\<And>j. bit v j \<longleftrightarrow> (bit w j \<or> j = p) \<noteq> (j = i)" "bit w i" "\<not> bit w p"
  shows "popcount v = popcount w"
proof -
  have "{j. bit v j} = insert p ({j. bit w j} - {i})" using assms by auto
  then show ?thesis using assms(2,3) by (simp add: popcount_card card_insert_if card_Diff_singleton)
    (metis card_gt_0_iff empty_iff finite_bits mem_Collect_eq Suc_pred)
qed

section \<open>Insert, Get and Delete\<close>

lemma bn_probe_Some:
  assumes inv: "bn_inv H n" and p: "bn_probe n k (bn_tag H k) = Some i"
  shows "bn_live n i \<and> bn_key n i = k \<and> i < 13 \<and> bn_view n k = Some (bn_val n i)"
  using p slot_find_SomeD [of 13 "bn_live n" "bn_key n" k i]
  by (simp add: bn_probe_find [OF inv] bn_view_def slot_view_def)

lemma bn_probe_None: "bn_inv H n \<Longrightarrow> bn_probe n k (bn_tag H k) = None \<longleftrightarrow> bn_view n k = None"
  by (simp add: bn_probe_find bn_view_def slot_view_def)

lemma bn_Backup_deref:
  assumes "bn_inv H n"
  shows "bitset_deref (bn_BackupBitSet n) < 13 \<and> \<not> bit (bn_valid n) (bitset_deref (bn_BackupBitSet n))"
  using bit_ctz [OF bn_Backup_nonempty [OF assms]] by (simp add: bitset_deref_def bit_bn_Backup)

lemma bn_Erase_deref:
  assumes "bn_EraseBitSet n \<noteq> 0"
  shows "bitset_deref (bn_EraseBitSet n) < 13 \<and> bit (bn_deleted n) (bitset_deref (bn_EraseBitSet n))"
  using bit_ctz [OF assms] by (simp add: bitset_deref_def bit_bn_Erase)

text \<open>
  The three ways a record is written: an update into a spare slot, an insertion into a deleted slot,
  an insertion into a slot never used. The number of valid slots grows in the last case only.
\<close>

lemma bn_write_update:
  fixes v :: u64
  assumes inv: "bn_inv H n" and p: "bn_probe n k (bn_tag H k) = Some i"
  defines "n' \<equiv> bn_insert_at k v (bitset_deref (bn_BackupBitSet n)) (Some i) (bn_tag H k) n"
  shows "bn_inv H n' \<and> bn_view n' = (bn_view n)(k \<mapsto> v) \<and> popcount (bn_valid n') = popcount (bn_valid n)"
proof -
  let ?bp = "bitset_deref (bn_BackupBitSet n)"
  have i: "bn_live n i" "bn_key n i = k" "i < 13" using bn_probe_Some [OF inv p] by auto
  have bp: "?bp < 13" "\<not> bit (bn_valid n) ?bp" using bn_Backup_deref [OF inv] by auto
  then have free: "\<not> bn_live n ?bp" by (simp add: bn_live_def)
  have old: "Some i = Some j \<longleftrightarrow> bn_live n j \<and> bn_key n j = k" for j
    using i bn_invD(7) [OF inv] by (auto simp: slots_distinct_def bn_live_def)
  have c: "popcount (bn_valid n') = popcount (bn_valid n)"
    by (rule popcount_same_card [where p = ?bp and i = i])
      (use bp i in \<open>auto simp: n'_def bn_insert_at_valid bn_live_def\<close>)
  with bn_insert_at_write [OF inv bp(1) free old] bn_invD(6) [OF inv] show ?thesis
    by (simp add: n'_def)
qed

lemma bn_write_erased:
  fixes v :: u64
  assumes inv: "bn_inv H n" and absent: "bn_view n k = None" and e: "bn_EraseBitSet n \<noteq> 0"
  defines "n' \<equiv> bn_insert_at k v (bitset_deref (bn_EraseBitSet n)) None (bn_tag H k) n"
  shows "bn_inv H n' \<and> bn_view n' = (bn_view n)(k \<mapsto> v) \<and> popcount (bn_valid n') = popcount (bn_valid n)"
proof -
  let ?e = "bitset_deref (bn_EraseBitSet n)"
  have e: "?e < 13" "bit (bn_deleted n) ?e" using bn_Erase_deref [OF e] by auto
  have free: "\<not> bn_live n ?e" using e by (simp add: bn_live_def)
  have old: "None = Some j \<longleftrightarrow> bn_live n j \<and> bn_key n j = k" for j
    using absent by (auto simp: bn_view_def slot_view_None bn_live_def)
  have c: "popcount (bn_valid n') = popcount (bn_valid n)"
    using e bn_invD(5) [OF inv, of ?e]
    by (auto simp: n'_def popcount_card bn_insert_at_valid intro!: arg_cong [where f = card])
  with bn_insert_at_write [OF inv e(1) free old] bn_invD(6) [OF inv] show ?thesis
    by (simp add: n'_def)
qed

lemma bn_write_fresh:
  fixes v :: u64
  assumes inv: "bn_inv H n" and absent: "bn_view n k = None" and nf: "\<not> bn_Full n"
  defines "n' \<equiv> bn_insert_at k v (bitset_deref (bn_BackupBitSet n)) None (bn_tag H k) n"
  shows "bn_inv H n' \<and> bn_view n' = (bn_view n)(k \<mapsto> v) \<and> popcount (bn_valid n') = Suc (popcount (bn_valid n))"
proof -
  let ?bp = "bitset_deref (bn_BackupBitSet n)"
  have bp: "?bp < 13" "\<not> bit (bn_valid n) ?bp" using bn_Backup_deref [OF inv] by auto
  then have free: "\<not> bn_live n ?bp" by (simp add: bn_live_def)
  have old: "None = Some j \<longleftrightarrow> bn_live n j \<and> bn_key n j = k" for j
    using absent by (auto simp: bn_view_def slot_view_None bn_live_def)
  have c: "popcount (bn_valid n') = Suc (popcount (bn_valid n))"
    by (rule popcount_insert_bit [where i = ?bp]) (use bp in \<open>auto simp: n'_def bn_insert_at_valid\<close>)
  moreover have "popcount (bn_valid n) \<noteq> 12" using nf bn_Full_iff [OF inv] by simp
  ultimately show ?thesis
    using bn_insert_at_write [OF inv bp(1) free old] bn_invD(6) [OF inv] by (simp add: n'_def)
qed

lemma bn_Erase_0:
  assumes "bn_inv H n"
  shows "bn_EraseBitSet n = 0 \<longleftrightarrow> bn_deleted n = 0"
proof
  assume z: "bn_EraseBitSet n = 0"
  show "bn_deleted n = 0"
  proof (rule bit_word_eqI)
    fix j show "bit (bn_deleted n) j = bit 0 j"
      using bn_invD(4,5) [OF assms, of j] bit_bn_Erase [of n j] z by auto
  qed
qed (simp add: bn_EraseBitSet_def)

lemma bn_insert_hash_cases:
  assumes inv: "bn_inv H n"
  shows "case bn_insert_hash k v (H k) n of (b, n') \<Rightarrow>
     bn_inv H n' \<and>
     (if b then bn_view n' = (bn_view n)(k \<mapsto> v)
      else n' = n \<and> bn_view n k = None \<and> bn_Full n \<and> bn_deleted n = 0)"
proof -
  have t: "ucast (H k AND 0xFF) = bn_tag H k" by (simp add: bn_tag_def)
  show ?thesis
  proof (cases "bn_probe n k (bn_tag H k)")
    case (Some i)
    with bn_write_update [OF inv Some] show ?thesis by (simp add: bn_insert_hash_def t)
  next
    case None
    then have absent: "bn_view n k = None" using bn_probe_None [OF inv] by simp
    consider "bn_EraseBitSet n \<noteq> 0" | "bn_EraseBitSet n = 0" "bn_Full n" | "bn_EraseBitSet n = 0" "\<not> bn_Full n"
      by blast
    then show ?thesis
    proof cases
      case 1
      with None bn_write_erased [OF inv absent] show ?thesis
        by (simp add: bn_insert_hash_def t bitset_validCount_def)
    next
      case 2
      with None absent inv bn_Erase_0 [OF inv] show ?thesis
        by (simp add: bn_insert_hash_def t bitset_validCount_def)
    next
      case 3
      with None bn_write_fresh [OF inv absent] show ?thesis
        by (simp add: bn_insert_hash_def t bitset_validCount_def)
    qed
  qed
qed

lemma bn_insert_full:
  assumes inv: "bn_inv hash_int n" and "bn_view n k = None" "bn_deleted n = 0" "bn_Full n"
  shows "bn_insert k v n = (False, n)"
proof -
  have "bn_probe n k (ucast (hash_int k AND 0xFF)) = None"
    using assms(2) bn_probe_find [OF inv, of k] by (simp add: bn_view_def slot_view_def bn_tag_def)
  then show ?thesis
    using assms(3,4) by (simp add: bn_insert_def bn_insert_hash_def bitset_validCount_def bn_EraseBitSet_def)
qed

lemma bn_get_hash_view: "bn_inv H n \<Longrightarrow> bn_get_hash k (H k) n = bn_view n k"
  using bn_probe_find [of H n k]
  by (simp add: bn_get_hash_def bn_view_def slot_view_def bn_tag_def split: option.split)

lemma bn_delete_hash_view:
  assumes inv: "bn_inv H n" and del: "bn_delete_hash k (H k) n = (b, n')"
  shows "bn_inv H n' \<and> bn_view n' = (bn_view n)(k := None) \<and> (b \<longleftrightarrow> bn_view n k \<noteq> None)"
proof -
  note I = bn_invD [OF inv]
  have probe: "bn_probe n k (ucast (H k AND 0xFF)) = slot_find 13 (bn_live n) (bn_key n) k"
    using bn_probe_find [OF inv, of k] by (simp add: bn_tag_def)
  show ?thesis
  proof (cases "slot_find 13 (bn_live n) (bn_key n) k")
    case None
    with del probe have "b = False" "n' = n" by (auto simp: bn_delete_hash_def)
    with inv None show ?thesis by (auto simp: bn_view_def slot_view_def fun_upd_idem_iff)
  next
    case (Some i)
    then have i: "i < 13" "bn_live n i" "bn_key n i = k" by (auto dest: slot_find_SomeD)
    from del probe Some have n': "b = True" "n' = n\<lparr>bn_deleted := bn_deleted n OR shl1 i\<rparr>"
      by (auto simp: bn_delete_hash_def)
    have live: "bn_live n' j \<longleftrightarrow> bn_live n j \<and> bn_key n j \<noteq> k" if "j < 13" for j
      using i I(7) that by (auto simp: n' bn_live_def bitset_simps slots_distinct_def)
    have w: "slots_distinct 13 (bn_live n') (bn_key n') \<and>
        slot_view 13 (bn_live n') (bn_key n') (bn_val n') = (slot_view 13 (bn_live n) (bn_key n) (bn_val n))(k := None)"
      by (rule slots_erase [OF I(7) live]) (auto simp: n')
    have "bn_inv H n'"
    proof (rule bn_invI)
      show "bit (bn_valid n') j" if "bit (bn_deleted n') j" for j
        using that i I(5) [of j] by (auto simp: n' bitset_simps bn_live_def)
      show "bn_tags n' ! j = bn_tag H (bn_key n' j)" if "bn_live n' j" for j
        using that I(8) [of j] live [of j] by (auto simp: n' bn_live_def)
    qed (use w I in \<open>auto simp: n'\<close>)
    with w Some n' show ?thesis by (auto simp: bn_view_def slot_view_def)
  qed
qed

interpretation bn: kv_buffer "bn_inv hash_int" bn_view bn_insert bn_get bn_delete
proof unfold_locales
  fix s k v b s'
  assume i: "bn_inv hash_int s"
  note c = bn_insert_hash_cases [OF i, of k v]
  show "bn_insert k v s = (b, s') \<Longrightarrow> bn_inv hash_int s'"
    and "bn_insert k v s = (True, s') \<Longrightarrow> bn_view s' = (bn_view s)(k \<mapsto> v)"
    and "bn_insert k v s = (False, s') \<Longrightarrow> s' = s \<and> bn_view s k = None"
    using c by (auto simp: bn_insert_def split: prod.splits)
  show "bn_get k s = bn_view s k" using i by (simp add: bn_get_def bn_get_hash_view)
  show "bn_delete k s = (b, s') \<Longrightarrow> bn_inv hash_int s'"
    and "bn_delete k s = (b, s') \<Longrightarrow> bn_view s' = (bn_view s)(k := None) \<and> (b \<longleftrightarrow> bn_view s k \<noteq> None)"
    using bn_delete_hash_view [OF i] by (auto simp: bn_delete_def)
qed

lemma bufnode_new_inv: "length garbage = 12 \<Longrightarrow> bn_inv H (bufnode_new garbage)"
  by (rule bn_invI) (auto simp: bufnode_new_def slots_distinct_def bn_live_def)

lemma bufnode_new_view: "bn_view (bufnode_new garbage) = Map.empty"
  by (rule ext) (simp add: bn_view_def slot_view_None bn_live_def bufnode_new_def)

lemma bn_Reset_inv: "bn_inv H n \<Longrightarrow> bn_inv H (bn_Reset n) \<and> bn_view (bn_Reset n) = Map.empty"
proof
  assume inv: "bn_inv H n"
  show "bn_inv H (bn_Reset n)"
    by (rule bn_invI) (use bn_invD [OF inv] in \<open>auto simp: bn_Reset_def slots_distinct_def bn_live_def\<close>)
  show "bn_view (bn_Reset n) = Map.empty"
    by (rule ext) (simp add: bn_view_def slot_view_None bn_live_def bn_Reset_def)
qed

section \<open>Sort, MaskLastN and the iterators\<close>

definition bn_sorted_pos :: "bufnode \<Rightarrow> nat list" where
  "bn_sorted_pos n = sort_key (\<lambda>i. sint (bn_key n i)) (bits_of (bn_ValidBitSet n))"

lemma set_bn_sorted_pos [simp]: "set (bn_sorted_pos n) = {i. bn_live n i}"
  by (simp add: bn_sorted_pos_def bit_bn_Valid)

lemma distinct_bn_sorted_pos [simp]: "distinct (bn_sorted_pos n)"
  by (simp add: bn_sorted_pos_def)

lemma sorted_bn_sorted_pos: "sorted (map (\<lambda>i. sint (bn_key n i)) (bn_sorted_pos n))"
  by (simp add: bn_sorted_pos_def)

lemma length_bn_sorted_pos [simp]: "length (bn_sorted_pos n) = bn_ValidCount n"
proof -
  have "length (bn_sorted_pos n) = popcount (bn_ValidBitSet n)"
    by (simp add: bn_sorted_pos_def popcount_def)
  then show ?thesis by (simp add: bn_ValidBitSet_def bn_ValidCount_def popcount_ucast)
qed

lemma bn_ValidCount_le: "bn_inv H n \<Longrightarrow> bn_ValidCount n \<le> 12"
proof -
  assume inv: "bn_inv H n"
  have "bn_ValidCount n \<le> popcount (bn_valid n)"
    unfolding bn_ValidCount_def by (rule popcount_mono) (auto simp: bitset_simps)
  with bn_invD(6) [OF inv] show ?thesis by simp
qed

lemma bn_Sort_seqs: "bn_Sort n = n\<lparr>bn_seqs := map of_nat (bn_sorted_pos n) @ drop (bn_ValidCount n) (bn_seqs n)\<rparr>"
proof -
  have "bn_Sort n = n\<lparr>bn_seqs := map of_nat (bn_sorted_pos n) @ drop (length (bn_sorted_pos n)) (bn_seqs n)\<rparr>"
    unfolding bn_Sort_def Let_def bitset.walk_bits_of bn_sorted_pos_def by simp
  then show ?thesis by simp
qed

lemma bn_Sort_fields [simp]:
  "bn_kvs (bn_Sort n) = bn_kvs n" "bn_valid (bn_Sort n) = bn_valid n"
  "bn_deleted (bn_Sort n) = bn_deleted n" "bn_tags (bn_Sort n) = bn_tags n"
  "bn_live (bn_Sort n) = bn_live n" "bn_ValidCount (bn_Sort n) = bn_ValidCount n"
  by (auto simp: bn_Sort_seqs bn_live_def bn_ValidCount_def fun_eq_iff)

lemma bn_Sort_seq:
  assumes "i < bn_ValidCount n"
  shows "unat (bn_seqs (bn_Sort n) ! i) = bn_sorted_pos n ! i"
proof -
  have "bn_sorted_pos n ! i \<in> set (bn_sorted_pos n)"
    using assms by (simp del: set_bn_sorted_pos)
  then have "bn_sorted_pos n ! i < 13" by (simp add: bn_live_def)
  then show ?thesis
    using assms by (simp add: bn_Sort_seqs nth_append unsigned_of_nat take_bit_nat_eq_self)
qed

lemma bn_Sort_inv: "bn_inv H n \<Longrightarrow> bn_inv H (bn_Sort n) \<and> bn_view (bn_Sort n) = bn_view n"
proof
  assume inv: "bn_inv H n"
  note I = bn_invD [OF inv]
  show "bn_inv H (bn_Sort n)"
  proof (rule bn_invI)
    show "length (bn_seqs (bn_Sort n)) = 13"
      using I(3) bn_ValidCount_le [OF inv] by (simp add: bn_Sort_seqs)
  qed (use I in auto)
  show "bn_view (bn_Sort n) = bn_view n" by (simp add: bn_view_def)
qed

lemma bn_IteratorSorted_Sort: "bn_IteratorSorted (bn_Sort n) = map (\<lambda>i. bn_kvs n ! i) (bn_sorted_pos n)"
  by (rule nth_equalityI) (auto simp: bn_IteratorSorted_def bn_Sort_seq)

lemma bn_view_entries:
  assumes inv: "bn_inv H n"
  shows "bn_view n k = Some v \<longleftrightarrow> (\<exists>i. bn_live n i \<and> bn_key n i = k \<and> bn_val n i = v)"
proof
  assume "bn_view n k = Some v"
  then show "\<exists>i. bn_live n i \<and> bn_key n i = k \<and> bn_val n i = v"
    unfolding bn_view_def by (auto dest: slot_view_SomeD)
next
  assume "\<exists>i. bn_live n i \<and> bn_key n i = k \<and> bn_val n i = v"
  then obtain i where i: "bn_live n i" "bn_key n i = k" "bn_val n i = v" by blast
  then have "i < 13" by (simp add: bn_live_def)
  from slot_view_eq [OF bn_invD(7) [OF inv] this i(1,2), of "bn_val n"] i(3)
  show "bn_view n k = Some v" by (simp add: bn_view_def)
qed

lemma bn_live_inj: "bn_inv H n \<Longrightarrow> inj_on (\<lambda>i. sint (bn_key n i)) {i. bn_live n i}"
  using bn_invD(7) [of H n]
  by (auto simp: inj_on_def slots_distinct_def bn_live_def dest!: signed_word_eqI)

lemma bn_sorted_pos_strict:
  assumes "bn_inv H n"
  shows "sorted_wrt (<) (map (\<lambda>i. sint (bn_key n i)) (bn_sorted_pos n))"
  using sorted_bn_sorted_pos [of n] bn_live_inj [OF assms]
  by (simp add: strict_sorted_iff distinct_map)

text \<open>
  C27: after \<open>Sort ()\<close> the sorted iterator yields every live record of the buffer exactly once, in
  strictly ascending order of its signed key, and the buffer's contents are unchanged.
\<close>

theorem bufnode_sorted_iteration:
  assumes "bn_inv H n"
  shows "sorted_wrt (<) (map (\<lambda>kv. sint (kv_key kv)) (bn_IteratorSorted (bn_Sort n))) \<and>
         (\<forall>k v. bn_view n k = Some v \<longleftrightarrow> \<lparr>kv_key = k, kv_val = v\<rparr> \<in> set (bn_IteratorSorted (bn_Sort n))) \<and>
         bn_inv H (bn_Sort n) \<and> bn_view (bn_Sort n) = bn_view n"
proof (intro conjI allI)
  show "sorted_wrt (<) (map (\<lambda>kv. sint (kv_key kv)) (bn_IteratorSorted (bn_Sort n)))"
    using bn_sorted_pos_strict [OF assms] by (simp add: bn_IteratorSorted_Sort comp_def)
  show "bn_view n k = Some v \<longleftrightarrow> \<lparr>kv_key = k, kv_val = v\<rparr> \<in> set (bn_IteratorSorted (bn_Sort n))" for k v
  proof -
    have "\<lparr>kv_key = k, kv_val = v\<rparr> = bn_kvs n ! i \<longleftrightarrow> bn_key n i = k \<and> bn_val n i = v" for i
      by (cases "bn_kvs n ! i") auto
    then show ?thesis
      by (auto simp: bn_view_entries [OF assms] bn_IteratorSorted_Sort image_iff)
  qed
qed (use bn_Sort_inv [OF assms] in auto)

text \<open>A concrete node: keys 5 and -3 (as a signed key) inserted into a fresh node.\<close>

definition bn_sample :: bufnode where
  "bn_sample = snd (bn_insert (-3) 70 (snd (bn_insert 5 50 (bufnode_new (replicate 12 \<lparr>kv_key = 0, kv_val = 0\<rparr>)))))"

lemma bn_sample_inv: "bn_inv hash_int bn_sample"
  unfolding bn_sample_def
  by (intro bn.put_inv [OF bn.put_inv [OF bufnode_new_inv], OF _ prod.collapse [symmetric] prod.collapse [symmetric]]) simp

lemma bn_sample_eval: "bn_valid bn_sample = 3 \<and> bn_deleted bn_sample = 0 \<and> bn_ValidCount bn_sample = 2"
  by code_simp

theorem bufnode_sorted_iteration_witness:
  "bn_inv hash_int bn_sample \<and> bn_view (bn_Sort bn_sample) = bn_view bn_sample \<and>
   map (\<lambda>kv. sint (kv_key kv)) (bn_IteratorSorted (bn_Sort bn_sample)) = [-3, 5]"
proof -
  have "map (\<lambda>kv. sint (kv_key kv)) (bn_IteratorSorted (bn_Sort bn_sample)) = [-3, 5]" by code_simp
  with bufnode_sorted_iteration [OF bn_sample_inv] bn_sample_inv show ?thesis by blast
qed

lemma bn_mask_fold:
  "bit (foldl (\<lambda>m i. m OR shl1 (f i)) m0 xs :: u16) j \<longleftrightarrow> bit m0 j \<or> j < 16 \<and> (\<exists>i \<in> set xs. f i = j)"
  by (induction xs arbitrary: m0) (auto simp: bitset_simps)

lemma bn_MaskLastN_live:
  assumes inv: "bn_inv H n" and k: "k \<le> bn_ValidCount n"
  defines "m \<equiv> bn_ValidCount n - k"
  shows "\<exists>n'. bn_MaskLastN k (bn_Sort n) = Some n' \<and>
     (\<forall>i. bn_live n' i \<longleftrightarrow> i \<in> set (take m (bn_sorted_pos n))) \<and>
     (\<forall>i. bit (bn_valid n') i \<longleftrightarrow> bit (bn_valid n) i \<and> i \<notin> set (drop m (bn_sorted_pos n))) \<and>
     bn_deleted n' = bn_deleted n \<and> bn_kvs n' = bn_kvs n \<and> bn_tags n' = bn_tags n \<and>
     bn_seqs n' = bn_seqs (bn_Sort n)"
proof -
  let ?s = "bn_sorted_pos n" and ?c = "bn_ValidCount n"
  define mask where "mask = foldl (\<lambda>m i. m OR shl1 (unat (bn_seqs (bn_Sort n) ! i))) (0 :: u16) [m..<?c]"
  define n' where "n' = (bn_Sort n)\<lparr>bn_valid := bn_valid n AND (NOT mask AND kBitMapMask)\<rparr>"
  have run: "bn_MaskLastN k (bn_Sort n) = Some n'"
    using k by (simp add: bn_MaskLastN_def Let_def n'_def mask_def m_def)
  have lt: "i < 13" if "i \<in> set ?s" for i using that by (simp add: bn_live_def)
  have drop_set: "set (drop m ?s) = (\<lambda>i. ?s ! i) ` {m..<?c}"
    by (simp add: drop_map_nth)
  have bmask: "bit mask j \<longleftrightarrow> j < 16 \<and> j \<in> set (drop m ?s)" for j
    unfolding mask_def bn_mask_fold drop_set by (auto simp: bn_Sort_seq image_iff)
  have dlt: "j < 13" if "j \<in> set (drop m ?s)" for j
    using that lt set_drop_subset [of m ?s] by blast
  have v: "bit (bn_valid n') i \<longleftrightarrow> bit (bn_valid n) i \<and> i \<notin> set (drop m ?s)" for i
    using bn_invD(4) [OF inv, of i] dlt [of i] by (auto simp: n'_def bitset_simps bmask)
  have "set (take m ?s) \<inter> set (drop m ?s) = {}"
    by (rule set_take_disj_set_drop_if_distinct) auto
  moreover have "set ?s = set (take m ?s) \<union> set (drop m ?s)"
    by (metis append_take_drop_id set_append)
  ultimately have part: "i \<in> set ?s \<and> i \<notin> set (drop m ?s) \<longleftrightarrow> i \<in> set (take m ?s)" for i by blast
  have live: "bn_live n' i \<longleftrightarrow> i \<in> set (take m ?s)" for i
    using part [of i] by (simp only: bn_live_def [of n'] v set_bn_sorted_pos mem_Collect_eq)
      (auto simp: bn_live_def n'_def)
  have fs: "bn_deleted n' = bn_deleted n" "bn_kvs n' = bn_kvs n" "bn_tags n' = bn_tags n"
    "bn_seqs n' = bn_seqs (bn_Sort n)"
    by (simp_all add: n'_def)
  from run v live fs show ?thesis by blast
qed

text \<open>
  C28: \<open>MaskLastN (k)\<close> after \<open>Sort ()\<close> removes exactly the \<open>k\<close> records with the largest signed keys
  and keeps every other record with its value.
\<close>

theorem bufnode_mask_last:
  assumes inv: "bn_inv H n" and k: "k \<le> bn_ValidCount n"
  shows "\<exists>n'. bn_MaskLastN k (bn_Sort n) = Some n' \<and> bn_inv H n' \<and>
     (\<forall>x. bn_view n' x =
       (if x \<in> kv_key ` set (take (bn_ValidCount n - k) (bn_IteratorSorted (bn_Sort n)))
        then bn_view n x else None))"
proof -
  let ?m = "bn_ValidCount n - k"
  note I = bn_invD [OF inv]
  obtain n' where run: "bn_MaskLastN k (bn_Sort n) = Some n'"
    and live: "\<And>i. bn_live n' i \<longleftrightarrow> i \<in> set (take ?m (bn_sorted_pos n))"
    and v: "\<And>i. bit (bn_valid n') i \<longleftrightarrow> bit (bn_valid n) i \<and> i \<notin> set (drop ?m (bn_sorted_pos n))"
    and f: "bn_deleted n' = bn_deleted n" "bn_kvs n' = bn_kvs n" "bn_tags n' = bn_tags n"
      "bn_seqs n' = bn_seqs (bn_Sort n)"
    using bn_MaskLastN_live [OF inv k] by blast
  have sub: "bn_live n i" if "bn_live n' i" for i
    using that set_take_subset [of ?m "bn_sorted_pos n"] by (auto simp: live)
  have inv': "bn_inv H n'"
  proof (rule bn_invI)
    show "bit (bn_valid n') i" if "bit (bn_deleted n') i" for i
    proof -
      have "\<not> bn_live n i" using that by (simp add: f bn_live_def)
      then have "i \<notin> set (drop ?m (bn_sorted_pos n))"
        using set_drop_subset [of ?m "bn_sorted_pos n"] by auto
      with that I(5) [of i] show ?thesis by (simp add: v f)
    qed
    have "popcount (bn_valid n') \<le> popcount (bn_valid n)" by (rule popcount_mono) (simp add: v)
    with I(6) show "popcount (bn_valid n') \<le> 12" by simp
    show "slots_distinct 13 (bn_live n') (bn_key n')"
      using I(7) sub by (auto simp: slots_distinct_def f)
    show "length (bn_seqs n') = 13" using bn_invD(3) bn_Sort_inv [OF inv] by (metis f(4))
  qed (use I sub in \<open>auto simp: f v\<close>)
  have keys: "kv_key ` set (take ?m (bn_IteratorSorted (bn_Sort n))) = bn_key n ` {i. i < 13 \<and> bn_live n' i}"
  proof -
    have "{i. i < 13 \<and> bn_live n' i} = set (take ?m (bn_sorted_pos n))"
      using live by (auto simp: bn_live_def)
    then show ?thesis by (simp add: bn_IteratorSorted_Sort take_map image_image)
  qed
  have "bn_view n' x = (if x \<in> kv_key ` set (take ?m (bn_IteratorSorted (bn_Sort n))) then bn_view n x else None)" for x
    unfolding keys bn_view_def f
    by (rule conjunct2 [OF slots_restrict [OF I(7)]]) (rule sub)
  with run inv' show ?thesis by blast
qed

theorem bufnode_mask_last_witness:
  "\<exists>n'. bn_MaskLastN 1 (bn_Sort bn_sample) = Some n' \<and> bn_inv hash_int n' \<and>
        bn_view n' (-3) = Some 70 \<and> bn_view n' 5 = None"
proof -
  have c: "1 \<le> bn_ValidCount bn_sample"
    and keys: "map kv_key (take (bn_ValidCount bn_sample - 1) (bn_IteratorSorted (bn_Sort bn_sample))) = [-3]"
    by (simp add: bn_sample_eval) code_simp
  have v: "bn_get (-3) bn_sample = Some 70" by code_simp
  have "bn_view bn_sample (-3) = Some 70" using bn.get_view [OF bn_sample_inv] v by simp
  moreover have "kv_key ` set (take (bn_ValidCount bn_sample - 1) (bn_IteratorSorted (bn_Sort bn_sample))) = {-3}"
    using arg_cong [OF keys, of set] by simp
  ultimately show ?thesis using bufnode_mask_last [OF bn_sample_inv c] by auto
qed

section \<open>The buffer as a bounded map\<close>

text \<open>
  C20: starting from a fresh node (whatever its uncleared slots hold), any sequence of \<open>Insert\<close>,
  \<open>Get\<close> and \<open>Delete\<close> answers like a partial map, except that an insertion of an absent key may be
  refused, and then nothing changes.
\<close>

theorem bufnode_refines_map:
  assumes "length garbage = 12"
  shows "case kv_run bn_insert bn_get bn_delete cs (bufnode_new garbage) of (tr, n) \<Rightarrow>
           map fst tr = cs \<and> bn_inv hash_int n \<and> kv_trace Map.empty tr (bn_view n)"
proof -
  obtain tr n where run: "kv_run bn_insert bn_get bn_delete cs (bufnode_new garbage) = (tr, n)" by fastforce
  from bn.run_refines [OF bufnode_new_inv [OF assms] run] kv_run_ops [OF run]
  show ?thesis by (simp add: run bufnode_new_view)
qed

theorem bufnode_refines_map_witness:
  "case kv_run bn_insert bn_get bn_delete [Put 5 50, Put 5 51, Get 5, Del 5, Get 5]
      (bufnode_new (replicate 12 \<lparr>kv_key = 5, kv_val = 9\<rparr>)) of
     (tr, n) \<Rightarrow> map snd tr = [PutRes True, PutRes True, GetRes (Some 51), DelRes True, GetRes None] \<and>
       kv_trace Map.empty tr (bn_view n)"
proof -
  let ?r = "kv_run bn_insert bn_get bn_delete [Put 5 50, Put 5 51, Get 5, Del 5, Get 5]
      (bufnode_new (replicate 12 \<lparr>kv_key = 5, kv_val = 9\<rparr>))"
  have "map snd (fst ?r) = [PutRes True, PutRes True, GetRes (Some 51), DelRes True, GetRes None]" by code_simp
  with bufnode_refines_map [of "replicate 12 \<lparr>kv_key = 5, kv_val = 9\<rparr>" "[Put 5 50, Put 5 51, Get 5, Del 5, Get 5]"]
  show ?thesis by (simp only: length_replicate case_prod_beta)
qed

text \<open>
  C26: \<open>Insert\<close> refuses exactly when the key is absent, twelve slots are valid and none of them is
  deleted; in particular an update of a key in the buffer always succeeds.
\<close>

theorem bufnode_insert_refuses_iff:
  assumes inv: "bn_inv hash_int n"
  shows "fst (bn_insert k v n) \<longleftrightarrow> bn_view n k \<noteq> None \<or> bn_deleted n \<noteq> 0 \<or> bn_ValidCount n < 12"
proof -
  obtain b n' where r: "bn_insert k v n = (b, n')" by fastforce
  note c = bn_insert_hash_cases [OF inv, of k v, folded bn_insert_def, unfolded r prod.case]
  have count: "bn_ValidCount n = popcount (bn_valid n)" if "bn_deleted n = 0"
    by (simp add: that bn_ValidCount_def bn_valid_masked [OF inv])
  show ?thesis
  proof (cases b)
    case False
    with c r count bn_Full_iff [OF inv] show ?thesis by auto
  next
    case True
    have "\<not> (bn_view n k = None \<and> bn_deleted n = 0 \<and> bn_Full n)"
      using bn_insert_full [OF inv, of k v] r True by auto
    with True r count bn_Full_iff [OF inv] bn_invD(6) [OF inv] show ?thesis by auto
  qed
qed

theorem bufnode_insert_refuses_iff_witness:
  "fst (bn_insert 5 1 bn_sample) \<and> bn_inv hash_int bn_sample"
  using bufnode_insert_refuses_iff [OF bn_sample_inv, of 5 1] bn_sample_inv bn_sample_eval by simp

end
