(* ===== verification/HashBuf.thy ===== *)
theory HashBuf
  imports BufNode
begin

text \<open>
  \<open>HashBuffer\<close> of \<open>src/spoton_hashbuf.h\<close>: an open-addressed array of \<open>SortedBufNode_t\<close> buckets. A key
  hashes to a bucket and may live in any of the next \<open>kProbeLen = num / 2 - 1\<close> buckets; a probe ends
  at the first bucket that is not full. Deleted slots keep their bucket full, so a probe never stops
  short of a key.
\<close>

section \<open>State and operations\<close>

record hashbuf =
  hb_nodes :: "bufnode list"
  hb_lockbit :: bool
  hb_local_depth :: u64
  hb_kNodeNum :: nat
  hb_kProbeLen :: nat

text \<open>
  \<open>num / 2 - 1\<close> is negative for \<open>num < 2\<close> and then converts to a huge \<open>size_t\<close>. \<open>garbage ! i\<close> is what
  the twelve uncleared slots of bucket \<open>i\<close> hold.
\<close>

definition hashbuf_new :: "u64 \<Rightarrow> nat \<Rightarrow> kv_t list list \<Rightarrow> hashbuf" where
  "hashbuf_new d num garbage =
     \<lparr>hb_nodes = map (\<lambda>i. bufnode_new (garbage ! i)) [0..<num], hb_lockbit = False, hb_local_depth = d,
      hb_kNodeNum = num, hb_kProbeLen = unat (word_of_int (int num div 2 - 1) :: u64)\<rparr>"

text \<open>\<open>(hash + p) % kNodeNum\<close> in \<open>size_t\<close> arithmetic.\<close>

definition hb_idx :: "hashbuf \<Rightarrow> u64 \<Rightarrow> nat \<Rightarrow> nat" where
  "hb_idx hb hash p = nat (uint (hash + of_nat p) mod int (hb_kNodeNum hb))"

text \<open>
  The probe loop of \<open>Put\<close>: \<open>acc\<close> is the bucket and slot chosen so far, the result also says which slot
  an update replaces. None is the case that no slot is available.
\<close>

primrec hb_put_loop :: "hashbuf \<Rightarrow> u64 \<Rightarrow> u64 \<Rightarrow> u8 \<Rightarrow> (nat \<times> nat) option \<Rightarrow> nat list \<Rightarrow>
    (nat \<times> nat \<times> nat option) option" where
  "hb_put_loop hb key hash tag acc [] = map_option (\<lambda>(b, s). (b, s, None)) acc"
| "hb_put_loop hb key hash tag acc (p # ps) =
     (let idx = hb_idx hb hash p;
          bucket = hb_nodes hb ! idx
      in case bn_probe bucket key tag of
           Some i \<Rightarrow> Some (idx, bitset_deref (bn_BackupBitSet bucket), Some i)
         | None \<Rightarrow>
             (let acc1 = (if bitset_validCount (bn_EraseBitSet bucket) \<noteq> 0
                          then Some (idx, bitset_deref (bn_EraseBitSet bucket)) else acc)
              in if \<not> bn_Full bucket
                 then (case acc1 of
                         None \<Rightarrow> Some (idx, bitset_deref (bn_BackupBitSet bucket), None)
                       | Some (b, s) \<Rightarrow> Some (b, s, None))
                 else hb_put_loop hb key hash tag acc1 ps))"

definition hb_put :: "u64 \<Rightarrow> u64 \<Rightarrow> hashbuf \<Rightarrow> bool \<times> hashbuf" where
  "hb_put key val hb =
     (let hash = hash_int key; tag = ucast (hash AND 0xFF)
      in case hb_put_loop hb key hash tag None [0..<hb_kProbeLen hb] of
           None \<Rightarrow> (False, hb)
         | Some (b, s, old_i) \<Rightarrow>
             (True, hb\<lparr>hb_nodes := (hb_nodes hb)[b := bn_insert_at key val s old_i tag (hb_nodes hb ! b)]\<rparr>))"

text \<open>The loop that \<open>Get\<close> and \<open>Delete\<close> share: bucket and slot of the key.\<close>

primrec hb_search_loop :: "hashbuf \<Rightarrow> u64 \<Rightarrow> u64 \<Rightarrow> u8 \<Rightarrow> nat list \<Rightarrow> (nat \<times> nat) option" where
  "hb_search_loop hb key hash tag [] = None"
| "hb_search_loop hb key hash tag (p # ps) =
     (let idx = hb_idx hb hash p;
          bucket = hb_nodes hb ! idx
      in case bn_probe bucket key tag of
           Some i \<Rightarrow> Some (idx, i)
         | None \<Rightarrow> if \<not> bn_Full bucket then None else hb_search_loop hb key hash tag ps)"

definition hb_get :: "u64 \<Rightarrow> hashbuf \<Rightarrow> u64 option" where
  "hb_get key hb =
     (let hash = hash_int key; tag = ucast (hash AND 0xFF)
      in case hb_search_loop hb key hash tag [0..<hb_kProbeLen hb] of
           Some (b, i) \<Rightarrow> Some (kv_val (bn_kvs (hb_nodes hb ! b) ! i))
         | None \<Rightarrow> None)"

definition hb_delete :: "u64 \<Rightarrow> hashbuf \<Rightarrow> bool \<times> hashbuf" where
  "hb_delete key hb =
     (let hash = hash_int key; tag = ucast (hash AND 0xFF)
      in case hb_search_loop hb key hash tag [0..<hb_kProbeLen hb] of
           Some (b, i) \<Rightarrow>
             (let bucket = hb_nodes hb ! b
              in (True, hb\<lparr>hb_nodes := (hb_nodes hb)[b := bucket\<lparr>bn_deleted := bn_deleted bucket OR shl1 i\<rparr>]\<rparr>))
         | None \<Rightarrow> (False, hb))"

definition hb_Reset :: "hashbuf \<Rightarrow> hashbuf" where
  "hb_Reset hb = hb\<lparr>hb_nodes := map bn_Reset (hb_nodes hb)\<rparr>"

section \<open>Iterator\<close>

text \<open>The iterator holds the bucket index and the bit cursor of the bucket's own iterator.\<close>

type_synonym hb_iter = "nat \<times> u64"

definition hb_iter_Valid :: "hashbuf \<Rightarrow> hb_iter \<Rightarrow> bool" where
  "hb_iter_Valid hb it = (case it of (cur, bits) \<Rightarrow> bitset_bool bits \<or> cur < hb_kNodeNum hb)"

definition hb_iter_deref :: "hashbuf \<Rightarrow> hb_iter \<Rightarrow> kv_t" where
  "hb_iter_deref hb it = (case it of (cur, bits) \<Rightarrow> bn_kvs (hb_nodes hb ! cur) ! bitset_deref bits)"

function hb_toNextValidIter :: "hashbuf \<Rightarrow> hb_iter \<Rightarrow> hb_iter" where
  "hb_toNextValidIter hb (cur, bits) =
     (if \<not> bitset_bool bits \<and> cur < hb_kNodeNum hb then
        (if Suc cur = hb_kNodeNum hb then (Suc cur, bits)
         else hb_toNextValidIter hb (Suc cur, bn_ValidBitSet (hb_nodes hb ! Suc cur)))
      else (cur, bits))"
  by pat_completeness auto
termination
  by (relation "measure (\<lambda>(hb, cur, bits). hb_kNodeNum hb - cur)") auto

declare hb_toNextValidIter.simps [simp del]

definition hb_Begin :: "hashbuf \<Rightarrow> hb_iter" where
  "hb_Begin hb = hb_toNextValidIter hb (0, bn_ValidBitSet (hb_nodes hb ! 0))"

definition hb_iter_next :: "hashbuf \<Rightarrow> hb_iter \<Rightarrow> hb_iter" where
  "hb_iter_next hb it =
     (case it of (cur, bits) \<Rightarrow>
        (let bits1 = bitset_advance bits
         in if \<not> bitset_bool bits1 then hb_toNextValidIter hb (cur, bits1) else (cur, bits1)))"

text \<open>\<open>for (it = Begin (); it.Valid (); ++it)\<close> collecting \<open>*it\<close>\<close>

lemma hb_toNext_mono: "fst it \<le> fst (hb_toNextValidIter hb it)"
  by (induction hb it rule: hb_toNextValidIter.induct)
    (subst hb_toNextValidIter.simps, auto intro: Suc_leD)

lemma hb_toNext_moves:
  "\<not> bitset_bool bits \<Longrightarrow> cur < hb_kNodeNum hb \<Longrightarrow> cur < fst (hb_toNextValidIter hb (cur, bits))"
  using hb_toNext_mono [of "(Suc cur, bn_ValidBitSet (hb_nodes hb ! Suc cur))" hb]
  by (subst hb_toNextValidIter.simps) (auto simp: Suc_le_eq)

lemma hb_toNext_stop: "\<not> cur < hb_kNodeNum hb \<Longrightarrow> hb_toNextValidIter hb (cur, bits) = (cur, bits)"
  by (simp add: hb_toNextValidIter.simps)

lemma hb_iter_next_less:
  assumes v: "hb_iter_Valid hb (cur, bits)" and n: "hb_iter_next hb (cur, bits) = (cur', bits')"
  shows "hb_kNodeNum hb - cur' < hb_kNodeNum hb - cur \<or>
         hb_kNodeNum hb - cur' = hb_kNodeNum hb - cur \<and> popcount bits' < popcount bits"
proof (cases "bitset_bool (bitset_advance bits) \<or> \<not> cur < hb_kNodeNum hb")
  case True
  then have "cur' = cur" "bits' = bitset_advance bits" "bits \<noteq> 0"
    using v n hb_toNext_stop [of cur hb "bitset_advance bits"]
    by (auto simp: hb_iter_next_def hb_iter_Valid_def bitset_bool_def bitset_advance_def Let_def split: if_splits)
  then show ?thesis by (simp add: bitset_advance_def clear_lowest_less)
next
  case False
  then show ?thesis
    using n hb_toNext_moves [of "bitset_advance bits" cur hb] by (auto simp: hb_iter_next_def Let_def)
qed

function hb_iterate :: "hashbuf \<Rightarrow> hb_iter \<Rightarrow> kv_t list" where
  "hb_iterate hb it =
     (if hb_iter_Valid hb it then hb_iter_deref hb it # hb_iterate hb (hb_iter_next hb it) else [])"
  by pat_completeness auto
termination
proof (relation "inv_image (less_than <*lex*> less_than) (\<lambda>(hb, cur, bits). (hb_kNodeNum hb - cur, popcount bits))")
  fix hb it assume v: "hb_iter_Valid hb it"
  obtain cur bits cur' bits' where it: "it = (cur, bits)" "hb_iter_next hb it = (cur', bits')" by fastforce
  from hb_iter_next_less [of hb cur bits cur' bits'] v it
  show "((hb, hb_iter_next hb it), hb, it) \<in>
      inv_image (less_than <*lex*> less_than) (\<lambda>(hb, cur, bits). (hb_kNodeNum hb - cur, popcount bits))"
    by auto
qed auto

declare hb_iterate.simps [simp del]

section \<open>Invariant and abstraction\<close>

abbreviation hb_at :: "hashbuf \<Rightarrow> u64 \<Rightarrow> nat \<Rightarrow> bufnode" where
  "hb_at hb k p \<equiv> hb_nodes hb ! hb_idx hb (hash_int k) p"

text \<open>Bucket \<open>b\<close> is on the probe path of \<open>k\<close> and no bucket before it on the path can end a probe.\<close>

definition hb_placed :: "hashbuf \<Rightarrow> u64 \<Rightarrow> nat \<Rightarrow> bool" where
  "hb_placed hb k b \<longleftrightarrow>
     (\<exists>p < hb_kProbeLen hb. hb_idx hb (hash_int k) p = b \<and> (\<forall>q < p. bn_Full (hb_at hb k q)))"

definition hb_has :: "hashbuf \<Rightarrow> u64 \<Rightarrow> nat \<Rightarrow> bool" where
  "hb_has hb k b \<longleftrightarrow> b < hb_kNodeNum hb \<and> bn_view (hb_nodes hb ! b) k \<noteq> None"

definition hb_inv :: "hashbuf \<Rightarrow> bool" where
  "hb_inv hb \<longleftrightarrow>
     length (hb_nodes hb) = hb_kNodeNum hb \<and> 0 < hb_kNodeNum hb \<and>
     (\<forall>n \<in> set (hb_nodes hb). bn_inv hash_int n) \<and>
     (\<forall>k b. hb_has hb k b \<longrightarrow> hb_placed hb k b) \<and>
     (\<forall>k a b. hb_has hb k a \<longrightarrow> hb_has hb k b \<longrightarrow> a = b)"

definition hb_view :: "hashbuf \<Rightarrow> u64 \<rightharpoonup> u64" where
  "hb_view hb k =
     (case find (hb_has hb k) [0..<hb_kNodeNum hb] of
        None \<Rightarrow> None | Some b \<Rightarrow> bn_view (hb_nodes hb ! b) k)"

lemma hb_invD:
  assumes "hb_inv hb"
  shows "length (hb_nodes hb) = hb_kNodeNum hb" "0 < hb_kNodeNum hb"
    "b < hb_kNodeNum hb \<Longrightarrow> bn_inv hash_int (hb_nodes hb ! b)"
    "hb_has hb k b \<Longrightarrow> hb_placed hb k b" "hb_has hb k a \<Longrightarrow> hb_has hb k b \<Longrightarrow> a = b"
  using assms by (auto simp: hb_inv_def)

lemma hb_idx_less: "hb_inv hb \<Longrightarrow> hb_idx hb h p < hb_kNodeNum hb"
  using hb_invD(2) [of hb] by (simp add: hb_idx_def nat_less_iff)

lemma hb_view_None: "hb_view hb k = None \<longleftrightarrow> (\<forall>b. \<not> hb_has hb k b)"
proof (cases "find (hb_has hb k) [0..<hb_kNodeNum hb]")
  case None
  then have "\<not> hb_has hb k b" for b using find_NoneD [OF None, of b] by (auto simp: hb_has_def)
  with None show ?thesis by (simp add: hb_view_def)
next
  case (Some b)
  then have "hb_has hb k b" using find_SomeD [OF Some] by simp
  with Some show ?thesis by (auto simp: hb_view_def hb_has_def)
qed

lemma hb_view_has: "hb_inv hb \<Longrightarrow> hb_has hb k b \<Longrightarrow> hb_view hb k = bn_view (hb_nodes hb ! b) k"
proof -
  assume inv: "hb_inv hb" and b: "hb_has hb k b"
  then have "find (hb_has hb k) [0..<hb_kNodeNum hb] = Some b"
    by (intro find_unique) (auto simp: hb_has_def [of hb k b], rule hb_invD(5) [OF inv _ b])
  then show ?thesis by (simp add: hb_view_def)
qed

text \<open>Replacing one bucket by one in which only the entry of \<open>k\<close> differs.\<close>

lemma hb_write:
  assumes inv: "hb_inv hb" and b: "b < hb_kNodeNum hb"
    and n': "bn_inv hash_int n'" and full: "bn_Full (hb_nodes hb ! b) \<Longrightarrow> bn_Full n'"
    and view: "bn_view n' = (bn_view (hb_nodes hb ! b))(k := w)"
    and place: "w \<noteq> None \<Longrightarrow> hb_placed hb k b"
    and else: "\<And>a. a \<noteq> b \<Longrightarrow> \<not> hb_has hb k a"
  defines "hb' \<equiv> hb\<lparr>hb_nodes := (hb_nodes hb)[b := n']\<rparr>"
  shows "hb_inv hb' \<and> hb_view hb' = (hb_view hb)(k := w)"
proof
  note I = hb_invD [OF inv]
  have f: "hb_kNodeNum hb' = hb_kNodeNum hb" "hb_kProbeLen hb' = hb_kProbeLen hb" "hb_idx hb' = hb_idx hb"
    by (auto simp: hb'_def hb_idx_def fun_eq_iff)
  have nth: "hb_nodes hb' ! a = (if a = b then n' else hb_nodes hb ! a)" for a
    using b I(1) by (simp add: hb'_def nth_list_update)
  have fulls: "bn_Full (hb_nodes hb ! a) \<Longrightarrow> bn_Full (hb_nodes hb' ! a)" for a
    using full by (cases "a = b") (simp_all add: nth)
  have has: "hb_has hb' x a \<longleftrightarrow> (if x = k then a = b \<and> w \<noteq> None else hb_has hb x a)" for x a
    using else [of a] b by (auto simp: hb_has_def f nth view)
  have placed: "hb_placed hb x a \<Longrightarrow> hb_placed hb' x a" for x a
    unfolding hb_placed_def f using fulls by blast
  show inv': "hb_inv hb'"
    unfolding hb_inv_def
  proof (intro conjI allI impI ballI)
    show "bn_inv hash_int n" if "n \<in> set (hb_nodes hb')" for n
      using that set_update_subset_insert [of "hb_nodes hb" b n'] n' inv
      by (auto simp: hb'_def hb_inv_def)
    show "hb_placed hb' x a" if "hb_has hb' x a" for x a
      using that place I(4) placed by (auto simp: has split: if_splits)
    show "a = c" if "hb_has hb' x a" "hb_has hb' x c" for x a c
      using that I(5) by (auto simp: has split: if_splits)
  qed (use I in \<open>auto simp: hb'_def\<close>)
  show "hb_view hb' = (hb_view hb)(k := w)"
  proof
    fix x
    show "hb_view hb' x = ((hb_view hb)(k := w)) x"
    proof (cases "\<exists>a. hb_has hb' x a")
      case True
      then obtain a where a: "hb_has hb' x a" by blast
      then have "x \<noteq> k \<Longrightarrow> hb_has hb x a" by (simp add: has)
      with hb_view_has [OF inv' a] hb_view_has [OF inv, of x a] a
      show ?thesis by (auto simp: has nth view)
    next
      case False
      then have "hb_view hb' x = None" by (simp add: hb_view_None)
      moreover have "x \<noteq> k \<Longrightarrow> hb_view hb x = None" "x = k \<Longrightarrow> w = None"
        using False by (auto simp: hb_view_None has)
      ultimately show ?thesis by auto
    qed
  qed
qed

section \<open>Probing\<close>

text \<open>
  A probe that passed the full buckets before \<open>q\<close> without finding \<open>k\<close>, and then met the end of the
  path or a bucket that is not full and does not have it either: the key is in no bucket.
\<close>

definition hb_stop :: "hashbuf \<Rightarrow> u64 \<Rightarrow> nat \<Rightarrow> bool" where
  "hb_stop hb k q \<longleftrightarrow> q \<le> hb_kProbeLen hb \<and> (\<forall>p < q. bn_view (hb_at hb k p) k = None) \<and>
     (q < hb_kProbeLen hb \<longrightarrow> \<not> bn_Full (hb_at hb k q) \<and> bn_view (hb_at hb k q) k = None)"

lemma hb_stop_absent:
  assumes inv: "hb_inv hb" and stop: "hb_stop hb k q"
  shows "\<not> hb_has hb k b"
proof
  assume has: "hb_has hb k b"
  with hb_invD(4) [OF inv has] obtain p where p: "p < hb_kProbeLen hb" "hb_idx hb (hash_int k) p = b"
    "\<And>r. r < p \<Longrightarrow> bn_Full (hb_at hb k r)" by (auto simp: hb_placed_def)
  from has p(2) have "bn_view (hb_at hb k p) k \<noteq> None" by (simp add: hb_has_def)
  moreover have "q < p \<Longrightarrow> bn_Full (hb_at hb k q)" by (rule p(3))
  ultimately show False
    using stop p(1) by (cases p q rule: linorder_cases) (auto simp: hb_stop_def)
qed

definition hb_passed :: "hashbuf \<Rightarrow> u64 \<Rightarrow> nat \<Rightarrow> bool" where
  "hb_passed hb k p \<longleftrightarrow> p \<le> hb_kProbeLen hb \<and>
     (\<forall>q < p. bn_Full (hb_at hb k q) \<and> bn_view (hb_at hb k q) k = None)"

lemma hb_passed_Suc:
  "hb_passed hb k p \<Longrightarrow> p < hb_kProbeLen hb \<Longrightarrow> bn_Full (hb_at hb k p) \<Longrightarrow> bn_view (hb_at hb k p) k = None \<Longrightarrow>
   hb_passed hb k (Suc p)"
  by (auto simp: hb_passed_def less_Suc_eq)

lemma hb_passed_stop:
  "hb_passed hb k p \<Longrightarrow>
   p < hb_kProbeLen hb \<Longrightarrow> \<not> bn_Full (hb_at hb k p) \<Longrightarrow> bn_view (hb_at hb k p) k = None \<Longrightarrow> hb_stop hb k p"
  "hb_passed hb k (hb_kProbeLen hb) \<Longrightarrow> hb_stop hb k (hb_kProbeLen hb)"
  by (auto simp: hb_passed_def hb_stop_def)

lemma hb_placedI: "hb_passed hb k p \<Longrightarrow> p < hb_kProbeLen hb \<Longrightarrow> hb_placed hb k (hb_idx hb (hash_int k) p)"
  by (auto simp: hb_placed_def hb_passed_def)

lemma hb_search_loop_spec:
  assumes inv: "hb_inv hb"
  shows "hb_passed hb k p \<Longrightarrow>
    (case hb_search_loop hb k (hash_int k) (bn_tag hash_int k) [p..<hb_kProbeLen hb] of
       None \<Rightarrow> \<exists>q. hb_stop hb k q
     | Some (b, i) \<Rightarrow> b < hb_kNodeNum hb \<and> bn_probe (hb_nodes hb ! b) k (bn_tag hash_int k) = Some i)"
proof (induction "hb_kProbeLen hb - p" arbitrary: p)
  case 0
  then have "p = hb_kProbeLen hb" by (simp add: hb_passed_def)
  with 0 hb_passed_stop(2) show ?case by auto
next
  case (Suc m)
  then have p: "p < hb_kProbeLen hb" by simp
  note n = hb_invD(3) [OF inv hb_idx_less [OF inv]]
  show ?case
  proof (cases "bn_probe (hb_at hb k p) k (bn_tag hash_int k)")
    case (Some i)
    with p show ?thesis by (simp add: upt_conv_Cons hb_idx_less [OF inv])
  next
    case None
    then have v: "bn_view (hb_at hb k p) k = None" using bn_probe_None [OF n] by simp
    show ?thesis
    proof (cases "bn_Full (hb_at hb k p)")
      case True
      with Suc.hyps(1) [of "Suc p"] Suc.hyps(2) hb_passed_Suc [OF Suc.prems p True v] p None
      show ?thesis by (simp add: upt_conv_Cons)
    next
      case False
      with hb_passed_stop(1) [OF Suc.prems p False v] p None show ?thesis by (auto simp: upt_conv_Cons)
    qed
  qed
qed

lemma hb_tag: "ucast (hash_int k AND 0xFF) = bn_tag hash_int k"
  by (simp add: bn_tag_def)

lemma hb_search_all:
  assumes inv: "hb_inv hb"
  shows "case hb_search_loop hb k (hash_int k) (bn_tag hash_int k) [0..<hb_kProbeLen hb] of
       None \<Rightarrow> (\<forall>b. \<not> hb_has hb k b)
     | Some (b, i) \<Rightarrow> b < hb_kNodeNum hb \<and> bn_probe (hb_nodes hb ! b) k (bn_tag hash_int k) = Some i"
  using hb_search_loop_spec [OF inv, of k 0] hb_stop_absent [OF inv, of k]
  by (auto simp: hb_passed_def split: option.splits)

lemma hb_get_view: "hb_inv hb \<Longrightarrow> hb_get k hb = hb_view hb k"
proof -
  assume inv: "hb_inv hb"
  show ?thesis
  proof (cases "hb_search_loop hb k (hash_int k) (bn_tag hash_int k) [0..<hb_kProbeLen hb]")
    case None
    with hb_search_all [OF inv, of k] have "hb_view hb k = None" by (simp add: hb_view_None)
    with None show ?thesis by (simp add: hb_get_def Let_def hb_tag)
  next
    case (Some bi)
    obtain b i where bi: "bi = (b, i)" by fastforce
    with Some hb_search_all [OF inv, of k]
    have b: "b < hb_kNodeNum hb" "bn_probe (hb_nodes hb ! b) k (bn_tag hash_int k) = Some i" by auto
    from bn_probe_Some [OF hb_invD(3) [OF inv b(1)] b(2)] b(1)
    have v: "bn_view (hb_nodes hb ! b) k = Some (bn_val (hb_nodes hb ! b) i)" "hb_has hb k b"
      by (auto simp: hb_has_def)
    with hb_view_has [OF inv v(2)] Some bi show ?thesis by (simp add: hb_get_def Let_def hb_tag)
  qed
qed

lemma hb_delete_view:
  assumes inv: "hb_inv hb" and del: "hb_delete k hb = (b, hb')"
  shows "hb_inv hb' \<and> hb_view hb' = (hb_view hb)(k := None) \<and> (b \<longleftrightarrow> hb_view hb k \<noteq> None)"
proof (cases "hb_search_loop hb k (hash_int k) (bn_tag hash_int k) [0..<hb_kProbeLen hb]")
  case None
  with hb_search_all [OF inv, of k] have "hb_view hb k = None" by (simp add: hb_view_None)
  with None del inv show ?thesis by (auto simp: hb_delete_def Let_def hb_tag fun_upd_idem_iff)
next
  case (Some ai)
  obtain a i where ai: "ai = (a, i)" by fastforce
  let ?n = "hb_nodes hb ! a"
  let ?n' = "?n\<lparr>bn_deleted := bn_deleted ?n OR shl1 i\<rparr>"
  from Some ai hb_search_all [OF inv, of k]
  have a: "a < hb_kNodeNum hb" "bn_probe ?n k (bn_tag hash_int k) = Some i" by auto
  note n = hb_invD(3) [OF inv a(1)]
  have "bn_delete_hash k (hash_int k) ?n = (True, ?n')" by (simp add: bn_delete_hash_def hb_tag a(2))
  from bn_delete_hash_view [OF n this] have n': "bn_inv hash_int ?n'" "bn_view ?n' = (bn_view ?n)(k := None)"
    and has: "hb_has hb k a" using a(1) by (auto simp: hb_has_def)
  have r: "b = True" "hb' = hb\<lparr>hb_nodes := (hb_nodes hb)[a := ?n']\<rparr>"
    using del Some ai by (auto simp: hb_delete_def Let_def hb_tag)
  have full: "bn_Full ?n \<Longrightarrow> bn_Full ?n'" by (simp add: bn_Full_def)
  have "hb_view hb k \<noteq> None" using has hb_view_None by blast
  with hb_write [OF inv a(1) n'(1) full n'(2)] hb_invD(5) [OF inv _ has] r show ?thesis by blast
qed

text \<open>What the probe loop of \<open>Put\<close> decides.\<close>

definition hb_choice :: "hashbuf \<Rightarrow> u64 \<Rightarrow> (nat \<times> nat \<times> nat option) option \<Rightarrow> bool" where
  "hb_choice hb k r \<longleftrightarrow>
     (case r of
        None \<Rightarrow> hb_passed hb k (hb_kProbeLen hb)
      | Some (b, s, old) \<Rightarrow> b < hb_kNodeNum hb \<and> hb_placed hb k b \<and>
          (let n = hb_nodes hb ! b in
           case old of
             Some i \<Rightarrow> bn_probe n k (bn_tag hash_int k) = Some i \<and> s = bitset_deref (bn_BackupBitSet n)
           | None \<Rightarrow> (\<exists>q. hb_stop hb k q) \<and>
               (bn_EraseBitSet n \<noteq> 0 \<and> s = bitset_deref (bn_EraseBitSet n) \<or>
                \<not> bn_Full n \<and> s = bitset_deref (bn_BackupBitSet n))))"

definition hb_acc_ok :: "hashbuf \<Rightarrow> u64 \<Rightarrow> (nat \<times> nat) option \<Rightarrow> bool" where
  "hb_acc_ok hb k acc \<longleftrightarrow>
     (\<forall>b s. acc = Some (b, s) \<longrightarrow> b < hb_kNodeNum hb \<and> hb_placed hb k b \<and>
        bn_EraseBitSet (hb_nodes hb ! b) \<noteq> 0 \<and> s = bitset_deref (bn_EraseBitSet (hb_nodes hb ! b)))"

lemma hb_put_loop_spec:
  assumes inv: "hb_inv hb"
  shows "hb_passed hb k p \<Longrightarrow> hb_acc_ok hb k acc \<Longrightarrow>
    hb_choice hb k (hb_put_loop hb k (hash_int k) (bn_tag hash_int k) acc [p..<hb_kProbeLen hb])"
proof (induction "hb_kProbeLen hb - p" arbitrary: p acc)
  case 0
  then have p: "p = hb_kProbeLen hb" by (simp add: hb_passed_def)
  show ?case
  proof (cases acc)
    case (Some bs)
    with 0 p hb_passed_stop(2) show ?thesis by (cases bs) (auto simp: hb_choice_def hb_acc_ok_def)
  qed (use 0 p in \<open>simp add: hb_choice_def\<close>)
next
  case (Suc m)
  then have p: "p < hb_kProbeLen hb" by simp
  note less = hb_idx_less [OF inv, of "hash_int k" p]
  note n = hb_invD(3) [OF inv less]
  note placed = hb_placedI [OF Suc.prems(1) p]
  show ?case
  proof (cases "bn_probe (hb_at hb k p) k (bn_tag hash_int k)")
    case (Some i)
    with p less placed show ?thesis by (simp add: upt_conv_Cons hb_choice_def Let_def)
  next
    case None
    then have v: "bn_view (hb_at hb k p) k = None" using bn_probe_None [OF n] by simp
    define acc1 where "acc1 = (if bitset_validCount (bn_EraseBitSet (hb_at hb k p)) \<noteq> 0
        then Some (hb_idx hb (hash_int k) p, bitset_deref (bn_EraseBitSet (hb_at hb k p))) else acc)"
    have ok: "hb_acc_ok hb k acc1"
      using Suc.prems(2) less placed by (auto simp: hb_acc_ok_def acc1_def bitset_validCount_def)
    have step: "hb_put_loop hb k (hash_int k) (bn_tag hash_int k) acc [p..<hb_kProbeLen hb] =
        (if \<not> bn_Full (hb_at hb k p)
         then (case acc1 of None \<Rightarrow> Some (hb_idx hb (hash_int k) p, bitset_deref (bn_BackupBitSet (hb_at hb k p)), None)
               | Some (b, s) \<Rightarrow> Some (b, s, None))
         else hb_put_loop hb k (hash_int k) (bn_tag hash_int k) acc1 [Suc p..<hb_kProbeLen hb])"
      using p None by (simp add: upt_conv_Cons Let_def acc1_def)
    show ?thesis
    proof (cases "bn_Full (hb_at hb k p)")
      case True
      with Suc.hyps(1) [of "Suc p" acc1] Suc.hyps(2) hb_passed_Suc [OF Suc.prems(1) p True v] ok
      show ?thesis by (simp add: step)
    next
      case False
      have "\<exists>q. hb_stop hb k q" using hb_passed_stop(1) [OF Suc.prems(1) p False v] by blast
      with False ok less placed show ?thesis
        by (cases acc1) (auto simp: step hb_choice_def hb_acc_ok_def Let_def)
    qed
  qed
qed

lemma hb_put_choice: "hb_inv hb \<Longrightarrow>
    hb_choice hb k (hb_put_loop hb k (hash_int k) (bn_tag hash_int k) None [0..<hb_kProbeLen hb])"
  by (rule hb_put_loop_spec) (auto simp: hb_passed_def hb_acc_ok_def)

lemma hb_choice_write:
  fixes v :: u64
  assumes inv: "hb_inv hb" and c: "hb_choice hb k (Some (b, s, old))"
  defines "n \<equiv> hb_nodes hb ! b"
  defines "n' \<equiv> bn_insert_at k v s old (bn_tag hash_int k) n"
  shows "bn_inv hash_int n' \<and> bn_view n' = (bn_view n)(k \<mapsto> v) \<and> (bn_Full n \<longrightarrow> bn_Full n') \<and>
         (\<forall>a. a \<noteq> b \<longrightarrow> \<not> hb_has hb k a)"
proof -
  have b: "b < hb_kNodeNum hb" using c by (simp add: hb_choice_def)
  have n: "bn_inv hash_int n" unfolding n_def by (rule hb_invD(3) [OF inv b])
  have full: "bn_Full n \<longrightarrow> bn_Full n'" if "bn_inv hash_int n'" "popcount (bn_valid n') = popcount (bn_valid n)"
    using that by (simp add: bn_Full_iff [OF n] bn_Full_iff)
  show ?thesis
  proof (cases old)
    case (Some i)
    then have p: "bn_probe n k (bn_tag hash_int k) = Some i" "s = bitset_deref (bn_BackupBitSet n)"
      using c by (auto simp: hb_choice_def n_def Let_def)
    have "hb_has hb k b" using bn_probe_Some [OF n p(1)] b by (simp add: hb_has_def n_def)
    then have else: "\<forall>a. a \<noteq> b \<longrightarrow> \<not> hb_has hb k a" using hb_invD(5) [OF inv] by blast
    show ?thesis
      using bn_write_update [OF n p(1), of v] full else by (simp add: n'_def p(2) Some)
  next
    case None
    then obtain q where "hb_stop hb k q"
      and opt: "bn_EraseBitSet n \<noteq> 0 \<and> s = bitset_deref (bn_EraseBitSet n) \<or>
                \<not> bn_Full n \<and> s = bitset_deref (bn_BackupBitSet n)"
      using c by (auto simp: hb_choice_def n_def Let_def)
    then have absent: "\<forall>a. \<not> hb_has hb k a" using hb_stop_absent [OF inv] by blast
    then have v: "bn_view n k = None" using b by (auto simp: hb_has_def n_def)
    from opt show ?thesis
    proof
      assume "bn_EraseBitSet n \<noteq> 0 \<and> s = bitset_deref (bn_EraseBitSet n)"
      then show ?thesis
        using bn_write_erased [OF n v] full absent by (simp add: n'_def None)
    next
      assume "\<not> bn_Full n \<and> s = bitset_deref (bn_BackupBitSet n)"
      then show ?thesis
        using bn_write_fresh [OF n v] absent by (simp add: n'_def None)
    qed
  qed
qed

lemma hb_put_cases:
  assumes inv: "hb_inv hb"
  shows "case hb_put k v hb of (b, hb') \<Rightarrow>
     hb_inv hb' \<and> (if b then hb_view hb' = (hb_view hb)(k \<mapsto> v) else hb' = hb \<and> hb_view hb k = None)"
proof (cases "hb_put_loop hb k (hash_int k) (bn_tag hash_int k) None [0..<hb_kProbeLen hb]")
  case None
  with hb_put_choice [OF inv, of k] have "hb_stop hb k (hb_kProbeLen hb)"
    by (auto simp: hb_choice_def dest: hb_passed_stop(2))
  then have "hb_view hb k = None" using hb_stop_absent [OF inv] by (simp add: hb_view_None)
  with None inv show ?thesis by (simp add: hb_put_def Let_def hb_tag)
next
  case (Some r)
  obtain b s old where r: "r = (b, s, old)" by (cases r) auto
  have c: "hb_choice hb k (Some (b, s, old))" using hb_put_choice [OF inv, of k] Some r by simp
  then have b: "b < hb_kNodeNum hb" and pl: "hb_placed hb k b" by (auto simp: hb_choice_def)
  note w = hb_choice_write [OF inv c, of v]
  have "hb_inv (hb\<lparr>hb_nodes := (hb_nodes hb)[b := bn_insert_at k v s old (bn_tag hash_int k) (hb_nodes hb ! b)]\<rparr>) \<and>
      hb_view (hb\<lparr>hb_nodes := (hb_nodes hb)[b := bn_insert_at k v s old (bn_tag hash_int k) (hb_nodes hb ! b)]\<rparr>) =
        (hb_view hb)(k \<mapsto> v)"
    by (rule hb_write [OF inv b]) (use w pl in auto)
  with Some r show ?thesis by (simp add: hb_put_def Let_def hb_tag)
qed

interpretation hb: kv_buffer hb_inv hb_view hb_put hb_get hb_delete
proof unfold_locales
  fix s k v b s'
  assume i: "hb_inv s"
  show "hb_put k v s = (b, s') \<Longrightarrow> hb_inv s'"
    and "hb_put k v s = (True, s') \<Longrightarrow> hb_view s' = (hb_view s)(k \<mapsto> v)"
    and "hb_put k v s = (False, s') \<Longrightarrow> s' = s \<and> hb_view s k = None"
    using hb_put_cases [OF i, of k v] by auto
  show "hb_get k s = hb_view s k" by (rule hb_get_view [OF i])
  show "hb_delete k s = (b, s') \<Longrightarrow> hb_inv s'"
    and "hb_delete k s = (b, s') \<Longrightarrow> hb_view s' = (hb_view s)(k := None) \<and> (b \<longleftrightarrow> hb_view s k \<noteq> None)"
    using hb_delete_view [OF i] by auto
qed

lemma hb_empty:
  assumes "\<And>b. b < hb_kNodeNum hb \<Longrightarrow> bn_inv hash_int (hb_nodes hb ! b) \<and> bn_view (hb_nodes hb ! b) = Map.empty"
    and "length (hb_nodes hb) = hb_kNodeNum hb" "0 < hb_kNodeNum hb"
  shows "hb_inv hb \<and> hb_view hb = Map.empty"
proof -
  have has: "\<not> hb_has hb k b" for k b using assms(1) by (auto simp: hb_has_def)
  have "bn_inv hash_int n" if "n \<in> set (hb_nodes hb)" for n
    using that assms(1,2) by (metis in_set_conv_nth)
  with assms(2,3) has show ?thesis by (auto simp: hb_inv_def hb_view_None fun_eq_iff)
qed

lemma hashbuf_new_inv:
  assumes "0 < num" "\<forall>i < num. length (garbage ! i) = 12"
  shows "hb_inv (hashbuf_new d num garbage) \<and> hb_view (hashbuf_new d num garbage) = Map.empty"
  by (rule hb_empty) (use assms in \<open>auto simp: hashbuf_new_def bufnode_new_inv bufnode_new_view\<close>)

lemma hb_Reset_inv:
  assumes inv: "hb_inv hb"
  shows "hb_inv (hb_Reset hb) \<and> hb_view (hb_Reset hb) = Map.empty"
  by (rule hb_empty) (use hb_invD(1,2,3) [OF inv] bn_Reset_inv in \<open>auto simp: hb_Reset_def\<close>)

section \<open>What the iterator yields\<close>

lemma hb_toNext_live: "bits \<noteq> 0 \<Longrightarrow> hb_toNextValidIter hb (cur, bits) = (cur, bits)"
  by (simp add: hb_toNextValidIter.simps bitset_bool_def)

lemma hb_iter_next_toNext: "hb_iter_next hb (cur, bits) = hb_toNextValidIter hb (cur, bitset_advance bits)"
  by (simp add: hb_iter_next_def Let_def bitset_bool_def hb_toNext_live)

lemma hb_iterate_toNext:
  assumes len: "length (hb_nodes hb) = hb_kNodeNum hb"
  shows "cur < hb_kNodeNum hb \<Longrightarrow>
    hb_iterate hb (hb_toNextValidIter hb (cur, bits)) =
      map (\<lambda>i. bn_kvs (hb_nodes hb ! cur) ! i) (bits_of bits) @
      concat (map bn_Iterator (drop (Suc cur) (hb_nodes hb)))"
proof (induction "(hb_kNodeNum hb - cur) * 65 + popcount bits" arbitrary: cur bits rule: less_induct)
  case less
  let ?num = "hb_kNodeNum hb"
  show ?case
  proof (cases "bits = 0")
    case False
    have "popcount (bitset_advance bits) < popcount bits"
      using False by (simp add: bitset_advance_def clear_lowest_less)
    with less.hyps [of cur "bitset_advance bits"] less.prems
    have "hb_iterate hb (hb_iter_next hb (cur, bits)) =
        map (\<lambda>i. bn_kvs (hb_nodes hb ! cur) ! i) (bits_of (bitset_advance bits)) @
        concat (map bn_Iterator (drop (Suc cur) (hb_nodes hb)))"
      by (simp add: hb_iter_next_toNext)
    moreover have "bits_of bits = ctz bits # bits_of (bitset_advance bits)"
      using False bits_of_rec [of bits] by (simp add: bitset_advance_def)
    ultimately show ?thesis
      using False by (simp add: hb_toNext_live hb_iterate.simps [of hb "(cur, bits)"] hb_iter_Valid_def
          hb_iter_deref_def bitset_deref_def bitset_bool_def)
  next
    case True
    show ?thesis
    proof (cases "Suc cur = ?num")
      case last: True
      then have "hb_toNextValidIter hb (cur, bits) = (?num, 0)"
        using True by (simp add: hb_toNextValidIter.simps bitset_bool_def)
      then show ?thesis using True last len
        by (simp add: hb_iterate.simps [of hb "(?num, 0)"] hb_iter_Valid_def bitset_bool_def)
    next
      case False
      let ?w = "bn_ValidBitSet (hb_nodes hb ! Suc cur)"
      have s: "Suc cur < ?num" using False less.prems by simp
      have "popcount ?w \<le> 64" using popcount_le [of ?w] by simp
      moreover have "(?num - cur) * 65 = (?num - Suc cur) * 65 + 65" using less.prems
        by (metis Suc_diff_Suc add.commute mult_Suc)
      ultimately have "(?num - Suc cur) * 65 + popcount ?w < (?num - cur) * 65 + popcount bits" by linarith
      from less.hyps [OF this s] have ih: "hb_iterate hb (hb_toNextValidIter hb (Suc cur, ?w)) =
          bn_Iterator (hb_nodes hb ! Suc cur) @ concat (map bn_Iterator (drop (Suc (Suc cur)) (hb_nodes hb)))"
        by (simp add: bn_Iterator_def bitset.walk_bits_of)
      have "hb_toNextValidIter hb (cur, bits) = hb_toNextValidIter hb (Suc cur, ?w)"
        using True False less.prems by (simp add: hb_toNextValidIter.simps [of hb cur] bitset_bool_def)
      moreover have "drop (Suc cur) (hb_nodes hb) = hb_nodes hb ! Suc cur # drop (Suc (Suc cur)) (hb_nodes hb)"
        using s len by (simp add: Cons_nth_drop_Suc)
      ultimately show ?thesis using ih True by simp
    qed
  qed
qed

lemma hb_iterate_all:
  assumes "hb_inv hb"
  shows "hb_iterate hb (hb_Begin hb) = concat (map bn_Iterator (hb_nodes hb))"
proof -
  note I = hb_invD(1,2) [OF assms]
  have "hb_nodes hb = hb_nodes hb ! 0 # drop (Suc 0) (hb_nodes hb)"
    using I Cons_nth_drop_Suc [of 0 "hb_nodes hb"] by simp
  then have "concat (map bn_Iterator (hb_nodes hb)) =
      bn_Iterator (hb_nodes hb ! 0) @ concat (map bn_Iterator (drop (Suc 0) (hb_nodes hb)))"
    by (metis concat.simps(2) list.simps(9))
  with hb_iterate_toNext [OF I(1,2)] show ?thesis
    by (simp add: hb_Begin_def bn_Iterator_def bitset.walk_bits_of)
qed

lemma bn_Iterator_entries:
  assumes "bn_inv H n"
  shows "\<lparr>kv_key = k, kv_val = v\<rparr> \<in> set (bn_Iterator n) \<longleftrightarrow> bn_view n k = Some v"
proof -
  have "\<lparr>kv_key = k, kv_val = v\<rparr> = bn_kvs n ! i \<longleftrightarrow> bn_key n i = k \<and> bn_val n i = v" for i
    by (cases "bn_kvs n ! i") auto
  then show ?thesis
    by (auto simp: bn_view_entries [OF assms] bn_Iterator_def bitset.walk_bits_of bit_bn_Valid image_iff)
qed

lemma bn_Iterator_distinct: "bn_inv H n \<Longrightarrow> distinct (map kv_key (bn_Iterator n))"
  using bn_invD(7) [of H n]
  by (auto simp: bn_Iterator_def bitset.walk_bits_of distinct_map bit_bn_Valid inj_on_def slots_distinct_def bn_live_def)

lemma bn_Iterator_keys: "bn_inv H n \<Longrightarrow> kv_key ` set (bn_Iterator n) = {k. bn_view n k \<noteq> None}"
proof -
  assume inv: "bn_inv H n"
  have "k \<in> kv_key ` set (bn_Iterator n) \<longleftrightarrow> (\<exists>v. \<lparr>kv_key = k, kv_val = v\<rparr> \<in> set (bn_Iterator n))" for k
  proof
    assume "k \<in> kv_key ` set (bn_Iterator n)"
    then obtain x where x: "x \<in> set (bn_Iterator n)" "kv_key x = k" by blast
    have "y = \<lparr>kv_key = kv_key y, kv_val = kv_val y\<rparr>" for y :: kv_t by (cases y) simp
    with x show "\<exists>v. \<lparr>kv_key = k, kv_val = v\<rparr> \<in> set (bn_Iterator n)" by metis
  next
    assume "\<exists>v. \<lparr>kv_key = k, kv_val = v\<rparr> \<in> set (bn_Iterator n)"
    then show "k \<in> kv_key ` set (bn_Iterator n)" by force
  qed
  then show ?thesis by (auto simp: bn_Iterator_entries [OF inv])
qed

lemma distinct_concat_map:
  "(\<And>i. i < length xs \<Longrightarrow> distinct (f (xs ! i))) \<Longrightarrow>
   (\<And>i j. i < j \<Longrightarrow> j < length xs \<Longrightarrow> set (f (xs ! i)) \<inter> set (f (xs ! j)) = {}) \<Longrightarrow>
   distinct (concat (map f xs))"
proof (induction xs)
  case (Cons x xs)
  have "distinct (concat (map f xs))"
    using Cons.prems(1) [of "Suc _"] Cons.prems(2) [of "Suc _" "Suc _"] by (intro Cons.IH) auto
  moreover have "set (f x) \<inter> set (f y) = {}" if "y \<in> set xs" for y
    using that Cons.prems(2) [of 0 "Suc _"] by (auto simp: in_set_conv_nth)
  ultimately show ?case using Cons.prems(1) [of 0] by auto
qed simp

lemma hb_keys_once:
  assumes inv: "hb_inv hb"
  shows "distinct (map kv_key (concat (map bn_Iterator (hb_nodes hb))))"
proof -
  note I = hb_invD [OF inv]
  have "distinct (concat (map (\<lambda>n. map kv_key (bn_Iterator n)) (hb_nodes hb)))"
  proof (rule distinct_concat_map)
    fix i assume "i < length (hb_nodes hb)"
    then show "distinct (map kv_key (bn_Iterator (hb_nodes hb ! i)))"
      using I(1,3) by (intro bn_Iterator_distinct) auto
  next
    fix i j assume ij: "i < j" "j < length (hb_nodes hb)"
    then have n: "i < hb_kNodeNum hb" "j < hb_kNodeNum hb" using I(1) by auto
    have "\<not> (hb_has hb k i \<and> hb_has hb k j)" for k using I(5) [of k i j] ij(1) by auto
    then show "set (map kv_key (bn_Iterator (hb_nodes hb ! i))) \<inter> set (map kv_key (bn_Iterator (hb_nodes hb ! j))) = {}"
      using n by (auto simp only: set_map bn_Iterator_keys [OF I(3) [OF n(1)]] bn_Iterator_keys [OF I(3) [OF n(2)]] hb_has_def)
  qed
  then show ?thesis by (simp add: map_concat comp_def)
qed

lemma hb_view_entries:
  assumes inv: "hb_inv hb"
  shows "hb_view hb k = Some v \<longleftrightarrow> \<lparr>kv_key = k, kv_val = v\<rparr> \<in> set (concat (map bn_Iterator (hb_nodes hb)))"
proof -
  note I = hb_invD [OF inv]
  have "\<lparr>kv_key = k, kv_val = v\<rparr> \<in> set (concat (map bn_Iterator (hb_nodes hb))) \<longleftrightarrow>
      (\<exists>b < hb_kNodeNum hb. bn_view (hb_nodes hb ! b) k = Some v)"
    using I(1) bn_Iterator_entries [OF I(3)] by (fastforce simp: in_set_conv_nth [of _ "hb_nodes hb"])
  also have "\<dots> \<longleftrightarrow> hb_view hb k = Some v"
  proof
    assume "\<exists>b < hb_kNodeNum hb. bn_view (hb_nodes hb ! b) k = Some v"
    then obtain b where "hb_has hb k b" "bn_view (hb_nodes hb ! b) k = Some v" by (auto simp: hb_has_def)
    with hb_view_has [OF inv] show "hb_view hb k = Some v" by simp
  next
    assume v: "hb_view hb k = Some v"
    then obtain b where b: "hb_has hb k b" using hb_view_None [of hb k] by auto
    with hb_view_has [OF inv b] v show "\<exists>b < hb_kNodeNum hb. bn_view (hb_nodes hb ! b) k = Some v"
      by (auto simp: hb_has_def)
  qed
  finally show ?thesis by simp
qed

section \<open>Properties\<close>

text \<open>
  C14: a new \<open>HashBuffer\<close> (any number of buckets, whatever the uncleared memory holds) answers every
  sequence of \<open>Put\<close>, \<open>Get\<close> and \<open>Delete\<close> like a partial map in which an insertion of an absent key may
  be refused: deleting a key never hides the keys behind it on the probe path.
\<close>

theorem hashbuf_refines_map:
  assumes "0 < num" "\<forall>i < num. length (garbage ! i) = 12"
  shows "case kv_run hb_put hb_get hb_delete cs (hashbuf_new d num garbage) of (tr, hb) \<Rightarrow>
           map fst tr = cs \<and> hb_inv hb \<and> kv_trace Map.empty tr (hb_view hb)"
proof -
  obtain tr hb where run: "kv_run hb_put hb_get hb_delete cs (hashbuf_new d num garbage) = (tr, hb)" by fastforce
  from hb.run_refines [OF conjunct1 [OF hashbuf_new_inv [OF assms]] run] kv_run_ops [OF run]
  show ?thesis using hashbuf_new_inv [OF assms] by (simp add: run)
qed

text \<open>
  C33: the iterator of a \<open>HashBuffer\<close> terminates and yields exactly the records of the buffer, bucket by
  bucket, no key twice.
\<close>

theorem hashbuf_iterator_complete:
  assumes "hb_inv hb"
  shows "distinct (map kv_key (hb_iterate hb (hb_Begin hb))) \<and>
         (\<forall>k v. hb_view hb k = Some v \<longleftrightarrow> \<lparr>kv_key = k, kv_val = v\<rparr> \<in> set (hb_iterate hb (hb_Begin hb)))"
  using hb_keys_once [OF assms] hb_view_entries [OF assms] unfolding hb_iterate_all [OF assms] by blast

text \<open>Four buckets, so one probe position per key.\<close>

definition hb_sample :: hashbuf where
  "hb_sample = snd (hb_put 9 90 (snd (hb_put 5 50 (hashbuf_new 2 4 (replicate 4 (replicate 12 \<lparr>kv_key = 5, kv_val = 1\<rparr>))))))"

theorem hashbuf_refines_map_witness:
  "case kv_run hb_put hb_get hb_delete [Put 5 50, Del 5, Put 5 51, Get 5, Get 6]
      (hashbuf_new 2 4 (replicate 4 (replicate 12 \<lparr>kv_key = 5, kv_val = 9\<rparr>))) of
     (tr, hb) \<Rightarrow> map snd tr = [PutRes True, DelRes True, PutRes True, GetRes (Some 51), GetRes None] \<and>
       kv_trace Map.empty tr (hb_view hb)"
proof -
  let ?g = "replicate 4 (replicate 12 \<lparr>kv_key = 5, kv_val = 9\<rparr>)"
  let ?r = "kv_run hb_put hb_get hb_delete [Put 5 50, Del 5, Put 5 51, Get 5, Get 6] (hashbuf_new 2 4 ?g)"
  have "map snd (fst ?r) = [PutRes True, DelRes True, PutRes True, GetRes (Some 51), GetRes None]" by code_simp
  moreover have "\<forall>i < 4. length (?g ! i) = 12" by simp
  ultimately show ?thesis
    using hashbuf_refines_map [of 4 ?g "[Put 5 50, Del 5, Put 5 51, Get 5, Get 6]" 2]
    by (simp only: case_prod_beta)
qed

lemma hb_sample_inv: "hb_inv hb_sample"
  unfolding hb_sample_def
  by (intro hb.put_inv [OF hb.put_inv [OF conjunct1 [OF hashbuf_new_inv]], OF _ _ prod.collapse [symmetric] prod.collapse [symmetric]])
    simp_all

theorem hashbuf_iterator_complete_witness:
  "hb_inv hb_sample \<and> hb_view hb_sample 9 = Some 90 \<and>
   map kv_key (hb_iterate hb_sample (hb_Begin hb_sample)) \<in> {[5, 9], [9, 5]}"
proof -
  have "map kv_key (concat (map bn_Iterator (hb_nodes hb_sample))) \<in> {[5, 9], [9, 5]}"
    and "\<lparr>kv_key = 9, kv_val = 90\<rparr> \<in> set (concat (map bn_Iterator (hb_nodes hb_sample)))" by code_simp+
  then show ?thesis
    using hashbuf_iterator_complete [OF hb_sample_inv] hb_sample_inv by (simp only: hb_iterate_all [OF hb_sample_inv])
qed

end
