(* ===== verification/SkipBuf.thy ===== *)
theory SkipBuf
  imports Interfaces
begin

text \<open>
  \<open>SkipBuf\<close> of \<open>src/spoton_skipbuf.h\<close>: up to seven (or, with \<open>CompactInsert\<close>, eight) 64-bit keys
  in an array of eight words, probed by one 512-bit compare. The compare always reads all eight words.
\<close>

definition kValNum :: nat where
  "kValNum = 8"

record skipbuf =
  sk_keys :: "u64 list"
  sk_count :: nat
  sk_lockbit :: bool

definition skipbuf_new :: skipbuf where
  "skipbuf_new = \<lparr>sk_keys = replicate kValNum 0, sk_count = 0, sk_lockbit = False\<rparr>"

definition sk_Reset :: "skipbuf \<Rightarrow> skipbuf" where
  "sk_Reset b = b\<lparr>sk_keys := replicate kValNum 0, sk_count := 0\<rparr>"

text \<open>\<open>std::sort (keys_, keys_ + count_)\<close> on unsigned words.\<close>

definition sk_Sort :: "skipbuf \<Rightarrow> skipbuf" where
  "sk_Sort b = b\<lparr>sk_keys := sort (take (sk_count b) (sk_keys b)) @ drop (sk_count b) (sk_keys b)\<rparr>"

definition sk_Contains :: "u64 \<Rightarrow> skipbuf \<Rightarrow> bool" where
  "sk_Contains key b =
     (let m = (horner_sum of_bool 2 (map (\<lambda>k. k = key) (sk_keys b)) :: u8) in m \<noteq> 0)"

definition sk_Insert :: "u64 \<Rightarrow> skipbuf \<Rightarrow> bool \<times> skipbuf" where
  "sk_Insert k b =
     (if kValNum - 1 \<le> sk_count b then (False, b)
      else (True, b\<lparr>sk_keys := (sk_keys b)[sk_count b := k], sk_count := Suc (sk_count b)\<rparr>))"

definition sk_CompactInsert :: "u64 \<Rightarrow> skipbuf \<Rightarrow> bool \<times> skipbuf" where
  "sk_CompactInsert k b =
     (if sk_count b \<noteq> kValNum - 1 then (False, b)
      else (True, b\<lparr>sk_keys := (sk_keys b)[sk_count b := k], sk_count := Suc (sk_count b)\<rparr>))"

definition sk_Lock :: "skipbuf \<Rightarrow> skipbuf option" where
  "sk_Lock b = (if sk_lockbit b then None else Some (b\<lparr>sk_lockbit := True\<rparr>))"

definition sk_Unlock :: "skipbuf \<Rightarrow> skipbuf" where
  "sk_Unlock b = b\<lparr>sk_lockbit := False\<rparr>"

text \<open>The iterator walks all eight words, used or not.\<close>

definition sk_iter :: "skipbuf \<Rightarrow> u64 list" where
  "sk_iter b = map (\<lambda>i. sk_keys b ! i) [0..<kValNum]"

section \<open>Invariant\<close>

definition sk_inv :: "skipbuf \<Rightarrow> bool" where
  "sk_inv b \<longleftrightarrow> length (sk_keys b) = kValNum \<and> sk_count b \<le> kValNum \<and>
     drop (sk_count b) (sk_keys b) = replicate (kValNum - sk_count b) 0"

definition sk_view :: "skipbuf \<Rightarrow> u64 list" where
  "sk_view b = take (sk_count b) (sk_keys b)"

lemma sk_inv_keys: "sk_inv b \<longleftrightarrow> sk_count b \<le> 8 \<and> length (sk_view b) = sk_count b \<and>
    sk_keys b = sk_view b @ replicate (8 - sk_count b) 0"
proof
  assume "sk_inv b"
  then show "sk_count b \<le> 8 \<and> length (sk_view b) = sk_count b \<and> sk_keys b = sk_view b @ replicate (8 - sk_count b) 0"
    unfolding sk_inv_def sk_view_def kValNum_def
    by (intro conjI) (simp_all, metis append_take_drop_id)
next
  assume a: "sk_count b \<le> 8 \<and> length (sk_view b) = sk_count b \<and> sk_keys b = sk_view b @ replicate (8 - sk_count b) 0"
  then have "length (sk_keys b) = 8" "drop (sk_count b) (sk_keys b) = replicate (8 - sk_count b) 0"
    by (metis le_add_diff_inverse length_append length_replicate, metis append_eq_conv_conj)
  with a show "sk_inv b" by (simp add: sk_inv_def kValNum_def)
qed

lemma skipbuf_new_inv: "sk_inv skipbuf_new \<and> sk_view skipbuf_new = []"
  by (simp add: sk_inv_def sk_view_def skipbuf_new_def kValNum_def)

lemma sk_Reset_inv: "sk_inv (sk_Reset b) \<and> sk_view (sk_Reset b) = []"
  by (simp add: sk_inv_def sk_view_def sk_Reset_def kValNum_def)

lemma sk_append:
  fixes k :: u64
  assumes inv: "sk_inv b" and c: "sk_count b < 8"
  defines "b' \<equiv> b\<lparr>sk_keys := (sk_keys b)[sk_count b := k], sk_count := Suc (sk_count b)\<rparr>"
  shows "sk_inv b' \<and> sk_view b' = sk_view b @ [k]"
proof -
  have b: "length (sk_view b) = sk_count b" "sk_keys b = sk_view b @ replicate (8 - sk_count b) 0"
    using inv by (auto simp: sk_inv_keys)
  have "replicate (8 - sk_count b) (0 :: u64) = 0 # replicate (7 - sk_count b) 0"
    using c by (simp flip: replicate_Suc add: Suc_diff_le)
  then have keys: "sk_keys b' = (sk_view b @ [k]) @ replicate (7 - sk_count b) 0"
    using b by (simp add: b'_def list_update_append)
  have v: "sk_view b' = sk_view b @ [k]"
    unfolding sk_view_def [of b'] keys using b(1) by (simp add: b'_def)
  show ?thesis
    unfolding sk_inv_keys v keys using b(1) c by (auto simp: b'_def)
qed

lemma sk_Sort_inv: "sk_inv b \<Longrightarrow> sk_inv (sk_Sort b) \<and> sk_view (sk_Sort b) = sort (sk_view b)"
  by (auto simp: sk_inv_def sk_view_def sk_Sort_def)

lemma sk_Contains_set: "sk_inv b \<Longrightarrow> sk_Contains k b \<longleftrightarrow> k \<in> set (sk_keys b)"
proof -
  assume inv: "sk_inv b"
  let ?m = "horner_sum of_bool 2 (map (\<lambda>x. x = k) (sk_keys b)) :: u8"
  have "bit ?m i \<longleftrightarrow> i < 8 \<and> sk_keys b ! i = k" for i
    using inv by (auto simp: sk_inv_def kValNum_def bit_horner_sum_bit_word_iff)
  then have "?m \<noteq> 0 \<longleftrightarrow> (\<exists>i < 8. sk_keys b ! i = k)"
    by (auto simp: bit_eq_iff)
  then show ?thesis using inv by (auto simp: sk_Contains_def Let_def sk_inv_def kValNum_def in_set_conv_nth)
qed

section \<open>Properties\<close>

text \<open>
  \<open>Contains\<close> finds exactly the inserted keys, with one exception: while a word is unused it also
  reports the key 0, because the compare covers the zeroed rest of the array.
\<close>

theorem skipbuf_contains:
  assumes "sk_inv b"
  shows "sk_Contains k b \<longleftrightarrow> k \<in> set (sk_view b) \<or> k = 0 \<and> sk_count b < 8"
proof -
  have "sk_keys b = sk_view b @ replicate (8 - sk_count b) 0" using assms by (simp add: sk_inv_keys)
  then have "set (sk_keys b) = set (sk_view b) \<union> (if sk_count b < 8 then {0} else {})" by simp
  then show ?thesis using sk_Contains_set [OF assms, of k] by auto
qed

text \<open>
  C40: the buffer is a list of at most eight keys: \<open>Insert\<close> appends and refuses from the seventh key on,
  \<open>CompactInsert\<close> fills only the last word, \<open>Sort\<close> sorts the keys in use, and the unused words
  stay zero throughout.
\<close>

theorem skipbuf_operations:
  assumes "sk_inv b"
  shows "(case sk_Insert k b of (r, b') \<Rightarrow> sk_inv b' \<and> r = (sk_count b < 7) \<and>
           sk_view b' = (if r then sk_view b @ [k] else sk_view b)) \<and>
         (case sk_CompactInsert k b of (r, b') \<Rightarrow> sk_inv b' \<and> r = (sk_count b = 7) \<and>
           sk_view b' = (if r then sk_view b @ [k] else sk_view b)) \<and>
         sk_inv (sk_Sort b) \<and> sk_view (sk_Sort b) = sort (sk_view b)"
  using assms sk_append [OF assms, of k] sk_Sort_inv [OF assms]
  by (auto simp: sk_Insert_def sk_CompactInsert_def kValNum_def)

theorem skipbuf_contains_witness:
  "sk_Contains 0 (snd (sk_Insert 3 skipbuf_new)) \<and> sk_Contains 3 (snd (sk_Insert 3 skipbuf_new)) \<and>
   sk_view (snd (sk_Insert 3 skipbuf_new)) = [3]"
proof -
  have i: "sk_inv (snd (sk_Insert 3 skipbuf_new))" and v: "sk_view (snd (sk_Insert 3 skipbuf_new)) = [3]"
    and c: "sk_count (snd (sk_Insert 3 skipbuf_new)) = 1"
    by code_simp+
  show ?thesis using skipbuf_contains [OF i, of 0] skipbuf_contains [OF i, of 3] by (simp add: v c)
qed

theorem skipbuf_operations_witness:
  "sk_view (snd (sk_Insert 3 skipbuf_new)) = [3] \<and> fst (sk_Insert 3 skipbuf_new) \<and> sk_inv skipbuf_new"
  using skipbuf_operations [OF conjunct1 [OF skipbuf_new_inv], of 3] skipbuf_new_inv
  by (simp add: skipbuf_new_def split: prod.splits)

end
