(* ===== verification/VarHash.thy ===== *)
theory VarHash
  imports SpotonUtil "HOL-Library.Multiset"
begin

text \<open>
  \<open>HashTable\<close> of \<open>src/var_hash.h\<close>: an array of buckets of \<open>4 * kNumCacheLinePerBucket\<close> records in
  persistent memory, key 0 marking a free slot. Next to the contents the state keeps the image that
  has been flushed: \<open>SPOTON_FLUSH\<close> writes back the 64-byte line (four records) of its address,
  \<open>pmem_memcpy\<close> with \<open>PMEM_F_MEM_WB\<close> followed by the fence writes back what it copies.
\<close>

section \<open>State\<close>

record vkv_t =
  vkey :: u64
  vval :: u64

type_synonym vbucket = "vkv_t list"

record vhash =
  vh_bucket_count :: nat
  vh_buckets :: "vbucket list"
  vh_flushed :: "vbucket list"

definition KeyPerBucket :: "nat \<Rightarrow> nat" where
  "KeyPerBucket kNumCacheLinePerBucket = kNumCacheLinePerBucket * 4"

definition vh_getCapacity :: "nat \<Rightarrow> vhash \<Rightarrow> nat" where
  "vh_getCapacity lines t = vh_bucket_count t * KeyPerBucket lines"

text \<open>The constructor adopts the memory at \<open>addr\<close>; None is its failed alignment assertion.\<close>

definition vhash_new :: "nat \<Rightarrow> u64 \<Rightarrow> vbucket list \<Rightarrow> vhash option" where
  "vhash_new bc addr mem =
     (if addr AND 0xFF \<noteq> 0 then None
      else Some \<lparr>vh_bucket_count = bc, vh_buckets = mem, vh_flushed = mem\<rparr>)"

section \<open>Buckets\<close>

text \<open>The loop of \<open>Bucket::insert\<close>: the first slot whose key is 0.\<close>

definition vb_free :: "vbucket \<Rightarrow> nat option" where
  "vb_free slots = find (\<lambda>i. vkey (slots ! i) = 0) [0..<length slots]"

definition vb_write :: "nat \<Rightarrow> u64 \<Rightarrow> u64 \<Rightarrow> vbucket \<Rightarrow> vbucket" where
  "vb_write i key val slots = slots[i := \<lparr>vkey = key, vval = val\<rparr>]"

text \<open>Writing back the line of slot \<open>i\<close>.\<close>

definition vb_flush :: "nat \<Rightarrow> vbucket \<Rightarrow> vbucket \<Rightarrow> vbucket" where
  "vb_flush i slots img =
     map (\<lambda>j. if j div 4 = i div 4 then slots ! j else img ! j) [0..<length img]"

definition vb_insert :: "u64 \<Rightarrow> u64 \<Rightarrow> vbucket \<times> vbucket \<Rightarrow> bool \<times> vbucket \<times> vbucket" where
  "vb_insert key val sb =
     (case sb of (slots, img) \<Rightarrow>
        case vb_free slots of
          Some i \<Rightarrow> (let slots1 = vb_write i key val slots in (True, slots1, vb_flush i slots1 img))
        | None \<Rightarrow> (False, slots, img))"

text \<open>\<open>insert2\<close> writes without flushing.\<close>

definition vb_insert2 :: "u64 \<Rightarrow> u64 \<Rightarrow> vbucket \<Rightarrow> bool \<times> vbucket" where
  "vb_insert2 key val slots =
     (case vb_free slots of Some i \<Rightarrow> (True, vb_write i key val slots) | None \<Rightarrow> (False, slots))"

definition vb_insert_at :: "u64 \<Rightarrow> u64 \<Rightarrow> nat \<Rightarrow> vbucket \<times> vbucket \<Rightarrow> bool \<times> vbucket \<times> vbucket" where
  "vb_insert_at key val si sb =
     (case sb of (slots, img) \<Rightarrow>
        (let slots1 = vb_write si key val slots in (True, slots1, vb_flush si slots1 img)))"

section \<open>The table\<close>

definition vh_at :: "vhash \<Rightarrow> nat \<Rightarrow> vbucket \<times> vbucket" where
  "vh_at t bi = (vh_buckets t ! bi, vh_flushed t ! bi)"

definition vh_put :: "nat \<Rightarrow> vbucket \<times> vbucket \<Rightarrow> vhash \<Rightarrow> vhash" where
  "vh_put bi sb t = t\<lparr>vh_buckets := (vh_buckets t)[bi := fst sb], vh_flushed := (vh_flushed t)[bi := snd sb]\<rparr>"

definition vh_insert_key :: "u64 \<Rightarrow> u64 \<Rightarrow> nat \<Rightarrow> vhash \<Rightarrow> bool \<times> vhash" where
  "vh_insert_key key val bi t = (case vb_insert key val (vh_at t bi) of (r, sb) \<Rightarrow> (r, vh_put bi sb t))"

definition vh_insert_slot :: "u64 \<Rightarrow> u64 \<Rightarrow> nat \<Rightarrow> nat \<Rightarrow> vhash \<Rightarrow> bool \<times> vhash" where
  "vh_insert_slot key val bi si t = (case vb_insert_at key val si (vh_at t bi) of (r, sb) \<Rightarrow> (r, vh_put bi sb t))"

text \<open>\<open>insert (bucket, bi)\<close>: None is the exit on a bucket address that is not line-aligned.\<close>

definition vh_insert_bucket :: "u64 \<Rightarrow> nat \<Rightarrow> vbucket \<Rightarrow> nat \<Rightarrow> vhash \<Rightarrow> (bool \<times> vhash) option" where
  "vh_insert_bucket addr lines bucket bi t =
     (if (addr + of_nat (bi * KeyPerBucket lines * 16)) AND 0x3F \<noteq> 0 then None
      else Some (True, vh_put bi (bucket, bucket) t))"

text \<open>The probe loop \<open>while (probe_len--)\<close>\<close>

fun vh_probe :: "nat \<Rightarrow> u64 \<Rightarrow> u64 \<Rightarrow> nat \<Rightarrow> vhash \<Rightarrow> bool \<times> vhash" where
  "vh_probe 0 key val idx t = (False, t)"
| "vh_probe (Suc probe_len) key val idx t =
     (case vh_insert_key key val idx t of (res, t1) \<Rightarrow>
        if res then (True, t1)
        else vh_probe probe_len key val ((idx + 1) mod vh_bucket_count t) t1)"

definition vh_insert :: "u64 \<Rightarrow> u64 \<Rightarrow> vhash \<Rightarrow> bool \<times> vhash" where
  "vh_insert key val t =
     (let hash = hash_int key;
          idx = nat (uint hash mod int (vh_bucket_count t))
      in vh_probe 4 key val idx t)"

section \<open>Invariant and contents\<close>

definition vh_wf :: "nat \<Rightarrow> vhash \<Rightarrow> bool" where
  "vh_wf lines t \<longleftrightarrow>
     0 < vh_bucket_count t \<and> length (vh_buckets t) = vh_bucket_count t \<and> length (vh_flushed t) = vh_bucket_count t \<and>
     (\<forall>b < vh_bucket_count t. length (vh_buckets t ! b) = KeyPerBucket lines \<and> length (vh_flushed t ! b) = KeyPerBucket lines)"

text \<open>Every record of the table is in the flushed image.\<close>

definition vh_durable :: "vhash \<Rightarrow> bool" where
  "vh_durable t \<longleftrightarrow>
     (\<forall>b < vh_bucket_count t. \<forall>i < length (vh_buckets t ! b).
        vkey (vh_buckets t ! b ! i) \<noteq> 0 \<longrightarrow> vh_flushed t ! b ! i = vh_buckets t ! b ! i)"

definition vb_records :: "vbucket \<Rightarrow> vkv_t multiset" where
  "vb_records slots = filter_mset (\<lambda>s. vkey s \<noteq> 0) (mset slots)"

definition vh_records :: "vhash \<Rightarrow> vkv_t multiset" where
  "vh_records t = (\<Sum>b < vh_bucket_count t. vb_records (vh_buckets t ! b))"

lemma vb_free_SomeD: "vb_free slots = Some i \<Longrightarrow> i < length slots \<and> vkey (slots ! i) = 0"
  unfolding vb_free_def by (drule find_SomeD) auto

lemma vb_records_write:
  assumes "i < length slots" "vkey (slots ! i) = 0" "key \<noteq> 0"
  shows "vb_records (vb_write i key val slots) = add_mset \<lparr>vkey = key, vval = val\<rparr> (vb_records slots)"
proof -
  have "filter_mset (\<lambda>s. vkey s \<noteq> 0) (mset slots - {#slots ! i#}) = filter_mset (\<lambda>s. vkey s \<noteq> 0) (mset slots)"
    using assms(2) by (simp add: filter_diff_mset)
  with assms show ?thesis by (simp add: vb_records_def vb_write_def mset_update)
qed

lemma vh_records_put:
  assumes "bi < vh_bucket_count t" "length (vh_buckets t) = vh_bucket_count t"
    and "vb_records (fst sb) = add_mset r (vb_records (vh_buckets t ! bi))"
  shows "vh_records (vh_put bi sb t) = add_mset r (vh_records t)"
proof -
  have f: "finite {..<vh_bucket_count t}" "bi \<in> {..<vh_bucket_count t}" using assms(1) by auto
  have "(\<Sum>b \<in> {..<vh_bucket_count t} - {bi}. vb_records ((vh_buckets t)[bi := fst sb] ! b)) =
      (\<Sum>b \<in> {..<vh_bucket_count t} - {bi}. vb_records (vh_buckets t ! b))"
    by (rule sum.cong) auto
  then show ?thesis
    using assms by (simp add: vh_records_def vh_put_def sum.remove [OF f])
qed

lemma vb_insert_cases:
  assumes "length img = length slots" "key \<noteq> 0"
  shows "case vb_insert key val (slots, img) of (r, slots', img') \<Rightarrow>
    (r \<longleftrightarrow> (\<exists>i < length slots. vkey (slots ! i) = 0)) \<and>
    length slots' = length slots \<and> length img' = length slots \<and>
    (\<not> r \<longrightarrow> slots' = slots \<and> img' = img) \<and>
    (r \<longrightarrow> vb_records slots' = add_mset \<lparr>vkey = key, vval = val\<rparr> (vb_records slots)) \<and>
    ((\<forall>i < length slots. vkey (slots ! i) \<noteq> 0 \<longrightarrow> img ! i = slots ! i) \<longrightarrow>
     (\<forall>i < length slots. vkey (slots' ! i) \<noteq> 0 \<longrightarrow> img' ! i = slots' ! i))"
proof (cases "vb_free slots")
  case None
  then have "\<not> (\<exists>i < length slots. vkey (slots ! i) = 0)"
    unfolding vb_free_def by (auto simp: find_None_iff)
  with None assms show ?thesis by (simp add: vb_insert_def)
next
  case (Some i)
  from vb_free_SomeD [OF Some] have i: "i < length slots" "vkey (slots ! i) = 0" by auto
  have "vb_flush i (vb_write i key val slots) img ! j = vb_write i key val slots ! j"
    if "j < length slots" "vkey (vb_write i key val slots ! j) \<noteq> 0"
      "\<forall>j < length slots. vkey (slots ! j) \<noteq> 0 \<longrightarrow> img ! j = slots ! j" for j
    using that assms(1) i by (cases "j = i") (auto simp: vb_flush_def vb_write_def)
  with Some i assms vb_records_write [OF i assms(2), of val] show ?thesis
    by (auto simp: vb_insert_def Let_def vb_write_def [of i key val slots] vb_flush_def [of i _ img])
qed

definition vb_has_room :: "vbucket \<Rightarrow> bool" where
  "vb_has_room slots \<longleftrightarrow> (\<exists>i < length slots. vkey (slots ! i) = 0)"

lemma vh_insert_key_cases:
  assumes wf: "vh_wf lines t" and bi: "bi < vh_bucket_count t" and k: "key \<noteq> 0"
  shows "case vh_insert_key key val bi t of (r, t') \<Rightarrow>
    vh_wf lines t' \<and> vh_bucket_count t' = vh_bucket_count t \<and> (vh_durable t \<longrightarrow> vh_durable t') \<and>
    (r \<longleftrightarrow> vb_has_room (vh_buckets t ! bi)) \<and> (\<not> r \<longrightarrow> t' = t) \<and>
    (r \<longrightarrow> vh_records t' = add_mset \<lparr>vkey = key, vval = val\<rparr> (vh_records t))"
proof -
  let ?s = "vh_buckets t ! bi" and ?f = "vh_flushed t ! bi"
  obtain r s' f' where c: "vb_insert key val (?s, ?f) = (r, s', f')" by (metis surj_pair)
  have len: "length ?f = length ?s" "length (vh_buckets t) = vh_bucket_count t"
    "length (vh_flushed t) = vh_bucket_count t" using wf bi by (auto simp: vh_wf_def)
  note v = vb_insert_cases [OF len(1) k, of val, unfolded c prod.case]
  have r: "vh_insert_key key val bi t = (r, vh_put bi (s', f') t)"
    by (simp add: vh_insert_key_def vh_at_def c)
  have b: "vh_buckets (vh_put bi (s', f') t) ! b = (if b = bi then s' else vh_buckets t ! b)"
    and f: "vh_flushed (vh_put bi (s', f') t) ! b = (if b = bi then f' else vh_flushed t ! b)" for b
    using bi len by (auto simp: vh_put_def nth_list_update)
  have cnt: "vh_bucket_count (vh_put bi (s', f') t) = vh_bucket_count t" by (simp add: vh_put_def)
  have wf': "vh_wf lines (vh_put bi (s', f') t)"
    unfolding vh_wf_def cnt b f using wf v bi by (simp add: vh_wf_def vh_put_def)
  have dur: "vh_durable (vh_put bi (s', f') t)" if "vh_durable t"
    using that v bi unfolding vh_durable_def cnt b f by simp
  have "vh_put bi (s', f') t = t" if "\<not> r"
    using that v by (simp add: vh_put_def)
  with r wf' dur cnt v vh_records_put [OF bi len(2), of "(s', f')"] show ?thesis
    by (simp add: vb_has_room_def)
qed

lemma vh_probe_cases:
  assumes "vh_wf lines t" "idx < vh_bucket_count t" "key \<noteq> 0"
  shows "case vh_probe n key val idx t of (r, t') \<Rightarrow>
    vh_wf lines t' \<and> (vh_durable t \<longrightarrow> vh_durable t') \<and>
    (r \<longleftrightarrow> (\<exists>j < n. vb_has_room (vh_buckets t ! ((idx + j) mod vh_bucket_count t)))) \<and> (\<not> r \<longrightarrow> t' = t) \<and>
    (r \<longrightarrow> vh_records t' = add_mset \<lparr>vkey = key, vval = val\<rparr> (vh_records t))"
  using assms(2)
proof (induction n arbitrary: idx)
  case (Suc n)
  obtain r t1 where r: "vh_insert_key key val idx t = (r, t1)" by fastforce
  note c = vh_insert_key_cases [OF assms(1) Suc.prems assms(3), of val, unfolded r prod.case]
  have ex: "(\<exists>j < Suc n. P j) \<longleftrightarrow> P 0 \<or> (\<exists>j < n. P (Suc j))" for P :: "nat \<Rightarrow> bool"
    by (metis Ex_less_Suc2 less_Suc_eq_0_disj not_less_eq)
  show ?case
  proof (cases r)
    case True
    then show ?thesis using c Suc.prems by (simp add: r ex)
  next
    case False
    let ?m = "vh_bucket_count t"
    have "(idx + 1) mod ?m < ?m" using Suc.prems by simp
    moreover have "(Suc idx mod ?m + j) mod ?m = (idx + Suc j) mod ?m" for j
      by (simp add: mod_simps)
    ultimately show ?thesis
      using c False Suc.IH [of "(idx + 1) mod ?m"] Suc.prems by (simp add: r ex)
  qed
qed (use assms(1) in simp)

section \<open>Properties\<close>

text \<open>
  C34: \<open>HashTable::insert\<close> of a nonzero key succeeds exactly when one of the four buckets from the
  hash on has a free slot; it then adds exactly the new record, already flushed, and loses none; a
  failed insertion changes nothing.
\<close>

theorem varhash_insert:
  assumes "vh_wf lines t" "key \<noteq> 0"
  shows "case vh_insert key val t of (r, t') \<Rightarrow>
    vh_wf lines t' \<and> (vh_durable t \<longrightarrow> vh_durable t') \<and>
    (r \<longleftrightarrow> (\<exists>j < 4. vb_has_room
        (vh_buckets t ! ((nat (uint (hash_int key) mod int (vh_bucket_count t)) + j) mod vh_bucket_count t)))) \<and>
    (\<not> r \<longrightarrow> t' = t) \<and>
    (r \<longrightarrow> vh_records t' = add_mset \<lparr>vkey = key, vval = val\<rparr> (vh_records t))"
proof -
  have "0 < vh_bucket_count t" using assms(1) by (simp add: vh_wf_def)
  then have "nat (uint (hash_int key) mod int (vh_bucket_count t)) < vh_bucket_count t" by (simp add: nat_less_iff)
  from vh_probe_cases [OF assms(1) this assms(2), of 4 val]
  show ?thesis by (simp only: vh_insert_def Let_def)
qed

theorem varhash_insert_witness:
  "\<exists>t'. vh_insert 7 70 \<lparr>vh_bucket_count = 2, vh_buckets = replicate 2 (replicate 4 \<lparr>vkey = 0, vval = 0\<rparr>),
         vh_flushed = replicate 2 (replicate 4 \<lparr>vkey = 0, vval = 0\<rparr>)\<rparr> = (True, t') \<and>
     vh_records t' = {#\<lparr>vkey = 7, vval = 70\<rparr>#} \<and> vh_durable t'"
proof -
  let ?t = "\<lparr>vh_bucket_count = 2, vh_buckets = replicate 2 (replicate 4 \<lparr>vkey = 0, vval = 0\<rparr>),
         vh_flushed = replicate 2 (replicate 4 \<lparr>vkey = 0, vval = 0\<rparr>)\<rparr>"
  have wf: "vh_wf 1 ?t" and d: "vh_durable ?t"
    by (auto simp: vh_wf_def vh_durable_def KeyPerBucket_def)
  have "vb_records (replicate 4 \<lparr>vkey = 0, vval = 0\<rparr>) = {#}"
    by (simp add: vb_records_def numeral_eq_Suc)
  then have e: "vh_records ?t = {#}" by (simp add: vh_records_def numeral_eq_Suc)
  have "fst (vh_insert 7 70 ?t)" by code_simp
  then obtain t' where r: "vh_insert 7 70 ?t = (True, t')" by (metis prod.collapse)
  have k: "(7 :: u64) \<noteq> 0" by simp
  from varhash_insert [OF wf k, of 70, unfolded r prod.case] d e r show ?thesis by simp
qed

end
