(* ===== verification/ByteMem.thy ===== *)
theory ByteMem
  imports SpotonUtil
begin

text \<open>
  Byte-addressed memory with 64-bit addresses, as the logs use it: a pointer is a word, pointer
  arithmetic wraps, multi-byte fields are little-endian.
\<close>

type_synonym mem = "u64 \<Rightarrow> u8"

definition mem_write :: "u64 \<Rightarrow> u8 list \<Rightarrow> mem \<Rightarrow> mem" where
  "mem_write a bs m = (\<lambda>x. if unat (x - a) < length bs then bs ! unat (x - a) else m x)"

definition mem_read :: "mem \<Rightarrow> u64 \<Rightarrow> nat \<Rightarrow> u8 list" where
  "mem_read m a n = map (\<lambda>i. m (a + of_nat i)) [0..<n]"

definition le_bytes :: "nat \<Rightarrow> u64 \<Rightarrow> u8 list" where
  "le_bytes n w = map (\<lambda>i. ucast (drop_bit (8 * i) w)) [0..<n]"

lemma length_le_bytes [simp]: "length (le_bytes n w) = n"
  by (simp add: le_bytes_def)

lemma length_mem_read [simp]: "length (mem_read m a n) = n"
  by (simp add: mem_read_def)

lemma load_le_bytes [simp]: "load_le (le_bytes 8 w) = w"
proof (rule bit_word_eqI)
  fix n assume "n < LENGTH(64)"
  then have n: "n < 64" by simp
  then have "n div 8 < 8" by simp
  with n show "bit (load_le (le_bytes 8 w)) n = bit w n"
    by (simp add: bit_load_le le_bytes_def bitset_simps bit_drop_bit_eq)
qed

lemma mem_write_in:
  "i < length bs \<Longrightarrow> i < 2 ^ 64 \<Longrightarrow> mem_write a bs m (a + of_nat i) = bs ! i"
  by (simp add: mem_write_def unsigned_of_nat take_bit_nat_eq_self)

lemma mem_write_out: "length bs \<le> unat (x - a) \<Longrightarrow> mem_write a bs m x = m x"
  by (simp add: mem_write_def)

lemma mem_read_write: "n = length bs \<Longrightarrow> length bs \<le> 2 ^ 64 \<Longrightarrow> mem_read (mem_write a bs m) a n = bs"
  unfolding mem_read_def by (rule nth_equalityI) (auto simp: mem_write_in)

text \<open>Offsets relative to a base address, below \<open>2 ^ 64\<close>.\<close>

lemma unat_of_nat64: "n < 2 ^ 64 \<Longrightarrow> unat (of_nat n :: u64) = n"
  by (simp add: unsigned_of_nat take_bit_nat_eq_self)

lemma off_diff:
  assumes "i < 2 ^ 64" "j \<le> i"
  shows "unat ((b + of_nat i) - (b + of_nat j :: u64)) = i - j"
proof -
  have "(b + of_nat i) - (b + of_nat j :: u64) = of_nat (i - j)"
    unfolding of_nat_diff [OF assms(2)] by simp
  moreover have "i - j < 2 ^ 64" using assms by simp
  ultimately show ?thesis by (simp only: unat_of_nat64)
qed

lemma off_diff_wrap:
  assumes "i < j" "j < 2 ^ 64"
  shows "unat ((b + of_nat i) - (b + of_nat j :: u64)) = 2 ^ 64 - (j - i)"
proof -
  have le: "j - i \<le> 2 ^ 64" using assms by simp
  have "of_nat (2 ^ 64 - (j - i)) = - (of_nat (j - i) :: u64)"
    unfolding of_nat_diff [OF le] by simp
  moreover have "(b + of_nat i) - (b + of_nat j :: u64) = - of_nat (j - i)"
    unfolding of_nat_diff [OF less_imp_le [OF assms(1)]] by simp
  ultimately have "(b + of_nat i) - (b + of_nat j :: u64) = of_nat (2 ^ 64 - (j - i))" by simp
  moreover have "2 ^ 64 - (j - i) < 2 ^ 64" using assms by simp
  ultimately show ?thesis by (simp only: unat_of_nat64)
qed

text \<open>A write of \<open>bs\<close> at offset \<open>j\<close> seen at offset \<open>i\<close>, when neither runs past the address space.\<close>

lemma mem_write_off:
  assumes "i < 2 ^ 64" "j + length bs \<le> 2 ^ 64"
  shows "mem_write (b + of_nat j) bs m (b + of_nat i) =
    (if j \<le> i \<and> i < j + length bs then bs ! (i - j) else m (b + of_nat i))"
proof (cases "j \<le> i")
  case True
  then show ?thesis using assms off_diff [OF assms(1) True, of b] by (auto simp: mem_write_def)
next
  case False
  show ?thesis
  proof (cases "j < 2 ^ 64")
    case True
    with off_diff_wrap [of i j b] False assms(2)
    have "length bs \<le> unat ((b + of_nat i) - (b + of_nat j :: u64))" by simp
    with False show ?thesis by (simp add: mem_write_out)
  next
    case j: False
    from assms(2) j have "length bs = 0" by linarith
    then have "bs = []" by simp
    with False show ?thesis by (simp add: mem_write_def)
  qed
qed

end
