(* ===== verification/SpotonLog.thy ===== *)
theory SpotonLog
  imports ByteMem
begin

text \<open>
  \<open>src/spoton_log.h\<close> and \<open>src/spoton_log.cc\<close>: the redo log of the buffers. A log is a stretch of
  persistent memory that starts with 256 bytes of metadata; log nodes (16 bytes of header, the data,
  one trailing size byte) are appended at \<open>log_tail_\<close>. A node is named by a \<open>logptr_t\<close>, log id and
  offset in one word, and the nodes of one buffer are chained through their \<open>ptr_\<close> fields. \<open>XXH32\<close> is
  the linked library's hash and a parameter. Source data is given by the bytes that can be read at the
  source pointer, since the checksum reads them up to the first NUL.
\<close>

section \<open>logptr_t\<close>

definition kEmptyLogPtr :: u64 where
  "kEmptyLogPtr = 0xFFFF000000000000"

definition logptr_make :: "u16 \<Rightarrow> u64 \<Rightarrow> u64" where
  "logptr_make lid off = (off AND 0xFFFFFFFFFFFF) OR push_bit 48 (ucast lid)"

definition logptr_getOffset :: "u64 \<Rightarrow> u64" where
  "logptr_getOffset p = p AND 0xFFFFFFFFFFFF"

definition logptr_getLogID :: "u64 \<Rightarrow> u16" where
  "logptr_getLogID p = ucast (drop_bit 48 p)"

definition logptr_bool :: "u64 \<Rightarrow> bool" where
  "logptr_bool p \<longleftrightarrow> p \<noteq> kEmptyLogPtr"

text \<open>\<open>kLogBaseAddress\<close> has 64 entries; \<open>BadLogId\<close> is the access outside the array.\<close>

datatype vaddr = NullPtr | VAddr u64 | BadLogId

definition logptr_RegistertBaseAddress :: "u16 \<Rightarrow> u64 \<Rightarrow> u64 list \<Rightarrow> u64 list option" where
  "logptr_RegistertBaseAddress logid addr base =
     (if unat logid < length base then Some (base[unat logid := addr]) else None)"

definition logptr_vaddr :: "u64 list \<Rightarrow> u64 \<Rightarrow> vaddr" where
  "logptr_vaddr base p =
     (if logptr_bool p then
        (if unat (logptr_getLogID p) < length base
         then VAddr (base ! unat (logptr_getLogID p) + logptr_getOffset p) else BadLogId)
      else NullPtr)"

section \<open>LogNode_t\<close>

datatype LogNodeType_t = kLogNodeValid | kLogNodeLinkEnd | kLogNodeCheckpoint | kLogNodeFail

primrec logtype_byte :: "LogNodeType_t \<Rightarrow> u8" where
  "logtype_byte kLogNodeValid = 0x10"
| "logtype_byte kLogNodeLinkEnd = 0x11"
| "logtype_byte kLogNodeCheckpoint = 0x12"
| "logtype_byte kLogNodeFail = 0x13"

text \<open>The fields of the node at address \<open>a\<close>.\<close>

definition ln_GetType :: "mem \<Rightarrow> u64 \<Rightarrow> u8" where
  "ln_GetType m a = m a"

definition ln_GetDataSize :: "mem \<Rightarrow> u64 \<Rightarrow> u64" where
  "ln_GetDataSize m a = ucast (m (a + 1))"

definition ln_checksum :: "mem \<Rightarrow> u64 \<Rightarrow> u64" where
  "ln_checksum m a = load_le (mem_read m (a + 2) 6)"

definition ln_ptr :: "mem \<Rightarrow> u64 \<Rightarrow> u64" where
  "ln_ptr m a = load_le (mem_read m (a + 8) 8)"

definition ln_GetDataSlice :: "mem \<Rightarrow> u64 \<Rightarrow> slice" where
  "ln_GetDataSlice m a = slice_make (mem_read m (a + 16) (unat (ln_GetDataSize m a))) (unat (ln_GetDataSize m a))"

definition ln_ListNext :: "u64 list \<Rightarrow> mem \<Rightarrow> u64 \<Rightarrow> vaddr" where
  "ln_ListNext base m a = logptr_vaddr base (ln_ptr m a)"

definition ln_Next :: "mem \<Rightarrow> u64 \<Rightarrow> u64" where
  "ln_Next m a = a + 16 + ln_GetDataSize m a + 1"

definition ln_GetSize :: "mem \<Rightarrow> u64 \<Rightarrow> u64" where
  "ln_GetSize m a = 16 + ln_GetDataSize m a + 1"

definition ln_Valid :: "mem \<Rightarrow> u64 \<Rightarrow> bool" where
  "ln_Valid m a \<longleftrightarrow> m a < logtype_byte kLogNodeFail \<and> m a \<ge> logtype_byte kLogNodeValid"

text \<open>
  \<open>SetData (type, data, len, ptr)\<close> writes the node in place. The size field and the trailing size
  byte keep the low 8 bits of \<open>len\<close>; the checksum field keeps the low 48 bits.
\<close>

definition ln_SetData :: "(u8 list \<Rightarrow> u32 \<Rightarrow> u32) \<Rightarrow> LogNodeType_t \<Rightarrow> u8 list \<Rightarrow> nat \<Rightarrow> u64 \<Rightarrow> u64 \<Rightarrow> mem \<Rightarrow> mem" where
  "ln_SetData XXH32 type src len ptr a m =
     (let m1 = mem_write a [logtype_byte type, of_nat len] m;
          m2 = mem_write (a + 8) (le_bytes 8 ptr) m1;
          m3 = mem_write (a + 16) (take len src) m2;
          m4 = mem_write (a + 2) (le_bytes 6 (ucast (hash_string XXH32 (Some src) (of_nat len)))) m3
      in mem_write (a + 16 + of_nat len) [of_nat len] m4)"

text \<open>
  \<open>SetData (type, key, val, ptr)\<close> builds the 33 bytes in a buffer and copies them. Its checksum is
  taken over \<open>this->data_\<close>, that is over the \<open>old\<close> bytes at the destination.
\<close>

definition ln_SetKV :: "(u8 list \<Rightarrow> u32 \<Rightarrow> u32) \<Rightarrow> LogNodeType_t \<Rightarrow> u64 \<Rightarrow> u64 \<Rightarrow> u64 \<Rightarrow> u8 list \<Rightarrow> u64 \<Rightarrow> mem \<Rightarrow> mem" where
  "ln_SetKV XXH32 type key val ptr old a m =
     (let buf = [logtype_byte type, 16] @ le_bytes 6 (ucast (hash_string XXH32 (Some old) 16)) @
                le_bytes 8 ptr @ le_bytes 8 key @ le_bytes 8 val @ [16]
      in mem_write a buf m)"

section \<open>Log_t\<close>

record log_t =
  lg_id :: u16
  lg_size :: u64
  lg_size_mask :: u64
  lg_start :: u64
  lg_tail :: u64

record log_world =
  lw_mem :: mem
  lw_base :: "u64 list"
  lw_global_id :: u16
  lw_thread_log :: "log_t option"

definition kLogMetaOffset :: u64 where
  "kLogMetaOffset = 256"

text \<open>The constructor leaves \<open>log_id_\<close> uninitialised.\<close>

definition log_new :: "u16 \<Rightarrow> log_t" where
  "log_new garbage = \<lparr>lg_id = garbage, lg_size = 0, lg_size_mask = 0, lg_start = 0, lg_tail = kLogMetaOffset\<rparr>"

definition log_Create :: "u16 \<Rightarrow> u64 \<Rightarrow> u64 \<Rightarrow> log_t \<Rightarrow> log_world \<Rightarrow> (bool \<times> log_t \<times> log_world) option" where
  "log_Create logid addr sz l w =
     (if addr = 0 then Some (False, l, w)
      else case logptr_RegistertBaseAddress logid addr (lw_base w) of
             None \<Rightarrow> None
           | Some base \<Rightarrow>
               Some (True,
                 l\<lparr>lg_id := logid, lg_size := sz, lg_size_mask := sz - 1, lg_start := addr, lg_tail := kLogMetaOffset\<rparr>,
                 w\<lparr>lw_base := base,
                   lw_mem := mem_write (addr + 8) (le_bytes 8 kLogMetaOffset) (mem_write addr (le_bytes 8 sz) (lw_mem w))\<rparr>))"

text \<open>\<open>Open\<close> does not set \<open>log_id_\<close>.\<close>

definition log_Open :: "u16 \<Rightarrow> u64 \<Rightarrow> log_t \<Rightarrow> log_world \<Rightarrow> (log_t \<times> log_world) option" where
  "log_Open logid addr l w =
     (case logptr_RegistertBaseAddress logid addr (lw_base w) of
        None \<Rightarrow> None
      | Some base \<Rightarrow>
          (let sz = load_le (mem_read (lw_mem w) addr 8);
               tail = load_le (mem_read (lw_mem w) (addr + 8) 8)
           in Some (l\<lparr>lg_size := sz, lg_size_mask := sz - 1, lg_start := addr, lg_tail := tail\<rparr>,
                    w\<lparr>lw_base := base\<rparr>)))"

definition log_CommitTail :: "log_t \<Rightarrow> mem \<Rightarrow> mem" where
  "log_CommitTail l m = mem_write (lg_start l + 8) (le_bytes 8 (lg_tail l)) m"

text \<open>None is the exit of a failed \<open>Create\<close> (or a log id outside the base table).\<close>

definition log_RegisterThreadLocalLog :: "u16 \<Rightarrow> u64 \<Rightarrow> u64 \<Rightarrow> log_world \<Rightarrow> log_world option" where
  "log_RegisterThreadLocalLog garbage addr sz w =
     (let cur_log_id = lw_global_id w;
          w1 = w\<lparr>lw_global_id := cur_log_id + 1\<rparr>
      in case log_Create cur_log_id addr sz (log_new garbage) w1 of
           Some (True, l, w2) \<Rightarrow> Some (w2\<lparr>lw_thread_log := Some l\<rparr>)
         | _ \<Rightarrow> None)"

definition log_OpenThreadLocalLog :: "u16 \<Rightarrow> u16 \<Rightarrow> u64 \<Rightarrow> log_world \<Rightarrow> log_world option" where
  "log_OpenThreadLocalLog garbage logid addr w =
     (let w1 = w\<lparr>lw_global_id := max (lw_global_id w) logid\<rparr>
      in case log_Open logid addr (log_new garbage) w1 of
           Some (l, w2) \<Rightarrow> Some (w2\<lparr>lw_thread_log := Some l\<rparr>)
         | None \<Rightarrow> None)"

definition log_GetThreadLocalLog :: "log_world \<Rightarrow> log_t option" where
  "log_GetThreadLocalLog w = lw_thread_log w"

section \<open>Append\<close>

datatype log_rec =
    RecSlice LogNodeType_t "u8 list" nat
  | RecKV LogNodeType_t u64 u64

text \<open>The two overloads; neither compares the new tail with \<open>log_size_\<close>.\<close>

definition log_AppendSlice :: "(u8 list \<Rightarrow> u32 \<Rightarrow> u32) \<Rightarrow> LogNodeType_t \<Rightarrow> u8 list \<Rightarrow> nat \<Rightarrow> u64 \<Rightarrow>
    mem \<times> log_t \<Rightarrow> u64 \<times> mem \<times> log_t" where
  "log_AppendSlice XXH32 type src len ptr s =
     (case s of (m, l) \<Rightarrow>
        (let total_size = of_nat len + 16 + 1;
             cur_off = lg_tail l;
             l1 = l\<lparr>lg_tail := lg_tail l + total_size\<rparr>;
             cur_addr = lg_start l + cur_off
         in (logptr_make (lg_id l) cur_off, ln_SetData XXH32 type src len ptr cur_addr m, l1)))"

text \<open>The old bytes the checksum reads are those from the node's data to the end of the log.\<close>

definition log_AppendKV :: "(u8 list \<Rightarrow> u32 \<Rightarrow> u32) \<Rightarrow> LogNodeType_t \<Rightarrow> u64 \<Rightarrow> u64 \<Rightarrow> u64 \<Rightarrow>
    mem \<times> log_t \<Rightarrow> u64 \<times> mem \<times> log_t" where
  "log_AppendKV XXH32 type key val ptr s =
     (case s of (m, l) \<Rightarrow>
        (let total_size = 16 + 16 + 1;
             cur_off = lg_tail l;
             l1 = l\<lparr>lg_tail := lg_tail l + total_size\<rparr>;
             cur_addr = lg_start l + cur_off;
             old = mem_read m (cur_addr + 16) (unat (lg_size l) - (unat cur_off + 16))
         in (logptr_make (lg_id l) cur_off, ln_SetKV XXH32 type key val ptr old cur_addr m, l1)))"

primrec log_Append :: "(u8 list \<Rightarrow> u32 \<Rightarrow> u32) \<Rightarrow> log_rec \<Rightarrow> u64 \<Rightarrow> mem \<times> log_t \<Rightarrow> u64 \<times> mem \<times> log_t" where
  "log_Append XXH32 (RecSlice type src len) ptr s = log_AppendSlice XXH32 type src len ptr s"
| "log_Append XXH32 (RecKV type key val) ptr s = log_AppendKV XXH32 type key val ptr s"

section \<open>Iterator\<close>

text \<open>The iterator is its offset; None is the failed assertion of its constructor.\<close>

definition lit_new :: "mem \<Rightarrow> u64 \<Rightarrow> u64 \<Rightarrow> bool \<Rightarrow> u64 option" where
  "lit_new m offset addr is_reverse =
     (if offset < kLogMetaOffset then None
      else Some (if \<not> is_reverse then offset else offset - 16 - ucast (m (addr + offset - 1)) - 1))"

definition lit_deref :: "u64 \<Rightarrow> u64 \<Rightarrow> u64" where
  "lit_deref addr off = addr + off"

definition lit_Valid :: "mem \<Rightarrow> u64 \<Rightarrow> u64 \<Rightarrow> bool" where
  "lit_Valid m addr off \<longleftrightarrow> off \<ge> kLogMetaOffset \<and> ln_Valid m (lit_deref addr off)"

definition lit_inc :: "mem \<Rightarrow> u64 \<Rightarrow> u64 \<Rightarrow> u64" where
  "lit_inc m addr off = off + ln_GetSize m (lit_deref addr off)"

definition lit_dec :: "mem \<Rightarrow> u64 \<Rightarrow> u64 \<Rightarrow> u64" where
  "lit_dec m addr off = off - ln_GetSize m (lit_deref addr off)"

definition log_begin :: "mem \<times> log_t \<Rightarrow> u64 option" where
  "log_begin s = (case s of (m, l) \<Rightarrow> lit_new m kLogMetaOffset (lg_start l) False)"

definition log_rbegin :: "mem \<times> log_t \<Rightarrow> u64 option" where
  "log_rbegin s = (case s of (m, l) \<Rightarrow> lit_new m (lg_tail l) (lg_start l) True)"

section \<open>Frames\<close>

text \<open>The bytes an append leaves in the log: header, data, trailing size.\<close>

primrec log_rec_data :: "log_rec \<Rightarrow> u8 list" where
  "log_rec_data (RecSlice type src len) = take len src"
| "log_rec_data (RecKV type key val) = le_bytes 8 key @ le_bytes 8 val"

primrec log_rec_type :: "log_rec \<Rightarrow> LogNodeType_t" where
  "log_rec_type (RecSlice type src len) = type"
| "log_rec_type (RecKV type key val) = type"

primrec log_rec_ok :: "log_rec \<Rightarrow> bool" where
  "log_rec_ok (RecSlice type src len) \<longleftrightarrow> len \<le> length src \<and> len < 256"
| "log_rec_ok (RecKV type key val) \<longleftrightarrow> True"

definition log_frame :: "LogNodeType_t \<Rightarrow> u64 \<Rightarrow> u8 list \<Rightarrow> u64 \<Rightarrow> u8 list" where
  "log_frame type chk data ptr =
     [logtype_byte type, of_nat (length data)] @ le_bytes 6 chk @ le_bytes 8 ptr @ data @ [of_nat (length data)]"

lemma length_log_frame [simp]: "length (log_frame type chk data ptr) = 17 + length data"
  by (simp add: log_frame_def)

lemma log_frame_nth:
  assumes "i < 17 + length data"
  shows "log_frame type chk data ptr ! i =
    (if i = 0 then logtype_byte type else if i = 1 then of_nat (length data)
     else if i < 8 then le_bytes 6 chk ! (i - 2) else if i < 16 then le_bytes 8 ptr ! (i - 8)
     else if i < 16 + length data then data ! (i - 16) else of_nat (length data))"
proof -
  consider "i = 0" | "i = 1" | "2 \<le> i \<and> i < 8" | "8 \<le> i \<and> i < 16" | "16 \<le> i \<and> i < 16 + length data"
    | "i = 16 + length data" using assms by linarith
  then show ?thesis by cases (auto simp: log_frame_def nth_append nth_Cons' numeral_2_eq_2)
qed

lemma ln_SetData_frame:
  assumes len: "len \<le> length src" "len + 17 \<le> 2 ^ 64"
  shows "ln_SetData XXH32 type src len ptr a m =
    mem_write a (log_frame type (ucast (hash_string XXH32 (Some src) (of_nat len))) (take len src) ptr) m"
    (is "?l = mem_write a (log_frame type ?chk _ _) m")
proof
  fix x
  define i where "i = unat (x - a)"
  have x: "x = a + of_nat i" by (simp add: i_def)
  have i: "i < 2 ^ 64" using unsigned_less [of "x - a", where 'a = nat] by (simp add: i_def)
  have w: "mem_write c bs m' (a + of_nat i) = (if j \<le> i \<and> i < j + length bs then bs ! (i - j) else m' (a + of_nat i))"
    if "c = a + of_nat j" "j + length bs \<le> 2 ^ 64" for c j bs m'
    unfolding that(1) by (rule mem_write_off [OF i that(2)])
  have c: "a = a + of_nat 0" "a + 8 = a + of_nat 8" "a + 16 = a + of_nat 16" "a + 2 = a + of_nat 2"
    "a + 16 + of_nat len = a + of_nat (16 + len)" by simp_all
  note ws = w [OF c(1)] w [OF c(2)] w [OF c(3)] w [OF c(4)] w [OF c(5)]
  have lens: "length (take len src) = len" using len by simp
  have e: "?l (a + of_nat i) =
      (if 16 + len \<le> i \<and> i < 16 + len + 1 then [of_nat len] ! (i - (16 + len))
       else if 2 \<le> i \<and> i < 2 + 6 then le_bytes 6 ?chk ! (i - 2)
       else if 16 \<le> i \<and> i < 16 + len then take len src ! (i - 16)
       else if 8 \<le> i \<and> i < 8 + 8 then le_bytes 8 ptr ! (i - 8)
       else if i < 2 then [logtype_byte type, of_nat len] ! i else m (a + of_nat i))"
    using len by (simp add: ln_SetData_def ws lens)
  consider "i = 0" | "i = 1" | "2 \<le> i \<and> i < 8" | "8 \<le> i \<and> i < 16" | "16 \<le> i \<and> i < 16 + len"
    | "i = 16 + len" | "16 + len < i" by linarith
  then have "?l (a + of_nat i) = (if i < 17 + len then log_frame type ?chk (take len src) ptr ! i else m (a + of_nat i))"
    unfolding e by cases (use len in \<open>simp_all add: lens log_frame_nth\<close>)
  then show "?l x = mem_write a (log_frame type ?chk (take len src) ptr) m x"
    unfolding x using len by (simp add: w [OF c(1)] lens)
qed

lemma log_Append_frame:
  assumes r: "log_rec_ok r"
  shows "\<exists>chk. log_Append XXH32 r ptr (m, l) =
    (logptr_make (lg_id l) (lg_tail l),
     mem_write (lg_start l + lg_tail l) (log_frame (log_rec_type r) chk (log_rec_data r) ptr) m,
     l\<lparr>lg_tail := lg_tail l + of_nat (17 + length (log_rec_data r))\<rparr>)"
proof (cases r)
  case (RecSlice type src len)
  then have l: "len \<le> length src" "len + 17 \<le> 2 ^ 64" using r by auto
  with RecSlice show ?thesis
    by (auto simp: log_AppendSlice_def Let_def ln_SetData_frame [OF l] min_def add.commute)
next
  case (RecKV type key val)
  then show ?thesis
    by (auto simp: log_AppendKV_def Let_def ln_SetKV_def log_frame_def)
qed

section \<open>Entries of the log\<close>

definition log_byte :: "mem \<times> log_t \<Rightarrow> nat \<Rightarrow> u8" where
  "log_byte s i = fst s (lg_start (snd s) + of_nat i)"

definition log_rec_size :: "log_rec \<times> u64 \<Rightarrow> nat" where
  "log_rec_size e = 17 + length (log_rec_data (fst e))"

text \<open>The frame of \<open>e\<close> (a record with its \<open>ptr_\<close>) is at offset \<open>i\<close>.\<close>

definition log_entry_at :: "mem \<times> log_t \<Rightarrow> nat \<Rightarrow> log_rec \<times> u64 \<Rightarrow> bool" where
  "log_entry_at s i e \<longleftrightarrow>
     256 \<le> i \<and> i + log_rec_size e \<le> 2 ^ 64 \<and> log_rec_ok (fst e) \<and>
     (\<exists>chk. \<forall>j < log_rec_size e.
        log_byte s (i + j) = log_frame (log_rec_type (fst e)) chk (log_rec_data (fst e)) (snd e) ! j)"

definition log_tail :: "mem \<times> log_t \<Rightarrow> nat" where
  "log_tail s = unat (lg_tail (snd s))"

definition log_limit :: "mem \<times> log_t \<Rightarrow> nat" where
  "log_limit s = unat (lg_size (snd s))"

definition log_room :: "log_rec \<times> u64 \<Rightarrow> mem \<times> log_t \<Rightarrow> bool" where
  "log_room e s \<longleftrightarrow> log_rec_ok (fst e) \<and> 256 \<le> log_tail s \<and> log_tail s + log_rec_size e \<le> log_limit s"

definition log_app :: "(u8 list \<Rightarrow> u32 \<Rightarrow> u32) \<Rightarrow> log_rec \<times> u64 \<Rightarrow> mem \<times> log_t \<Rightarrow> mem \<times> log_t" where
  "log_app XXH32 e s = snd (log_Append XXH32 (fst e) (snd e) s)"

definition log_fwd :: "mem \<times> log_t \<Rightarrow> nat \<Rightarrow> nat" where
  "log_fwd s i = unat (lit_inc (fst s) (lg_start (snd s)) (of_nat i))"

definition log_dec :: "mem \<times> log_t \<Rightarrow> nat \<Rightarrow> nat" where
  "log_dec s i = unat (lit_dec (fst s) (lg_start (snd s)) (of_nat i))"

definition log_bwd :: "mem \<times> log_t \<Rightarrow> nat \<Rightarrow> nat" where
  "log_bwd s i = (case lit_new (fst s) (of_nat i) (lg_start (snd s)) True of Some off \<Rightarrow> unat off | None \<Rightarrow> 0)"

lemma log_rec_ok_length: "log_rec_ok r \<Longrightarrow> length (log_rec_data r) < 256"
  by (cases r) auto

lemma log_entry_byte:
  assumes e: "log_entry_at s i (r, p)"
  shows "\<exists>chk. \<forall>j < 17 + length (log_rec_data r).
    fst s (lg_start (snd s) + of_nat i + of_nat j) = log_frame (log_rec_type r) chk (log_rec_data r) p ! j"
  using e by (auto simp: log_entry_at_def log_byte_def log_rec_size_def add.assoc)

lemma log_entry_fields:
  assumes e: "log_entry_at (m, l) i (r, p)"
  defines "a \<equiv> lg_start l + of_nat i"
  shows "ln_GetType m a = logtype_byte (log_rec_type r)"
    and "ln_GetDataSize m a = of_nat (length (log_rec_data r))"
    and "ln_GetDataSlice m a = log_rec_data r"
    and "ln_ptr m a = p"
    and "m (a + of_nat (16 + length (log_rec_data r))) = of_nat (length (log_rec_data r))"
proof -
  let ?n = "length (log_rec_data r)"
  have n: "?n < 256" using e log_rec_ok_length by (simp add: log_entry_at_def)
  obtain chk where f: "\<And>j. j < 17 + ?n \<Longrightarrow> m (a + of_nat j) = log_frame (log_rec_type r) chk (log_rec_data r) p ! j"
    using log_entry_byte [OF e] by (auto simp: a_def)
  show "ln_GetType m a = logtype_byte (log_rec_type r)"
    using f [of 0] by (simp add: ln_GetType_def log_frame_def)
  have "m (a + 1) = of_nat ?n" using f [of 1] by (simp add: log_frame_def)
  moreover have "unat (of_nat ?n :: u8) = ?n" using n by (simp add: unsigned_of_nat take_bit_nat_eq_self)
  ultimately show sz: "ln_GetDataSize m a = of_nat ?n"
    by (simp add: ln_GetDataSize_def) (metis of_nat_unat)
  have un: "unat (of_nat ?n :: u64) = ?n" using n by (intro unat_of_nat64) simp
  have "mem_read m (a + 16) ?n = log_rec_data r"
  proof (rule nth_equalityI)
    fix j assume "j < length (mem_read m (a + 16) ?n)"
    then have j: "j < ?n" by simp
    with f [of "16 + j"] show "mem_read m (a + 16) ?n ! j = log_rec_data r ! j"
      by (simp add: mem_read_def log_frame_nth add.assoc)
  qed simp
  then show "ln_GetDataSlice m a = log_rec_data r"
    by (simp add: ln_GetDataSlice_def sz un slice_make_def)
  have "mem_read m (a + 8) 8 = le_bytes 8 p"
  proof (rule nth_equalityI)
    fix j assume "j < length (mem_read m (a + 8) 8)"
    then have j: "j < 8" by simp
    with f [of "8 + j"] show "mem_read m (a + 8) 8 ! j = le_bytes 8 p ! j"
      by (simp add: mem_read_def log_frame_nth add.assoc)
  qed simp
  then show "ln_ptr m a = p" by (simp add: ln_ptr_def)
  show "m (a + of_nat (16 + ?n)) = of_nat ?n"
    using f [of "16 + ?n"] by (simp only: log_frame_nth) simp
qed

lemma log_entry_GetSize:
  assumes e: "log_entry_at (m, l) i (r, p)"
  shows "ln_GetSize m (lg_start l + of_nat i) = of_nat (log_rec_size (r, p))"
  by (simp add: ln_GetSize_def log_entry_fields(2) [OF e] log_rec_size_def)

lemma log_app_frame:
  assumes r: "log_room e s"
  shows "\<exists>chk. log_app XXH32 e s =
    (mem_write (lg_start (snd s) + of_nat (log_tail s)) (log_frame (log_rec_type (fst e)) chk (log_rec_data (fst e)) (snd e)) (fst s),
     (snd s)\<lparr>lg_tail := of_nat (log_tail s + log_rec_size e)\<rparr>)"
proof -
  obtain m l where s: "s = (m, l)" by fastforce
  have "log_rec_ok (fst e)" using r by (simp add: log_room_def)
  from log_Append_frame [OF this, of XXH32 "snd e" m l] show ?thesis
    by (auto simp: log_app_def s log_tail_def log_rec_size_def)
qed

lemma log_room_bound: "log_room e s \<Longrightarrow> log_tail s + log_rec_size e < 2 ^ 64"
  using unsigned_less [of "lg_size (snd s)", where 'a = nat] by (simp add: log_room_def log_limit_def)

lemma log_app_byte:
  assumes r: "log_room e s" and i: "i < 2 ^ 64"
  shows "\<exists>chk. log_byte (log_app XXH32 e s) i =
    (if log_tail s \<le> i \<and> i < log_tail s + log_rec_size e
     then log_frame (log_rec_type (fst e)) chk (log_rec_data (fst e)) (snd e) ! (i - log_tail s) else log_byte s i)"
proof -
  obtain chk where a: "log_app XXH32 e s =
    (mem_write (lg_start (snd s) + of_nat (log_tail s)) (log_frame (log_rec_type (fst e)) chk (log_rec_data (fst e)) (snd e)) (fst s),
     (snd s)\<lparr>lg_tail := of_nat (log_tail s + log_rec_size e)\<rparr>)" using log_app_frame [OF r] by blast
  have "log_tail s + length (log_frame (log_rec_type (fst e)) chk (log_rec_data (fst e)) (snd e)) \<le> 2 ^ 64"
    using log_room_bound [OF r] by (simp add: log_rec_size_def)
  from mem_write_off [OF i this, of "lg_start (snd s)" "fst s"] show ?thesis
    by (auto simp: a log_byte_def log_rec_size_def)
qed

lemma log_app_fields:
  assumes r: "log_room e s"
  shows "log_tail (log_app XXH32 e s) = log_tail s + log_rec_size e"
    "log_limit (log_app XXH32 e s) = log_limit s" "lg_start (snd (log_app XXH32 e s)) = lg_start (snd s)"
    "lg_id (snd (log_app XXH32 e s)) = lg_id (snd s)"
  using log_app_frame [OF r, of XXH32] log_room_bound [OF r]
  by (auto simp: log_tail_def log_limit_def unat_of_nat64 simp del: of_nat_add)

lemma log_entry_frame:
  assumes e: "log_entry_at s i e"
    and same: "\<And>j. i \<le> j \<Longrightarrow> j < i + log_rec_size e \<Longrightarrow> log_byte s' j = log_byte s j"
  shows "log_entry_at s' i e"
  using e same unfolding log_entry_at_def by (metis add_less_cancel_left le_add1)

lemma log_app_keep:
  assumes r: "log_room e s" and f: "log_entry_at s i f" "i + log_rec_size f \<le> log_tail s"
  shows "log_entry_at (log_app XXH32 e s) i f"
proof (rule log_entry_frame [OF f(1)])
  fix j assume "i \<le> j" "j < i + log_rec_size f"
  then have j: "j < log_tail s" "j < 2 ^ 64" using f(2) log_room_bound [OF r] by auto
  with log_app_byte [OF r j(2), of XXH32] show "log_byte (log_app XXH32 e s) j = log_byte s j" by auto
qed

lemma log_app_entry:
  assumes r: "log_room e s"
  shows "log_entry_at (log_app XXH32 e s) (log_tail s) e"
proof -
  let ?f = "\<lambda>chk. log_frame (log_rec_type (fst e)) chk (log_rec_data (fst e)) (snd e)"
  obtain chk where a: "log_app XXH32 e s =
    (mem_write (lg_start (snd s) + of_nat (log_tail s)) (?f chk) (fst s),
     (snd s)\<lparr>lg_tail := of_nat (log_tail s + log_rec_size e)\<rparr>)" using log_app_frame [OF r] by blast
  have b: "log_tail s + length (?f chk) \<le> 2 ^ 64" using log_room_bound [OF r] by (simp add: log_rec_size_def)
  have "log_byte (log_app XXH32 e s) (log_tail s + j) = ?f chk ! j" if "j < log_rec_size e" for j
    using mem_write_off [OF _ b, of "log_tail s + j" "lg_start (snd s)" "fst s"] that log_room_bound [OF r]
    by (simp add: a log_byte_def log_rec_size_def)
  moreover have "log_rec_ok (fst e)" "256 \<le> log_tail s" using r by (auto simp: log_room_def)
  ultimately show ?thesis
    unfolding log_entry_at_def using log_room_bound [OF r] by (intro conjI exI [of _ chk]) auto
qed

lemma log_entry_moves:
  assumes e: "log_entry_at s i e" and t: "i + log_rec_size e \<le> log_tail s"
  shows "log_fwd s i = i + log_rec_size e" and "log_bwd s (i + log_rec_size e) = i"
    and "log_rec_size e \<le> i \<Longrightarrow> log_dec s i = i - log_rec_size e"
proof -
  obtain m l r p where sl: "s = (m, l)" "e = (r, p)" by fastforce
  let ?sz = "log_rec_size e" and ?n = "length (log_rec_data r)"
  have tl: "i + ?sz < 2 ^ 64" using t unsigned_less [of "lg_tail (snd s)", where 'a = nat] by (simp add: log_tail_def)
  have i: "256 \<le> i" using e by (simp add: log_entry_at_def)
  note e' = e [unfolded sl]
  note g = log_entry_GetSize [OF e', folded sl(2)]
  show "log_fwd s i = i + ?sz"
    using tl by (simp only: log_fwd_def lit_inc_def lit_deref_def sl fst_conv snd_conv g [unfolded sl] flip: of_nat_add)
      (simp add: unat_of_nat64 del: of_nat_add)
  show "log_dec s i = i - ?sz" if "?sz \<le> i"
  proof -
    have "lit_dec m (lg_start l) (of_nat i) = of_nat (i - ?sz)"
      by (simp add: lit_dec_def lit_deref_def g of_nat_diff [OF that])
    moreover have "i - ?sz < 2 ^ 64" using tl by simp
    ultimately show ?thesis by (simp add: log_dec_def sl unat_of_nat64 del: of_nat_diff)
  qed
  have n: "?n < 256" using e' log_rec_ok_length by (simp add: log_entry_at_def)
  have sz: "?sz = 17 + ?n" by (simp add: sl log_rec_size_def)
  have eq: "lg_start l + of_nat (i + ?sz) - 1 = lg_start l + of_nat i + of_nat (16 + ?n)"
    by (simp add: sz)
  have last: "m (lg_start l + of_nat (i + ?sz) - 1) = of_nat ?n"
    unfolding eq by (rule log_entry_fields(5) [OF e'])
  have c: "(ucast (of_nat ?n :: u8) :: u64) = of_nat ?n"
    using n by (intro word_unat_eq_iff [THEN iffD2]) (simp add: unsigned_ucast_eq unsigned_of_nat take_bit_nat_eq_self)
  have ge: "\<not> of_nat (i + ?sz) < kLogMetaOffset"
    using i tl by (simp only: kLogMetaOffset_def word_less_nat_alt unat_of_nat64) simp
  have "lit_new m (of_nat (i + ?sz)) (lg_start l) True =
      Some (of_nat (i + ?sz) - 16 - ucast (m (lg_start l + of_nat (i + ?sz) - 1)) - 1)"
    using ge by (simp only: lit_new_def if_False not_True_eq_False)
  then have "lit_new m (of_nat (i + ?sz)) (lg_start l) True = Some (of_nat i)"
    unfolding last c by (simp add: sz)
  then show "log_bwd s (i + ?sz) = i"
    using tl by (simp add: log_bwd_def sl unat_of_nat64 del: of_nat_add)
qed

interpretation slog: framed_log log_rec_size log_tail log_limit log_room "log_app XXH32" log_entry_at
  "\<lambda>_. True" log_fwd log_bwd log_dec for XXH32
  by unfold_locales
    (auto simp: log_room_def log_app_fields log_app_entry log_app_keep log_entry_moves)

section \<open>Sequences of appends\<close>

primrec log_appends :: "(u8 list \<Rightarrow> u32 \<Rightarrow> u32) \<Rightarrow> (log_rec \<times> u64) list \<Rightarrow> mem \<times> log_t \<Rightarrow> mem \<times> log_t" where
  "log_appends XXH32 [] s = s"
| "log_appends XXH32 (e # es) s = log_appends XXH32 es (snd (log_Append XXH32 (fst e) (snd e) s))"

text \<open>All records are well formed and stay within the size of the log.\<close>

definition log_fits :: "log_rec list \<Rightarrow> mem \<times> log_t \<Rightarrow> bool" where
  "log_fits rs s \<longleftrightarrow> (\<forall>r \<in> set rs. log_rec_ok r) \<and> 256 \<le> log_tail s \<and>
     log_tail s + sum_list (map (\<lambda>r. 17 + length (log_rec_data r)) rs) \<le> log_limit s"

lemma log_fits_Cons:
  assumes "log_fits (r # rs) s"
  shows "log_room (r, p) s \<and> log_fits rs (log_app XXH32 (r, p) s)"
proof -
  have "log_room (r, p) s" using assms by (simp add: log_fits_def log_room_def log_rec_size_def)
  with assms show ?thesis by (simp add: log_fits_def log_app_fields) (simp add: log_rec_size_def)
qed

lemma log_appends_slog: "slog.appends XXH32 es s = log_appends XXH32 es s"
  by (induction es arbitrary: s) (auto simp: log_app_def)

lemma log_fits_rooms: "log_fits (map fst es) s \<Longrightarrow> slog.rooms XXH32 es s"
proof (induction es arbitrary: s)
  case (Cons e es)
  have "log_room e s \<and> log_fits (map fst es) (log_app XXH32 e s)"
    using log_fits_Cons [of "fst e" "map fst es" s "snd e" XXH32] Cons.prems by simp
  with Cons.IH show ?case by simp
qed simp

lemma log_appends_start: "log_fits (map fst es) s \<Longrightarrow>
    lg_start (snd (log_appends XXH32 es s)) = lg_start (snd s) \<and> lg_id (snd (log_appends XXH32 es s)) = lg_id (snd s)"
proof (induction es arbitrary: s)
  case (Cons e es)
  have r: "log_room e s" "log_fits (map fst es) (log_app XXH32 e s)"
    using log_fits_Cons [of "fst e" "map fst es" s "snd e" XXH32] Cons.prems by auto
  with Cons.IH [OF r(2)] log_app_fields [OF r(1), of XXH32] show ?case by (simp add: log_app_def)
qed simp

lemma iter_lit:
  fixes g :: "u64 \<Rightarrow> u64"
  assumes f: "\<And>x. f x = unat (g (of_nat x))"
  shows "(f ^^ i) (unat x) = unat ((g ^^ i) x)"
proof (induction i)
  case (Suc i)
  then have "(f ^^ Suc i) (unat x) = f (unat ((g ^^ i) x))" by simp
  also have "\<dots> = unat ((g ^^ Suc i) x)" unfolding f by simp
  finally show ?case .
qed simp

lemma log_fwd_iter: "((lit_inc m a) ^^ i) x = of_nat ((log_fwd (m, l\<lparr>lg_start := a\<rparr>) ^^ i) (unat x))"
  using iter_lit [of "log_fwd (m, l\<lparr>lg_start := a\<rparr>)" "lit_inc m a" i x] by (simp add: log_fwd_def)

lemma log_dec_iter: "((lit_dec m a) ^^ i) x = of_nat ((log_dec (m, l\<lparr>lg_start := a\<rparr>) ^^ i) (unat x))"
  using iter_lit [of "log_dec (m, l\<lparr>lg_start := a\<rparr>)" "lit_dec m a" i x] by (simp add: log_dec_def)

lemma log_rbegin_bwd: "256 \<le> log_tail s \<Longrightarrow> log_rbegin s = Some (of_nat (log_bwd s (log_tail s)))"
  by (cases s) (simp add: log_rbegin_def log_bwd_def log_tail_def lit_new_def kLogMetaOffset_def word_less_nat_alt)

text \<open>What a reader sees at an entry.\<close>

definition log_shows :: "mem \<Rightarrow> u64 \<Rightarrow> log_rec \<times> u64 \<Rightarrow> bool" where
  "log_shows m a e \<longleftrightarrow> ln_GetType m a = logtype_byte (log_rec_type (fst e)) \<and>
     ln_GetDataSlice m a = log_rec_data (fst e) \<and> ln_ptr m a = snd e"

lemma log_entry_shows: "log_entry_at s i e \<Longrightarrow> log_shows (fst s) (lg_start (snd s) + of_nat i) e"
  using log_entry_fields [of "fst s" "snd s" i "fst e" "snd e"] by (simp add: log_shows_def)

lemma log_entry_Valid:
  assumes e: "log_entry_at s i e" and t: "log_rec_type (fst e) \<noteq> kLogNodeFail"
  shows "lit_Valid (fst s) (lg_start (snd s)) (of_nat i)"
proof -
  have i: "256 \<le> i" "i < 2 ^ 64" using e by (auto simp: log_entry_at_def log_rec_size_def)
  have "kLogMetaOffset \<le> of_nat i"
    using i by (simp only: kLogMetaOffset_def word_le_nat_alt unat_of_nat64) simp
  moreover have "fst s (lg_start (snd s) + of_nat i) = logtype_byte (log_rec_type (fst e))"
    using log_entry_shows [OF e] by (simp add: log_shows_def ln_GetType_def)
  ultimately show ?thesis
    using t by (cases "log_rec_type (fst e)") (auto simp: lit_Valid_def lit_deref_def ln_Valid_def)
qed

section \<open>Properties\<close>

text \<open>
  C22: after any sequence of appends that stays within the log, the forward iterator started at the old
  tail stops at every appended record in order, each valid with its type, data and \<open>ptr_\<close>, and then
  stands exactly at the new tail.
\<close>

theorem log_forward_scan:
  assumes fits: "log_fits (map fst es) s" and types: "\<forall>e \<in> set es. log_rec_type (fst e) \<noteq> kLogNodeFail"
  shows "case log_appends XXH32 es s of (m, l) \<Rightarrow>
    (\<forall>i < length es.
       lit_Valid m (lg_start l) (((lit_inc m (lg_start l)) ^^ i) (lg_tail (snd s))) \<and>
       log_shows m (lit_deref (lg_start l) (((lit_inc m (lg_start l)) ^^ i) (lg_tail (snd s)))) (es ! i)) \<and>
    ((lit_inc m (lg_start l)) ^^ length es) (lg_tail (snd s)) = lg_tail l"
proof -
  obtain m l where S: "log_appends XXH32 es s = (m, l)" by fastforce
  have r: "slog.rooms XXH32 es s" by (rule log_fits_rooms [OF fits])
  have A: "slog.appends XXH32 es s = (m, l)" by (simp add: log_appends_slog S)
  have l: "l\<lparr>lg_start := lg_start l\<rparr> = l" by simp
  have it: "((lit_inc m (lg_start l)) ^^ i) (lg_tail (snd s)) = of_nat (slog.start s es i)" if "i \<le> length es" for i
    using slog.scan_forward [OF r that, unfolded A] log_fwd_iter [of i m "lg_start l" "lg_tail (snd s)" l]
    by (simp add: log_tail_def l)
  have "lit_Valid m (lg_start l) (of_nat (slog.start s es i)) \<and>
      log_shows m (lit_deref (lg_start l) (of_nat (slog.start s es i))) (es ! i)" if "i < length es" for i
  proof -
    have e: "log_entry_at (m, l) (slog.start s es i) (es ! i)"
      using slog.appends_entry [OF r that] by (simp add: A)
    with log_entry_Valid [OF e] log_entry_shows [OF e] types that show ?thesis by (simp add: lit_deref_def)
  qed
  moreover have "of_nat (slog.start s es (length es)) = lg_tail l"
    using slog.start_end [OF r] by (simp add: A log_tail_def)
  ultimately show ?thesis by (simp add: S it)
qed

definition log_sample :: "mem \<times> log_t" where
  "log_sample = ((\<lambda>_. 0), \<lparr>lg_id = 3, lg_size = 1024, lg_size_mask = 1023, lg_start = 4096, lg_tail = 256\<rparr>)"

theorem log_forward_scan_witness:
  "case log_appends (\<lambda>_ _. 0) [(RecKV kLogNodeValid 7 70, kEmptyLogPtr)] log_sample of (m, l) \<Rightarrow>
     lit_Valid m (lg_start l) 256 \<and>
     log_shows m (lit_deref (lg_start l) 256) (RecKV kLogNodeValid 7 70, kEmptyLogPtr) \<and>
     lit_inc m (lg_start l) 256 = lg_tail l"
proof -
  let ?es = "[(RecKV kLogNodeValid 7 70, kEmptyLogPtr)]"
  have "log_fits (map fst ?es) log_sample"
    by (simp add: log_fits_def log_sample_def log_tail_def log_limit_def)
  moreover have "\<forall>e \<in> set ?es. log_rec_type (fst e) \<noteq> kLogNodeFail" by simp
  moreover have "lg_tail (snd log_sample) = 256" by (simp add: log_sample_def)
  ultimately show ?thesis using log_forward_scan [of ?es log_sample "\<lambda>_ _. 0"]
    by (auto split: prod.splits simp del: log_appends.simps)
qed

text \<open>
  C25: a reverse scan (\<open>rbegin\<close>, then \<open>--\<close>) visits the appended records from the last to the first when
  all of them have the same size \<open>c\<close>, and if the log was empty before and \<open>c\<close> is at most 256 it then
  leaves the valid range.
\<close>

theorem log_reverse_scan:
  assumes fits: "log_fits (map fst es) s" and ne: "es \<noteq> []"
    and types: "\<forall>e \<in> set es. log_rec_type (fst e) \<noteq> kLogNodeFail"
    and same: "\<forall>e \<in> set es. log_rec_size e = c"
  shows "case log_appends XXH32 es s of (m, l) \<Rightarrow>
    \<exists>off. log_rbegin (m, l) = Some off \<and>
      (\<forall>j < length es.
         lit_Valid m (lg_start l) (((lit_dec m (lg_start l)) ^^ j) off) \<and>
         log_shows m (lit_deref (lg_start l) (((lit_dec m (lg_start l)) ^^ j) off)) (es ! (length es - 1 - j))) \<and>
      (lg_tail (snd s) = 256 \<and> c \<le> 256 \<longrightarrow> \<not> lit_Valid m (lg_start l) (((lit_dec m (lg_start l)) ^^ length es) off))"
proof -
  obtain m l where S: "log_appends XXH32 es s = (m, l)" by fastforce
  have r: "slog.rooms XXH32 es s" by (rule log_fits_rooms [OF fits])
  have A: "slog.appends XXH32 es s = (m, l)" by (simp add: log_appends_slog S)
  have l: "l\<lparr>lg_start := lg_start l\<rparr> = l" by simp
  let ?n = "length es" let ?o = "slog.start s es (length es - 1)"
  have last: "?n - 1 < ?n" using ne by simp
  have entry: "log_entry_at (m, l) (slog.start s es i) (es ! i)" if "i < ?n" for i
    using slog.appends_entry [OF r that] by (simp add: A)
  have small: "slog.start s es i < 2 ^ 64" if "i < ?n" for i
    using entry [OF that] by (simp add: log_entry_at_def log_rec_size_def)
  have "log_bwd (m, l) (log_tail (m, l)) = ?o" using slog.scan_last [OF r ne] by (simp add: A)
  moreover have "256 \<le> log_tail (m, l)"
    using slog.start_le [OF r last] entry [OF last] by (simp add: A log_entry_at_def)
  ultimately have rb: "log_rbegin (m, l) = Some (of_nat ?o)" by (simp only: log_rbegin_bwd)
  have it: "((lit_dec m (lg_start l)) ^^ j) (of_nat ?o) = of_nat (slog.start s es (?n - 1 - j))" if "j < ?n" for j
  proof -
    have u: "unat (of_nat ?o :: u64) = ?o" by (rule unat_of_nat64 [OF small [OF last]])
    have d: "(log_dec (m, l) ^^ j) ?o = slog.start s es (?n - 1 - j)"
      using slog.scan_reverse [OF r _ that, of c] same by (simp only: A)
    show ?thesis by (simp only: log_dec_iter [of j m "lg_start l" "of_nat ?o" l] l u d)
  qed
  have vis: "lit_Valid m (lg_start l) (((lit_dec m (lg_start l)) ^^ j) (of_nat ?o)) \<and>
      log_shows m (lit_deref (lg_start l) (((lit_dec m (lg_start l)) ^^ j) (of_nat ?o))) (es ! (?n - 1 - j))"
    if j: "j < ?n" for j
  proof -
    have k: "?n - 1 - j < ?n" using j by simp
    from log_entry_Valid [OF entry [OF k]] log_entry_shows [OF entry [OF k]] types k
    show ?thesis unfolding it [OF j] lit_deref_def by simp
  qed
  have "\<not> lit_Valid m (lg_start l) (((lit_dec m (lg_start l)) ^^ ?n) (of_nat ?o))"
    if t: "lg_tail (snd s) = 256" and c: "c \<le> 256"
  proof -
    have s0: "slog.start s es 0 = 256" using t by (simp add: slog.start_def log_tail_def)
    have n: "?n = Suc (?n - 1)" using ne by simp
    have "((lit_dec m (lg_start l)) ^^ ?n) (of_nat ?o) = lit_dec m (lg_start l) (of_nat 256)"
      by (subst n) (simp only: funpow.simps comp_apply it [OF last] diff_self_eq_0 s0)
    moreover have "0 < ?n" using ne by simp
    have "log_dec (m, l) 256 = 256 - log_rec_size (es ! 0)"
      by (rule log_entry_moves(3) [OF entry [OF \<open>0 < ?n\<close>, unfolded s0]])
        (use slog.start_le [OF r \<open>0 < ?n\<close>] same \<open>0 < ?n\<close> c s0 in \<open>auto simp: A\<close>)
    then have "unat (lit_dec m (lg_start l) (of_nat 256)) < 256"
      by (simp add: log_dec_def log_rec_size_def)
    ultimately show ?thesis
      by (simp add: lit_Valid_def kLogMetaOffset_def word_le_nat_alt)
  qed
  with vis rb show ?thesis by (simp add: S)
qed

theorem log_reverse_scan_witness:
  "case log_appends (\<lambda>_ _. 0) [(RecKV kLogNodeValid 7 70, kEmptyLogPtr), (RecKV kLogNodeValid 8 80, kEmptyLogPtr)] log_sample of (m, l) \<Rightarrow>
    \<exists>off. log_rbegin (m, l) = Some off \<and>
      log_shows m (lit_deref (lg_start l) off) (RecKV kLogNodeValid 8 80, kEmptyLogPtr) \<and>
      log_shows m (lit_deref (lg_start l) (lit_dec m (lg_start l) off)) (RecKV kLogNodeValid 7 70, kEmptyLogPtr) \<and>
      \<not> lit_Valid m (lg_start l) (lit_dec m (lg_start l) (lit_dec m (lg_start l) off))"
proof -
  let ?es = "[(RecKV kLogNodeValid 7 70, kEmptyLogPtr), (RecKV kLogNodeValid 8 80, kEmptyLogPtr)]"
  have "log_fits (map fst ?es) log_sample"
    by (simp add: log_fits_def log_sample_def log_tail_def log_limit_def)
  moreover have "?es \<noteq> []" "\<forall>e \<in> set ?es. log_rec_type (fst e) \<noteq> kLogNodeFail" "\<forall>e \<in> set ?es. log_rec_size e = 33"
    by (simp_all add: log_rec_size_def)
  moreover have "lg_tail (snd log_sample) = 256" by (simp add: log_sample_def)
  ultimately show ?thesis using log_reverse_scan [of ?es log_sample 33 "\<lambda>_ _. 0"]
    by (fastforce split: prod.splits simp: numeral_2_eq_2 simp del: log_appends.simps)
qed

text \<open>
  C32: with records of different sizes \<open>--\<close> misses the previous record: it subtracts the size of the
  record it stands on. Two records of different sizes are enough.
\<close>

theorem log_reverse_mixed_sizes:
  assumes fits: "log_fits (map fst [e1, e2]) s" and differ: "log_rec_size e1 \<noteq> log_rec_size e2"
    and small: "log_rec_size e2 \<le> log_tail s"
  shows "case log_appends XXH32 [e1, e2] s of (m, l) \<Rightarrow>
    \<exists>off. log_rbegin (m, l) = Some off \<and> log_shows m (lit_deref (lg_start l) off) e2 \<and>
      lit_dec m (lg_start l) off \<noteq> lg_tail (snd s)"
proof -
  let ?es = "[e1, e2]"
  obtain m l where S: "log_appends XXH32 ?es s = (m, l)" by fastforce
  have r: "slog.rooms XXH32 ?es s" by (rule log_fits_rooms [OF fits])
  have A: "slog.appends XXH32 ?es s = (m, l)" unfolding log_appends_slog by (rule S)
  let ?o = "slog.start s ?es 1"
  have o: "?o = log_tail s + log_rec_size e1" by (simp add: slog.start_def)
  have e: "log_entry_at (m, l) ?o e2" using slog.appends_entry [OF r, of 1] unfolding A by simp
  have le: "?o + log_rec_size e2 \<le> log_tail (m, l)" using slog.start_le [OF r, of 1] unfolding A by simp
  have "log_bwd (m, l) (log_tail (m, l)) = ?o" using slog.scan_last [OF r] unfolding A by simp
  moreover have "256 \<le> log_tail (m, l)" using le e by (simp add: log_entry_at_def)
  ultimately have rb: "log_rbegin (m, l) = Some (of_nat ?o)" by (simp only: log_rbegin_bwd)
  have "log_dec (m, l) ?o = ?o - log_rec_size e2"
    by (rule log_entry_moves(3) [OF e le]) (use small o in simp)
  also have "\<dots> \<noteq> log_tail s" using differ small o by simp
  finally have "lit_dec m (lg_start l) (of_nat ?o) \<noteq> lg_tail (snd s)"
    by (auto simp: log_dec_def log_tail_def)
  with rb log_entry_shows [OF e] show ?thesis by (simp add: S lit_deref_def del: log_appends.simps)
qed

theorem log_reverse_mixed_sizes_witness:
  "case log_appends (\<lambda>_ _. 0) [(RecSlice kLogNodeValid [1] 1, kEmptyLogPtr), (RecKV kLogNodeValid 8 80, kEmptyLogPtr)] log_sample of (m, l) \<Rightarrow>
    \<exists>off. log_rbegin (m, l) = Some off \<and> lit_dec m (lg_start l) off \<noteq> 256"
proof -
  let ?es = "[(RecSlice kLogNodeValid [1] 1, kEmptyLogPtr), (RecKV kLogNodeValid 8 80, kEmptyLogPtr)]"
  have "log_fits (map fst ?es) log_sample"
    by (simp add: log_fits_def log_sample_def log_tail_def log_limit_def)
  from log_reverse_mixed_sizes [OF this, of "\<lambda>_ _. 0"] show ?thesis
    by (auto simp: log_rec_size_def log_tail_def log_sample_def split: prod.splits simp del: log_appends.simps)
qed

section \<open>The linked list of a buffer\<close>

text \<open>
  A client with many buffers keeps one head pointer per buffer (\<open>logptr_\<close> of a write-buffer node) and
  appends each record with the buffer's current head as its \<open>ptr_\<close>.
\<close>

primrec log_session :: "(u8 list \<Rightarrow> u32 \<Rightarrow> u32) \<Rightarrow> (nat \<times> log_rec) list \<Rightarrow>
    (mem \<times> log_t) \<times> (nat \<Rightarrow> u64) \<Rightarrow> (mem \<times> log_t) \<times> (nat \<Rightarrow> u64)" where
  "log_session XXH32 [] st = st"
| "log_session XXH32 (x # xs) st =
     (case log_Append XXH32 (snd x) (snd st (fst x)) (fst st) of
        (p, s') \<Rightarrow> log_session XXH32 xs (s', (snd st)(fst x := p)))"

text \<open>Following \<open>ListNext\<close> from a pointer; None is a walk that is longer than the fuel or leaves the base table.\<close>

fun log_list :: "nat \<Rightarrow> u64 list \<Rightarrow> mem \<Rightarrow> vaddr \<Rightarrow> u64 list option" where
  "log_list fuel base m NullPtr = Some []"
| "log_list fuel base m BadLogId = None"
| "log_list 0 base m (VAddr a) = None"
| "log_list (Suc fuel) base m (VAddr a) = map_option ((#) a) (log_list fuel base m (ln_ListNext base m a))"

fun log_chain :: "mem \<times> log_t \<Rightarrow> u64 \<Rightarrow> log_rec list \<Rightarrow> bool" where
  "log_chain s p [] \<longleftrightarrow> p = kEmptyLogPtr"
| "log_chain s p (r # rs) \<longleftrightarrow>
     (\<exists>i q. p = logptr_make (lg_id (snd s)) (of_nat i) \<and> log_entry_at s i (r, q) \<and>
        i + log_rec_size (r, q) \<le> log_tail s \<and> log_chain s q rs)"

lemma log_chain_app:
  assumes r: "log_room e s"
  shows "log_chain s p rs \<Longrightarrow> log_chain (log_app XXH32 e s) p rs"
proof (induction rs arbitrary: p)
  case (Cons x rs)
  then obtain i q where i: "p = logptr_make (lg_id (snd s)) (of_nat i)" "log_entry_at s i (x, q)"
    "i + log_rec_size (x, q) \<le> log_tail s" "log_chain s q rs" by auto
  have "log_entry_at (log_app XXH32 e s) i (x, q)" by (rule log_app_keep [OF r i(2,3)])
  with i Cons.IH [OF i(4)] log_app_fields [OF r, of XXH32] show ?case by (auto intro!: exI [of _ i] exI [of _ q])
qed simp

lemma log_Append_ptr: "fst (log_Append XXH32 r p s) = logptr_make (lg_id (snd s)) (lg_tail (snd s))"
  by (cases r; cases s) (auto simp: log_AppendSlice_def log_AppendKV_def Let_def)

lemma log_chain_new:
  assumes r: "log_room (x, p) s" and c: "log_chain s p rs"
  shows "log_chain (log_app XXH32 (x, p) s) (fst (log_Append XXH32 x p s)) (x # rs)"
  using log_app_entry [OF r, of XXH32] log_chain_app [OF r c, of XXH32] log_app_fields [OF r, of XXH32]
  by (auto simp: log_Append_ptr log_tail_def intro!: exI [of _ "unat (lg_tail (snd s))"] exI [of _ p])

lemma log_session_chain:
  assumes "log_fits (map snd xs) s" "\<And>b. log_chain s (h b) (hist b)"
    and "log_session XXH32 xs (s, h) = (s', h')"
  shows "log_chain s' (h' b) (rev (map snd (filter (\<lambda>x. fst x = b) xs)) @ hist b) \<and>
    lg_id (snd s') = lg_id (snd s) \<and> log_limit s' = log_limit s \<and> log_tail s' \<le> log_limit s \<and>
    lg_start (snd s') = lg_start (snd s)"
  using assms
proof (induction xs arbitrary: s h hist)
  case Nil
  then show ?case by (auto simp: log_fits_def)
next
  case (Cons x xs)
  obtain a r where x: "x = (a, r)" by fastforce
  let ?s = "log_app XXH32 (r, h a) s"
  let ?p = "fst (log_Append XXH32 r (h a) s)"
  have f: "log_room (r, h a) s" "log_fits (map snd xs) ?s"
    using log_fits_Cons [of r "map snd xs" s "h a" XXH32] Cons.prems(1) by (auto simp: x)
  have step: "log_session XXH32 xs (?s, h(a := ?p)) = (s', h')"
    using Cons.prems(3) by (simp add: x log_app_def split: prod.splits)
  have "log_chain ?s ((h(a := ?p)) c) ((hist(a := r # hist a)) c)" for c
    using log_chain_new [OF f(1) Cons.prems(2)] log_chain_app [OF f(1) Cons.prems(2)] by simp
  from Cons.IH [OF f(2) this step] log_app_fields [OF f(1), of XXH32] show ?case
    by (auto simp: x)
qed

lemma logptr_fields:
  assumes "unat off < 2 ^ 48"
  shows "logptr_getOffset (logptr_make lid off) = off \<and> logptr_getLogID (logptr_make lid off) = lid"
proof -
  have eq: "(0xFFFFFFFFFFFF :: u64) = mask 48" by (simp add: mask_eq_exp_minus_1)
  have m: "bit (mask 48 :: u64) n \<longleftrightarrow> n < 48" for n by (simp only: bit_mask_iff) auto
  have hi: "n < 48" if "bit off n" for n
  proof -
    have "off = take_bit 48 off"
      using assms by (intro word_unat_eq_iff [THEN iffD2]) (simp add: unsigned_take_bit_eq take_bit_nat_eq_self)
    then show ?thesis using that by (metis bit_take_bit_iff)
  qed
  have "logptr_getOffset (logptr_make lid off) = off"
    unfolding logptr_getOffset_def logptr_make_def eq
    by (rule bit_word_eqI) (auto simp: bitset_simps m bit_push_bit_iff dest: hi)
  moreover have "logptr_getLogID (logptr_make lid off) = lid"
    unfolding logptr_getLogID_def logptr_make_def eq
    by (rule bit_word_eqI) (auto simp: bitset_simps m bit_push_bit_iff bit_drop_bit_eq)
  ultimately show ?thesis by simp
qed

text \<open>The log mapped at another address: same bytes, relocated base.\<close>

definition log_mapped :: "mem \<times> log_t \<Rightarrow> u64 list \<Rightarrow> mem \<Rightarrow> bool" where
  "log_mapped s base m \<longleftrightarrow> unat (lg_id (snd s)) < length base \<and> length base \<le> 64 \<and> log_limit s \<le> 2 ^ 48 \<and>
     (\<forall>i < log_limit s. m (base ! unat (lg_id (snd s)) + of_nat i) = log_byte s i)"

lemma log_mapped_vaddr:
  assumes m: "log_mapped s base m" and i: "i < 2 ^ 48"
  shows "logptr_vaddr base (logptr_make (lg_id (snd s)) (of_nat i)) = VAddr (base ! unat (lg_id (snd s)) + of_nat i)"
proof -
  have "unat (of_nat i :: u64) < 2 ^ 48" using i by (simp add: unat_of_nat64)
  note f = logptr_fields [OF this, of "lg_id (snd s)"]
  have id: "unat (lg_id (snd s)) < length base" "length base \<le> 64" using m by (auto simp: log_mapped_def)
  have "logptr_getLogID kEmptyLogPtr = 0xFFFF" by (simp add: logptr_getLogID_def kEmptyLogPtr_def drop_bit_eq_div)
  then have "logptr_make (lg_id (snd s)) (of_nat i) \<noteq> kEmptyLogPtr"
    using f id by auto
  with f id show ?thesis by (simp add: logptr_vaddr_def logptr_bool_def)
qed

lemma log_chain_list:
  assumes m: "log_mapped s base m" and t: "log_tail s \<le> log_limit s"
  shows "log_chain s p rs \<Longrightarrow> length rs \<le> fuel \<Longrightarrow>
    \<exists>as. log_list fuel base m (logptr_vaddr base p) = Some as \<and>
      map (\<lambda>a. (ln_GetType m a, ln_GetDataSlice m a)) as = map (\<lambda>r. (logtype_byte (log_rec_type r), log_rec_data r)) rs"
proof (induction rs arbitrary: p fuel)
  case Nil
  then show ?case by (simp add: logptr_vaddr_def logptr_bool_def)
next
  case (Cons r rs)
  then obtain i q where i: "p = logptr_make (lg_id (snd s)) (of_nat i)" "log_entry_at s i (r, q)"
    "i + log_rec_size (r, q) \<le> log_tail s" "log_chain s q rs" by auto
  obtain n where n: "fuel = Suc n" "length rs \<le> n" using Cons.prems(2) by (cases fuel) auto
  let ?b = "base ! unat (lg_id (snd s))"
  have lim: "i + log_rec_size (r, q) \<le> log_limit s" "log_limit s \<le> 2 ^ 48"
    using i(3) t m by (auto simp: log_mapped_def)
  then have small: "i < 2 ^ 48" by (simp add: log_rec_size_def)
  have e: "log_entry_at (m, (snd s)\<lparr>lg_start := ?b\<rparr>) i (r, q)"
    by (rule log_entry_frame [OF i(2)]) (use m lim in \<open>auto simp: log_mapped_def log_byte_def\<close>)
  note sh = log_entry_shows [OF e, unfolded log_shows_def, simplified]
  obtain as where as: "log_list n base m (logptr_vaddr base q) = Some as"
    "map (\<lambda>a. (ln_GetType m a, ln_GetDataSlice m a)) as = map (\<lambda>r. (logtype_byte (log_rec_type r), log_rec_data r)) rs"
    using Cons.IH [OF i(4) n(2)] by blast
  have "log_list fuel base m (logptr_vaddr base p) = Some ((?b + of_nat i) # as)"
    using as(1) sh by (simp add: i(1) log_mapped_vaddr [OF m small] n(1) ln_ListNext_def)
  with as(2) sh show ?case by simp
qed

text \<open>
  C15: recovery through the linked lists. After any interleaving of appends by any number of buffers,
  the log can be mapped anywhere (the base table says where): following \<open>ListNext\<close> from a buffer's head
  pointer yields exactly the records of that buffer, newest first, with type and data, and stops.
\<close>

theorem log_recover_chain:
  assumes "log_fits (map snd xs) s" and "log_session XXH32 xs (s, \<lambda>_. kEmptyLogPtr) = (s', h)"
    and "log_mapped s' base m" and "length xs \<le> fuel"
  shows "\<exists>as. log_list fuel base m (logptr_vaddr base (h b)) = Some as \<and>
    map (\<lambda>a. (ln_GetType m a, ln_GetDataSlice m a)) as =
      map (\<lambda>r. (logtype_byte (log_rec_type r), log_rec_data r)) (rev (map snd (filter (\<lambda>x. fst x = b) xs)))"
proof -
  have c: "log_chain s' (h b) (rev (map snd (filter (\<lambda>x. fst x = b) xs)) @ [])" "log_tail s' \<le> log_limit s'"
    using log_session_chain [OF assms(1) _ assms(2), of "\<lambda>_. []" b] by auto
  have "length (rev (map snd (filter (\<lambda>x. fst x = b) xs)) @ []) \<le> fuel"
    using assms(4) by (simp add: order_trans [OF length_filter_le])
  from log_chain_list [OF assms(3) c(2,1) this] show ?thesis by simp
qed

definition log_sample_image :: "mem" where
  "log_sample_image = (\<lambda>x. fst (fst (log_session (\<lambda>_ _. 0)
     [(0, RecKV kLogNodeValid 7 70), (1, RecKV kLogNodeValid 8 80), (0, RecSlice kLogNodeLinkEnd [5, 6] 2)]
     (log_sample, \<lambda>_. kEmptyLogPtr))) (x - 8192 + 4096))"

theorem log_recover_chain_witness:
  "case log_session (\<lambda>_ _. 0)
     [(0, RecKV kLogNodeValid 7 70), (1, RecKV kLogNodeValid 8 80), (0, RecSlice kLogNodeLinkEnd [5, 6] 2)]
     (log_sample, \<lambda>_. kEmptyLogPtr) of (s', h) \<Rightarrow>
   \<exists>as. log_list 3 [0, 0, 0, 8192] log_sample_image (logptr_vaddr [0, 0, 0, 8192] (h 0)) = Some as \<and>
     map (\<lambda>a. (ln_GetType log_sample_image a, ln_GetDataSlice log_sample_image a)) as =
       [(0x11, [5, 6]), (0x10, le_bytes 8 7 @ le_bytes 8 70)]"
proof -
  let ?xs = "[(0, RecKV kLogNodeValid 7 70), (1, RecKV kLogNodeValid 8 80), (0, RecSlice kLogNodeLinkEnd [5, 6] 2)]"
  obtain s' h where r: "log_session (\<lambda>_ _. 0) ?xs (log_sample, \<lambda>_. kEmptyLogPtr) = (s', h)" by fastforce
  have f: "log_fits (map snd ?xs) log_sample"
    by (simp add: log_fits_def log_sample_def log_tail_def log_limit_def)
  have c: "lg_id (snd s') = 3 \<and> log_limit s' = 1024 \<and> lg_start (snd s') = 4096"
    using log_session_chain [OF f _ r, of "\<lambda>_. []"] by (simp add: log_sample_def log_limit_def)
  have img: "log_sample_image x = fst s' (x - 8192 + 4096)" for x
    unfolding log_sample_image_def r by simp
  have "log_mapped s' [0, 0, 0, 8192] log_sample_image"
    using c by (simp add: log_mapped_def img log_byte_def) (simp add: add.commute)
  from log_recover_chain [OF f r this, of 3 0] show ?thesis
    unfolding r by simp
qed

lemma mem_read_cong: "(\<And>i. i < n \<Longrightarrow> m (a + of_nat i) = m' (a + of_nat i)) \<Longrightarrow> mem_read m a n = mem_read m' a n"
  by (simp add: mem_read_def)

lemma log_byte_read:
  "mem_read (fst s) (lg_start (snd s) + of_nat k) n = map (\<lambda>i. log_byte s (k + i)) [0..<n]"
  by (simp add: mem_read_def log_byte_def add.assoc)

lemma log_appends_meta:
  "log_fits (map fst es) s \<Longrightarrow> i < 256 \<Longrightarrow> log_byte (log_appends XXH32 es s) i = log_byte s i"
proof (induction es arbitrary: s)
  case (Cons e es)
  have r: "log_room e s" "log_fits (map fst es) (log_app XXH32 e s)"
    using log_fits_Cons [of "fst e" "map fst es" s "snd e" XXH32] Cons.prems by auto
  have "log_byte (log_app XXH32 e s) i = log_byte s i"
    using log_app_byte [OF r(1), of i XXH32] Cons.prems(2) r(1) by (auto simp: log_room_def)
  with Cons.IH [OF r(2) Cons.prems(2)] show ?case by (simp add: log_app_def)
qed simp

text \<open>
  C24: reopening. If a log is created, records are appended within its size and the tail is committed,
  then \<open>Open\<close> on that memory restores the size and the committed tail, and every record is still there.
\<close>

theorem log_reopen:
  assumes created: "log_Create logid addr sz l0 w = Some (True, l, w1)"
    and fits: "log_fits (map fst es) (lw_mem w1, l)"
  shows "case log_appends XXH32 es (lw_mem w1, l) of (m, l') \<Rightarrow>
    \<exists>l2 w2. log_Open logid addr (log_new garbage) (w1\<lparr>lw_mem := log_CommitTail l' m\<rparr>) = Some (l2, w2) \<and>
      lg_size l2 = sz \<and> lg_tail l2 = lg_tail l' \<and> lg_start l2 = addr \<and>
      (\<forall>i < length es. log_shows (lw_mem w2) (addr + of_nat (slog.start (lw_mem w1, l) es i)) (es ! i))"
proof -
  let ?s = "(lw_mem w1, l)"
  obtain m l' where S: "log_appends XXH32 es ?s = (m, l')" by fastforce
  have r: "slog.rooms XXH32 es ?s" by (rule log_fits_rooms [OF fits])
  have A: "slog.appends XXH32 es ?s = (m, l')" by (simp add: log_appends_slog S)
  obtain base where base: "logptr_RegistertBaseAddress logid addr (lw_base w) = Some base" "lw_base w1 = base"
    and l: "lg_start l = addr" "lg_size l = sz"
    and m1: "lw_mem w1 = mem_write (addr + 8) (le_bytes 8 kLogMetaOffset) (mem_write addr (le_bytes 8 sz) (lw_mem w))"
    using created by (auto simp: log_Create_def split: if_splits option.splits)
  have l': "lg_start l' = addr" using log_appends_start [OF fits, of XXH32] l by (simp add: S)
  have base2: "logptr_RegistertBaseAddress logid addr (lw_base w1) = Some base"
  proof -
    have b: "unat logid < length (lw_base w)" "base = (lw_base w)[unat logid := addr]"
      using base(1) by (auto simp: logptr_RegistertBaseAddress_def split: if_splits)
    show ?thesis unfolding base(2) using b(1) by (simp add: logptr_RegistertBaseAddress_def b(2))
  qed
  let ?m' = "log_CommitTail l' m"
  have wr: "?m' (addr + of_nat i) = (if 8 \<le> i \<and> i < 16 then le_bytes 8 (lg_tail l') ! (i - 8) else m (addr + of_nat i))"
    if "i < 2 ^ 64" for i
    using mem_write_off [OF that, of 8 "le_bytes 8 (lg_tail l')" addr m] by (simp add: log_CommitTail_def l')
  have "mem_read ?m' addr 8 = le_bytes 8 sz"
  proof (rule nth_equalityI)
    fix i assume "i < length (mem_read ?m' addr 8)"
    then have i: "i < 8" by simp
    then have "?m' (addr + of_nat i) = log_byte (log_appends XXH32 es ?s) i"
      using wr [of i] by (simp add: S log_byte_def l')
    also have "\<dots> = log_byte ?s i" using log_appends_meta [OF fits] i by simp
    also have "\<dots> = le_bytes 8 sz ! i"
      using i mem_write_off [of i 8 "le_bytes 8 kLogMetaOffset" addr] mem_write_off [of i 0 "le_bytes 8 sz" addr]
      by (simp add: log_byte_def l m1)
    finally show "mem_read ?m' addr 8 ! i = le_bytes 8 sz ! i" using i by (simp add: mem_read_def)
  qed simp
  then have sz: "load_le (mem_read ?m' addr 8) = sz" by simp
  have "mem_read ?m' (addr + 8) 8 = le_bytes 8 (lg_tail l')"
    by (simp add: log_CommitTail_def l' mem_read_write)
  then have tl: "load_le (mem_read ?m' (addr + 8) 8) = lg_tail l'" by simp
  have "log_shows ?m' (addr + of_nat (slog.start ?s es i)) (es ! i)" if i: "i < length es" for i
  proof -
    have e: "log_entry_at (m, l') (slog.start ?s es i) (es ! i)" using slog.appends_entry [OF r i] by (simp add: A)
    have "log_entry_at (?m', l') (slog.start ?s es i) (es ! i)"
      by (rule log_entry_frame [OF e]) (use e wr in \<open>auto simp: log_byte_def l' log_entry_at_def\<close>)
    from log_entry_shows [OF this] show ?thesis by (simp add: l')
  qed
  with sz tl base2 show ?thesis by (simp add: S log_Open_def Let_def)
qed

definition log_world_sample :: log_world where
  "log_world_sample = \<lparr>lw_mem = (\<lambda>_. 0), lw_base = replicate 64 0, lw_global_id = 0, lw_thread_log = None\<rparr>"

theorem log_reopen_witness:
  "\<exists>l w1. log_Create 0 4096 1024 (log_new 9) log_world_sample = Some (True, l, w1) \<and>
    (case log_appends (\<lambda>_ _. 0) [(RecKV kLogNodeValid 7 70, kEmptyLogPtr)] (lw_mem w1, l) of (m, l') \<Rightarrow>
      \<exists>l2 w2. log_Open 0 4096 (log_new 9) (w1\<lparr>lw_mem := log_CommitTail l' m\<rparr>) = Some (l2, w2) \<and>
        lg_size l2 = 1024 \<and> log_shows (lw_mem w2) (4096 + 256) (RecKV kLogNodeValid 7 70, kEmptyLogPtr))"
proof -
  let ?es = "[(RecKV kLogNodeValid 7 70, kEmptyLogPtr)]"
  obtain l w1 where c: "log_Create 0 4096 1024 (log_new 9) log_world_sample = Some (True, l, w1)"
    and l: "lg_tail l = 256" "lg_size l = 1024"
    by (simp add: log_Create_def log_world_sample_def logptr_RegistertBaseAddress_def kLogMetaOffset_def)
  have f: "log_fits (map fst ?es) (lw_mem w1, l)"
    by (simp add: log_fits_def log_tail_def log_limit_def l)
  have "slog.start (lw_mem w1, l) ?es 0 = 256" by (simp add: slog.start_def log_tail_def l)
  with log_reopen [OF c f, where ?XXH32.0 = "\<lambda>_ _. 0" and garbage = 9] c show ?thesis
    by (fastforce split: prod.splits simp del: log_appends.simps)
qed

end
