(* ===== verification/Wal.thy ===== *)
theory Wal
  imports ByteMem
begin

text \<open>
  \<open>spoton-tree/wal.h\<close> and \<open>spoton-tree/wal.cc\<close>: the write-ahead log of the SPTree. A node is packed to
  15 bytes of header (next pointer, type, size, checksum), its data and one trailing size byte. What is
  not in the repository is a parameter, collected in \<open>wal_env\<close>: the hash \<open>XXH3_64bits\<close>, the persistent
  pointer \<open>pptr\<close> of ralloc (how a pointer is stored in a field at an address and loaded from it), and
  the address and stray byte of the stack buffer that the key-value \<open>SetData\<close> copies from.
\<close>

record wal_env =
  we_XXH3 :: "u8 list \<Rightarrow> u64"
  we_store :: "u64 \<Rightarrow> u64 \<Rightarrow> u64"
  we_load :: "u64 \<Rightarrow> u64 \<Rightarrow> u64"
  we_buf :: u64
  we_pad :: u8

section \<open>WALNode\<close>

datatype WALNodeType = kWALNodeInsert | kWALNodeRemove | kWALNodeLinkEnd | kWALNodeCheckpoint | kWALNodeEnd

primrec waltype_byte :: "WALNodeType \<Rightarrow> u8" where
  "waltype_byte kWALNodeInsert = 0x10"
| "waltype_byte kWALNodeRemove = 0x11"
| "waltype_byte kWALNodeLinkEnd = 0x12"
| "waltype_byte kWALNodeCheckpoint = 0x13"
| "waltype_byte kWALNodeEnd = 0x14"

definition wn_NextOnList :: "wal_env \<Rightarrow> mem \<Rightarrow> u64 \<Rightarrow> u64" where
  "wn_NextOnList env m a = we_load env a (load_le (mem_read m a 8))"

definition wn_GetType :: "mem \<Rightarrow> u64 \<Rightarrow> u8" where
  "wn_GetType m a = m (a + 8)"

definition wn_GetDataSize :: "mem \<Rightarrow> u64 \<Rightarrow> u64" where
  "wn_GetDataSize m a = ucast (m (a + 9))"

definition wn_checksum :: "mem \<Rightarrow> u64 \<Rightarrow> u64" where
  "wn_checksum m a = load_le (mem_read m (a + 10) 5)"

definition wn_GetDataSlice :: "mem \<Rightarrow> u64 \<Rightarrow> u8 list" where
  "wn_GetDataSlice m a = mem_read m (a + 15) (unat (wn_GetDataSize m a))"

definition wn_NextSeq :: "mem \<Rightarrow> u64 \<Rightarrow> u64" where
  "wn_NextSeq m a = a + 15 + wn_GetDataSize m a + 1"

definition wn_Size :: "mem \<Rightarrow> u64 \<Rightarrow> u64" where
  "wn_Size m a = 15 + wn_GetDataSize m a + 1"

definition wn_Valid :: "mem \<Rightarrow> u64 \<Rightarrow> bool" where
  "wn_Valid m a \<longleftrightarrow> m (a + 8) < waltype_byte kWALNodeEnd \<and> m (a + 8) \<ge> waltype_byte kWALNodeInsert"

definition wn_SetData :: "wal_env \<Rightarrow> WALNodeType \<Rightarrow> u8 list \<Rightarrow> nat \<Rightarrow> u64 \<Rightarrow> u64 \<Rightarrow> mem \<Rightarrow> mem" where
  "wn_SetData env type src len nxt a m =
     (let m1 = mem_write (a + 8) [waltype_byte type, of_nat len] m;
          m2 = mem_write a (le_bytes 8 (we_store env a nxt)) m1;
          m3 = mem_write (a + 15) (take len src) m2;
          m4 = mem_write (a + 10) (le_bytes 5 (we_XXH3 env (take len src))) m3
      in mem_write (a + 15 + of_nat len) [of_nat len] m4)"

text \<open>
  The node is built in the stack buffer, pointer field included, and 33 bytes are copied although the
  node has 32. The checksum is taken over the old bytes at the destination.
\<close>

definition wn_SetKV :: "wal_env \<Rightarrow> WALNodeType \<Rightarrow> u64 \<Rightarrow> u64 \<Rightarrow> u64 \<Rightarrow> u64 \<Rightarrow> mem \<Rightarrow> mem" where
  "wn_SetKV env type key val nxt a m =
     (let buf = le_bytes 8 (we_store env (we_buf env) nxt) @ [waltype_byte type, 16] @
                le_bytes 5 (we_XXH3 env (mem_read m (a + 15) 16)) @
                le_bytes 8 key @ le_bytes 8 val @ [16]
      in mem_write a (buf @ [we_pad env]) m)"

section \<open>WAL\<close>

record wal =
  wl_id :: u16
  wl_size :: u64
  wl_start :: u64
  wl_tail :: u64

record wal_world =
  ww_mem :: mem
  ww_base :: "u64 list"
  ww_log_count :: nat
  ww_local_size :: u64
  ww_global_id :: u16
  ww_thread_log :: "wal option"
  ww_log_ptrs :: "wal option list"

definition kWalMetaOffset :: u64 where
  "kWalMetaOffset = 256"

definition SPTREE_LOG_SIZE :: u64 where
  "SPTREE_LOG_SIZE = push_bit 30 64"

definition wal_meta_Reset :: "u64 \<Rightarrow> u64 \<Rightarrow> mem \<Rightarrow> mem" where
  "wal_meta_Reset a sz m = mem_write (a + 8) (le_bytes 8 kWalMetaOffset) (mem_write a (le_bytes 8 sz) m)"

text \<open>\<open>alloc i\<close> is the address the \<open>i\<close>-th \<open>RP_malloc\<close> returns.\<close>

definition wal_CreateLogsForThread :: "(nat \<Rightarrow> u64) \<Rightarrow> nat \<Rightarrow> wal_world \<Rightarrow> wal_world option" where
  "wal_CreateLogsForThread alloc thread_num w =
     (if thread_num = 0 \<or> 128 < thread_num then None
      else (let sz = SPTREE_LOG_SIZE div of_nat thread_num
            in Some (w\<lparr>ww_local_size := sz, ww_log_count := thread_num,
                  ww_base := map alloc [0..<thread_num] @ drop thread_num (ww_base w),
                  ww_mem := fold (\<lambda>i m. wal_meta_Reset (alloc i) sz m) [0..<thread_num] (ww_mem w)\<rparr>)))"

text \<open>None is the exit of \<open>Recover\<close> (no local size) or an index outside the 128 base addresses.\<close>

definition wal_Recover :: "wal_world \<Rightarrow> wal_world option" where
  "wal_Recover w =
     (if ww_local_size w = 0 then None
      else (let id = ww_global_id w in
        if unat id < length (ww_base w) \<and> unat id < length (ww_log_ptrs w)
        then (let tmp = ww_base w ! unat id;
                  l = \<lparr>wl_id = id, wl_size = load_le (mem_read (ww_mem w) tmp 8), wl_start = tmp,
                       wl_tail = load_le (mem_read (ww_mem w) (tmp + 8) 8)\<rparr>
              in Some (w\<lparr>ww_global_id := id + 1, ww_thread_log := Some l,
                     ww_log_ptrs := (ww_log_ptrs w)[unat id := Some l]\<rparr>))
        else None))"

definition wal_GetThreadLocalLog :: "wal_world \<Rightarrow> (wal option \<times> wal_world) option" where
  "wal_GetThreadLocalLog w =
     (if ww_thread_log w = None \<and> ww_log_count w \<noteq> 0
      then (case wal_Recover w of Some w1 \<Rightarrow> Some (ww_thread_log w1, w1) | None \<Rightarrow> None)
      else Some (ww_thread_log w, w))"


datatype wal_rec =
    WalSlice WALNodeType "u8 list" nat
  | WalKV WALNodeType u64 u64

text \<open>Both overloads return the node's address; neither compares the new tail with the log size.\<close>

definition wal_AppendSlice :: "wal_env \<Rightarrow> WALNodeType \<Rightarrow> u8 list \<Rightarrow> nat \<Rightarrow> u64 \<Rightarrow> mem \<times> wal \<Rightarrow> u64 \<times> mem \<times> wal" where
  "wal_AppendSlice env type src len nxt s =
     (case s of (m, l) \<Rightarrow>
        (let total_size = of_nat len + 15 + 1;
             cur_off = wl_tail l;
             cur_addr = wl_start l + cur_off
         in (cur_addr, wn_SetData env type src len nxt cur_addr m, l\<lparr>wl_tail := wl_tail l + total_size\<rparr>)))"

definition wal_AppendKV :: "wal_env \<Rightarrow> WALNodeType \<Rightarrow> u64 \<Rightarrow> u64 \<Rightarrow> u64 \<Rightarrow> mem \<times> wal \<Rightarrow> u64 \<times> mem \<times> wal" where
  "wal_AppendKV env type key val nxt s =
     (case s of (m, l) \<Rightarrow>
        (let total_size = 16 + 15 + 1;
             cur_off = wl_tail l;
             cur_addr = wl_start l + cur_off
         in (cur_addr, wn_SetKV env type key val nxt cur_addr m, l\<lparr>wl_tail := wl_tail l + total_size\<rparr>)))"

primrec wal_Append :: "wal_env \<Rightarrow> wal_rec \<Rightarrow> u64 \<Rightarrow> mem \<times> wal \<Rightarrow> u64 \<times> mem \<times> wal" where
  "wal_Append env (WalSlice type src len) nxt s = wal_AppendSlice env type src len nxt s"
| "wal_Append env (WalKV type key val) nxt s = wal_AppendKV env type key val nxt s"

section \<open>Iterator\<close>

definition wit_new :: "mem \<Rightarrow> u64 \<Rightarrow> u64 \<Rightarrow> bool \<Rightarrow> u64 option" where
  "wit_new m offset addr is_reverse =
     (if offset < kWalMetaOffset then None
      else Some (if \<not> is_reverse then offset else offset - 15 - ucast (m (addr + offset - 1)) - 1))"

definition wit_deref :: "u64 \<Rightarrow> u64 \<Rightarrow> u64" where
  "wit_deref addr off = addr + off"

definition wit_Valid :: "mem \<Rightarrow> u64 \<Rightarrow> u64 \<Rightarrow> bool" where
  "wit_Valid m addr off \<longleftrightarrow> off \<ge> kWalMetaOffset \<and> wn_Valid m (wit_deref addr off)"

definition wit_inc :: "mem \<Rightarrow> u64 \<Rightarrow> u64 \<Rightarrow> u64" where
  "wit_inc m addr off = off + wn_Size m (wit_deref addr off)"

definition wit_dec :: "mem \<Rightarrow> u64 \<Rightarrow> u64 \<Rightarrow> u64" where
  "wit_dec m addr off = off - wn_Size m (wit_deref addr off)"

definition wal_begin :: "mem \<times> wal \<Rightarrow> u64 option" where
  "wal_begin s = (case s of (m, l) \<Rightarrow> wit_new m kWalMetaOffset (wl_start l) False)"

definition wal_rbegin :: "mem \<times> wal \<Rightarrow> u64 option" where
  "wal_rbegin s = (case s of (m, l) \<Rightarrow> wit_new m (wl_tail l) (wl_start l) True)"

section \<open>Frames\<close>

primrec wal_data :: "wal_rec \<Rightarrow> u8 list" where
  "wal_data (WalSlice type src len) = take len src"
| "wal_data (WalKV type key val) = le_bytes 8 key @ le_bytes 8 val"

primrec wal_type :: "wal_rec \<Rightarrow> WALNodeType" where
  "wal_type (WalSlice type src len) = type"
| "wal_type (WalKV type key val) = type"

primrec wal_ok :: "wal_rec \<Rightarrow> bool" where
  "wal_ok (WalSlice type src len) \<longleftrightarrow> len \<le> length src \<and> len < 256"
| "wal_ok (WalKV type key val) \<longleftrightarrow> True"

text \<open>What the pointer field of a node at \<open>a\<close> holds: a key-value node was stored at the buffer's address.\<close>

primrec wal_stored :: "wal_env \<Rightarrow> u64 \<Rightarrow> wal_rec \<Rightarrow> u64 \<Rightarrow> u64" where
  "wal_stored env a (WalSlice type src len) nxt = we_store env a nxt"
| "wal_stored env a (WalKV type key val) nxt = we_store env (we_buf env) nxt"

definition wal_frame :: "u64 \<Rightarrow> WALNodeType \<Rightarrow> u64 \<Rightarrow> u8 list \<Rightarrow> u8 list" where
  "wal_frame ptr type chk data =
     le_bytes 8 ptr @ [waltype_byte type, of_nat (length data)] @ le_bytes 5 chk @ data @ [of_nat (length data)]"

lemma length_wal_frame [simp]: "length (wal_frame ptr type chk data) = 16 + length data"
  by (simp add: wal_frame_def)

lemma wal_frame_nth:
  assumes "i < 16 + length data"
  shows "wal_frame ptr type chk data ! i =
    (if i < 8 then le_bytes 8 ptr ! i else if i = 8 then waltype_byte type else if i = 9 then of_nat (length data)
     else if i < 15 then le_bytes 5 chk ! (i - 10)
     else if i < 15 + length data then data ! (i - 15) else of_nat (length data))"
proof -
  consider "i < 8" | "i = 8" | "i = 9" | "10 \<le> i \<and> i < 15" | "15 \<le> i \<and> i < 15 + length data"
    | "i = 15 + length data" using assms by linarith
  then show ?thesis by cases (auto simp: wal_frame_def nth_append nth_Cons' numeral_2_eq_2)
qed

lemma wn_SetData_frame:
  assumes len: "len \<le> length src" "len + 16 \<le> 2 ^ 64"
  shows "wn_SetData env type src len nxt a m =
    mem_write a (wal_frame (we_store env a nxt) type (we_XXH3 env (take len src)) (take len src)) m"
    (is "?l = mem_write a (wal_frame ?p _ ?chk _) m")
proof
  fix x
  define i where "i = unat (x - a)"
  have x: "x = a + of_nat i" by (simp add: i_def)
  have i: "i < 2 ^ 64" using unsigned_less [of "x - a", where 'a = nat] by (simp add: i_def)
  have w: "mem_write c bs m' (a + of_nat i) = (if j \<le> i \<and> i < j + length bs then bs ! (i - j) else m' (a + of_nat i))"
    if "c = a + of_nat j" "j + length bs \<le> 2 ^ 64" for c j bs m'
    unfolding that(1) by (rule mem_write_off [OF i that(2)])
  have c: "a = a + of_nat 0" "a + 8 = a + of_nat 8" "a + 15 = a + of_nat 15" "a + 10 = a + of_nat 10"
    "a + 15 + of_nat len = a + of_nat (15 + len)" by simp_all
  note ws = w [OF c(1)] w [OF c(2)] w [OF c(3)] w [OF c(4)] w [OF c(5)]
  have lens: "length (take len src) = len" using len by simp
  have e: "?l (a + of_nat i) =
      (if 15 + len \<le> i \<and> i < 15 + len + 1 then [of_nat len] ! (i - (15 + len))
       else if 10 \<le> i \<and> i < 10 + 5 then le_bytes 5 ?chk ! (i - 10)
       else if 15 \<le> i \<and> i < 15 + len then take len src ! (i - 15)
       else if i < 8 then le_bytes 8 ?p ! i
       else if 8 \<le> i \<and> i < 8 + 2 then [waltype_byte type, of_nat len] ! (i - 8) else m (a + of_nat i))"
    using len by (simp add: wn_SetData_def ws lens)
  consider "i < 8" | "i = 8" | "i = 9" | "10 \<le> i \<and> i < 15" | "15 \<le> i \<and> i < 15 + len"
    | "i = 15 + len" | "15 + len < i" by linarith
  then have "?l (a + of_nat i) = (if i < 16 + len then wal_frame ?p type ?chk (take len src) ! i else m (a + of_nat i))"
    unfolding e by cases (use len in \<open>simp_all add: lens wal_frame_nth\<close>)
  then show "?l x = mem_write a (wal_frame ?p type ?chk (take len src)) m x"
    unfolding x using len by (simp add: w [OF c(1)] lens)
qed

text \<open>
  An append writes the node's frame at the tail; the key-value overload also the byte after it.
\<close>

lemma wal_Append_frame:
  assumes r: "wal_ok r"
  shows "\<exists>chk pad. length pad \<le> 1 \<and> (pad \<noteq> [] \<longleftrightarrow> (\<exists>t k v. r = WalKV t k v)) \<and> wal_Append env r nxt (m, l) =
    (wl_start l + wl_tail l,
     mem_write (wl_start l + wl_tail l)
       (wal_frame (wal_stored env (wl_start l + wl_tail l) r nxt) (wal_type r) chk (wal_data r) @ pad) m,
     l\<lparr>wl_tail := wl_tail l + of_nat (16 + length (wal_data r))\<rparr>)"
proof (cases r)
  case (WalSlice type src len)
  then have l: "len \<le> length src" "len + 16 \<le> 2 ^ 64" using r by auto
  with WalSlice show ?thesis
    by (intro exI [of _ "we_XXH3 env (take len src)"] exI [of _ "[]"])
      (auto simp: wal_AppendSlice_def Let_def wn_SetData_frame [OF l] min_def add.commute)
next
  case (WalKV type key val)
  then show ?thesis
    by (intro exI [of _ "we_XXH3 env (mem_read m (wl_start l + wl_tail l + 15) 16)"] exI [of _ "[we_pad env]"])
      (auto simp: wal_AppendKV_def Let_def wn_SetKV_def wal_frame_def)
qed

section \<open>Entries of the log\<close>

definition wal_byte :: "mem \<times> wal \<Rightarrow> nat \<Rightarrow> u8" where
  "wal_byte s i = fst s (wl_start (snd s) + of_nat i)"

definition wal_sz :: "wal_rec \<times> u64 \<Rightarrow> nat" where
  "wal_sz e = 16 + length (wal_data (fst e))"

definition wal_entry_at :: "wal_env \<Rightarrow> mem \<times> wal \<Rightarrow> nat \<Rightarrow> wal_rec \<times> u64 \<Rightarrow> bool" where
  "wal_entry_at env s i e \<longleftrightarrow>
     256 \<le> i \<and> i + wal_sz e \<le> 2 ^ 64 \<and> wal_ok (fst e) \<and>
     (\<exists>chk. \<forall>j < wal_sz e. wal_byte s (i + j) =
        wal_frame (wal_stored env (wl_start (snd s) + of_nat i) (fst e) (snd e)) (wal_type (fst e)) chk (wal_data (fst e)) ! j)"

definition wal_tail :: "mem \<times> wal \<Rightarrow> nat" where
  "wal_tail s = unat (wl_tail (snd s))"

definition wal_limit :: "mem \<times> wal \<Rightarrow> nat" where
  "wal_limit s = unat (wl_size (snd s))"

text \<open>One byte of slack for the byte the key-value append writes past its node.\<close>

definition wal_room :: "wal_rec \<times> u64 \<Rightarrow> mem \<times> wal \<Rightarrow> bool" where
  "wal_room e s \<longleftrightarrow> wal_ok (fst e) \<and> 256 \<le> wal_tail s \<and> wal_tail s + wal_sz e < wal_limit s"

definition wal_app :: "wal_env \<Rightarrow> wal_rec \<times> u64 \<Rightarrow> mem \<times> wal \<Rightarrow> mem \<times> wal" where
  "wal_app env e s = snd (wal_Append env (fst e) (snd e) s)"

definition wal_fwd :: "mem \<times> wal \<Rightarrow> nat \<Rightarrow> nat" where
  "wal_fwd s i = unat (wit_inc (fst s) (wl_start (snd s)) (of_nat i))"

definition wal_dec :: "mem \<times> wal \<Rightarrow> nat \<Rightarrow> nat" where
  "wal_dec s i = unat (wit_dec (fst s) (wl_start (snd s)) (of_nat i))"

definition wal_bwd :: "mem \<times> wal \<Rightarrow> nat \<Rightarrow> nat" where
  "wal_bwd s i = (case wit_new (fst s) (of_nat i) (wl_start (snd s)) True of Some off \<Rightarrow> unat off | None \<Rightarrow> 0)"

lemma wal_ok_length: "wal_ok r \<Longrightarrow> length (wal_data r) < 256"
  by (cases r) auto

lemma wal_entry_fields:
  assumes e: "wal_entry_at env (m, l) i (r, nxt)"
  defines "a \<equiv> wl_start l + of_nat i"
  shows "wn_GetType m a = waltype_byte (wal_type r)"
    and "wn_GetDataSize m a = of_nat (length (wal_data r))"
    and "wn_GetDataSlice m a = wal_data r"
    and "wn_NextOnList env m a = we_load env a (wal_stored env a r nxt)"
    and "m (a + of_nat (15 + length (wal_data r))) = of_nat (length (wal_data r))"
proof -
  let ?n = "length (wal_data r)" and ?p = "wal_stored env a r nxt"
  have n: "?n < 256" using e wal_ok_length by (simp add: wal_entry_at_def)
  obtain chk where f: "\<And>j. j < 16 + ?n \<Longrightarrow> m (a + of_nat j) = wal_frame ?p (wal_type r) chk (wal_data r) ! j"
    using e by (auto simp: wal_entry_at_def wal_byte_def wal_sz_def a_def add.assoc)
  show "wn_GetType m a = waltype_byte (wal_type r)"
    using f [of 8] by (simp add: wn_GetType_def wal_frame_nth)
  have "m (a + 9) = of_nat ?n" using f [of 9] by (simp add: wal_frame_nth)
  moreover have "unat (of_nat ?n :: u8) = ?n" using n by (simp add: unsigned_of_nat take_bit_nat_eq_self)
  ultimately show sz: "wn_GetDataSize m a = of_nat ?n"
    by (simp add: wn_GetDataSize_def) (metis of_nat_unat)
  have un: "unat (of_nat ?n :: u64) = ?n" using n by (intro unat_of_nat64) simp
  have "mem_read m (a + 15) ?n = wal_data r"
  proof (rule nth_equalityI)
    fix j assume "j < length (mem_read m (a + 15) ?n)"
    then have j: "j < ?n" by simp
    with f [of "15 + j"] show "mem_read m (a + 15) ?n ! j = wal_data r ! j"
      by (simp add: mem_read_def wal_frame_nth add.assoc)
  qed simp
  then show "wn_GetDataSlice m a = wal_data r" by (simp add: wn_GetDataSlice_def sz un)
  have "mem_read m a 8 = le_bytes 8 ?p"
  proof (rule nth_equalityI)
    fix j assume "j < length (mem_read m a 8)"
    then have j: "j < 8" by simp
    with f [of j] show "mem_read m a 8 ! j = le_bytes 8 ?p ! j"
      by (simp add: mem_read_def wal_frame_nth)
  qed simp
  then show "wn_NextOnList env m a = we_load env a ?p" by (simp add: wn_NextOnList_def)
  show "m (a + of_nat (15 + ?n)) = of_nat ?n"
    using f [of "15 + ?n"] by (simp only: wal_frame_nth) simp
qed

lemma wal_entry_Size:
  assumes e: "wal_entry_at env (m, l) i (r, nxt)"
  shows "wn_Size m (wl_start l + of_nat i) = of_nat (wal_sz (r, nxt))"
  by (simp add: wn_Size_def wal_entry_fields(2) [OF e] wal_sz_def)

lemma wal_room_bound: "wal_room e s \<Longrightarrow> wal_tail s + wal_sz e + 1 < 2 ^ 64"
  using unsigned_less [of "wl_size (snd s)", where 'a = nat] by (simp add: wal_room_def wal_limit_def)

lemma wal_app_effect:
  assumes r: "wal_room e s"
  shows "\<exists>chk pad. length pad \<le> 1 \<and> wal_app env e s =
    (mem_write (wl_start (snd s) + of_nat (wal_tail s))
       (wal_frame (wal_stored env (wl_start (snd s) + of_nat (wal_tail s)) (fst e) (snd e)) (wal_type (fst e)) chk (wal_data (fst e)) @ pad)
       (fst s),
     (snd s)\<lparr>wl_tail := of_nat (wal_tail s + wal_sz e)\<rparr>)"
proof -
  obtain m l where s: "s = (m, l)" by fastforce
  have "wal_ok (fst e)" using r by (simp add: wal_room_def)
  from wal_Append_frame [OF this, of env "snd e" m l] obtain chk pad where
    "length pad \<le> 1" "wal_Append env (fst e) (snd e) (m, l) =
      (wl_start l + wl_tail l,
       mem_write (wl_start l + wl_tail l)
         (wal_frame (wal_stored env (wl_start l + wl_tail l) (fst e) (snd e)) (wal_type (fst e)) chk (wal_data (fst e)) @ pad) m,
       l\<lparr>wl_tail := wl_tail l + of_nat (16 + length (wal_data (fst e)))\<rparr>)" by blast
  then show ?thesis
    by (intro exI [of _ chk] exI [of _ pad]) (auto simp: wal_app_def s wal_tail_def wal_sz_def)
qed

lemma wal_app_fields:
  assumes r: "wal_room e s"
  shows "wal_tail (wal_app env e s) = wal_tail s + wal_sz e"
    "wal_limit (wal_app env e s) = wal_limit s" "wl_start (snd (wal_app env e s)) = wl_start (snd s)"
  using wal_app_effect [OF r, of env] wal_room_bound [OF r]
  by (auto simp: wal_tail_def wal_limit_def unat_of_nat64 simp del: of_nat_add)

lemma wal_entry_frame:
  assumes e: "wal_entry_at env s i e" and st: "wl_start (snd s') = wl_start (snd s)"
    and same: "\<And>j. i \<le> j \<Longrightarrow> j < i + wal_sz e \<Longrightarrow> wal_byte s' j = wal_byte s j"
  shows "wal_entry_at env s' i e"
  using e same unfolding wal_entry_at_def st by (metis add_less_cancel_left le_add1)

lemma wal_app_below:
  assumes r: "wal_room e s" and j: "j < wal_tail s"
  shows "wal_byte (wal_app env e s) j = wal_byte s j"
proof -
  let ?f = "\<lambda>chk. wal_frame (wal_stored env (wl_start (snd s) + of_nat (wal_tail s)) (fst e) (snd e)) (wal_type (fst e)) chk (wal_data (fst e))"
  obtain chk pad where a: "length pad \<le> 1" "wal_app env e s =
    (mem_write (wl_start (snd s) + of_nat (wal_tail s)) (?f chk @ pad) (fst s),
     (snd s)\<lparr>wl_tail := of_nat (wal_tail s + wal_sz e)\<rparr>)" using wal_app_effect [OF r] by blast
  have b: "wal_tail s + length (?f chk @ pad) \<le> 2 ^ 64"
    using wal_room_bound [OF r] a(1) by (simp add: wal_sz_def)
  have "j < 2 ^ 64" using j wal_room_bound [OF r] by simp
  from mem_write_off [OF this b, of "wl_start (snd s)" "fst s"] j show ?thesis
    by (simp add: a(2) wal_byte_def)
qed

lemma wal_app_keep:
  assumes r: "wal_room e s" and f: "wal_entry_at env s i f" "i + wal_sz f \<le> wal_tail s"
  shows "wal_entry_at env (wal_app env e s) i f"
  by (rule wal_entry_frame [OF f(1) wal_app_fields(3) [OF r]]) (use f(2) wal_app_below [OF r] in auto)

lemma wal_app_entry:
  assumes r: "wal_room e s"
  shows "wal_entry_at env (wal_app env e s) (wal_tail s) e"
proof -
  let ?f = "\<lambda>chk. wal_frame (wal_stored env (wl_start (snd s) + of_nat (wal_tail s)) (fst e) (snd e)) (wal_type (fst e)) chk (wal_data (fst e))"
  obtain chk pad where a: "length pad \<le> 1" "wal_app env e s =
    (mem_write (wl_start (snd s) + of_nat (wal_tail s)) (?f chk @ pad) (fst s),
     (snd s)\<lparr>wl_tail := of_nat (wal_tail s + wal_sz e)\<rparr>)" using wal_app_effect [OF r] by blast
  have b: "wal_tail s + length (?f chk @ pad) \<le> 2 ^ 64"
    using wal_room_bound [OF r] a(1) by (simp add: wal_sz_def)
  have "wal_byte (wal_app env e s) (wal_tail s + j) = ?f chk ! j" if "j < wal_sz e" for j
  proof -
    have "wal_tail s + j < 2 ^ 64" using that wal_room_bound [OF r] by simp
    from mem_write_off [OF this b, of "wl_start (snd s)" "fst s"] that show ?thesis
      by (simp add: a(2) wal_byte_def wal_sz_def nth_append)
  qed
  moreover have "wal_ok (fst e)" "256 \<le> wal_tail s" using r by (auto simp: wal_room_def)
  moreover have "wl_start (snd (wal_app env e s)) = wl_start (snd s)" by (rule wal_app_fields(3) [OF r])
  ultimately show ?thesis
    unfolding wal_entry_at_def using wal_room_bound [OF r] by (intro conjI exI [of _ chk]) auto
qed

lemma wal_entry_moves:
  assumes e: "wal_entry_at env s i e" and t: "i + wal_sz e \<le> wal_tail s"
  shows "wal_fwd s i = i + wal_sz e" and "wal_bwd s (i + wal_sz e) = i"
    and "wal_sz e \<le> i \<Longrightarrow> wal_dec s i = i - wal_sz e"
proof -
  obtain m l r p where sl: "s = (m, l)" "e = (r, p)" by fastforce
  let ?sz = "wal_sz e" and ?n = "length (wal_data r)"
  have tl: "i + ?sz < 2 ^ 64" using t unsigned_less [of "wl_tail (snd s)", where 'a = nat] by (simp add: wal_tail_def)
  have i: "256 \<le> i" using e by (simp add: wal_entry_at_def)
  note e' = e [unfolded sl]
  note g = wal_entry_Size [OF e', folded sl(2)]
  show "wal_fwd s i = i + ?sz"
    using tl by (simp only: wal_fwd_def wit_inc_def wit_deref_def sl fst_conv snd_conv g [unfolded sl] flip: of_nat_add)
      (simp add: unat_of_nat64 del: of_nat_add)
  show "wal_dec s i = i - ?sz" if "?sz \<le> i"
  proof -
    have "wit_dec m (wl_start l) (of_nat i) = of_nat (i - ?sz)"
      by (simp add: wit_dec_def wit_deref_def g of_nat_diff [OF that])
    moreover have "i - ?sz < 2 ^ 64" using tl by simp
    ultimately show ?thesis by (simp add: wal_dec_def sl unat_of_nat64 del: of_nat_diff)
  qed
  have n: "?n < 256" using e' wal_ok_length by (simp add: wal_entry_at_def)
  have sz: "?sz = 16 + ?n" by (simp add: sl wal_sz_def)
  have eq: "wl_start l + of_nat (i + ?sz) - 1 = wl_start l + of_nat i + of_nat (15 + ?n)"
    by (simp add: sz)
  have last: "m (wl_start l + of_nat (i + ?sz) - 1) = of_nat ?n"
    unfolding eq by (rule wal_entry_fields(5) [OF e'])
  have c: "(ucast (of_nat ?n :: u8) :: u64) = of_nat ?n"
    using n by (intro word_unat_eq_iff [THEN iffD2]) (simp add: unsigned_ucast_eq unsigned_of_nat take_bit_nat_eq_self)
  have ge: "\<not> of_nat (i + ?sz) < kWalMetaOffset"
    using i tl by (simp only: kWalMetaOffset_def word_less_nat_alt unat_of_nat64) simp
  have "wit_new m (of_nat (i + ?sz)) (wl_start l) True =
      Some (of_nat (i + ?sz) - 15 - ucast (m (wl_start l + of_nat (i + ?sz) - 1)) - 1)"
    using ge by (simp only: wit_new_def if_False not_True_eq_False)
  then have "wit_new m (of_nat (i + ?sz)) (wl_start l) True = Some (of_nat i)"
    unfolding last c by (simp add: sz)
  then show "wal_bwd s (i + ?sz) = i"
    using tl by (simp add: wal_bwd_def sl unat_of_nat64 del: of_nat_add)
qed

interpretation wlog: framed_log wal_sz wal_tail wal_limit wal_room "wal_app env" "wal_entry_at env"
  "\<lambda>_. True" wal_fwd wal_bwd wal_dec for env
  by unfold_locales
    (auto simp: wal_room_def wal_app_fields wal_app_entry wal_app_keep wal_entry_moves)

section \<open>Sequences of appends\<close>

primrec wal_appends :: "wal_env \<Rightarrow> (wal_rec \<times> u64) list \<Rightarrow> mem \<times> wal \<Rightarrow> mem \<times> wal" where
  "wal_appends env [] s = s"
| "wal_appends env (e # es) s = wal_appends env es (snd (wal_Append env (fst e) (snd e) s))"

definition wal_fits :: "wal_rec list \<Rightarrow> mem \<times> wal \<Rightarrow> bool" where
  "wal_fits rs s \<longleftrightarrow> (\<forall>r \<in> set rs. wal_ok r) \<and> 256 \<le> wal_tail s \<and>
     wal_tail s + sum_list (map (\<lambda>r. 16 + length (wal_data r)) rs) < wal_limit s"

lemma wal_fits_Cons:
  assumes "wal_fits (r # rs) s"
  shows "wal_room (r, p) s \<and> wal_fits rs (wal_app env (r, p) s)"
proof -
  have "wal_room (r, p) s" using assms by (simp add: wal_fits_def wal_room_def wal_sz_def)
  with assms show ?thesis by (simp add: wal_fits_def wal_app_fields) (simp add: wal_sz_def)
qed

lemma wal_appends_wlog: "wlog.appends env es s = wal_appends env es s"
  by (induction es arbitrary: s) (auto simp: wal_app_def)

lemma wal_fits_rooms: "wal_fits (map fst es) s \<Longrightarrow> wlog.rooms env es s"
proof (induction es arbitrary: s)
  case (Cons e es)
  have "wal_room e s \<and> wal_fits (map fst es) (wal_app env e s)"
    using wal_fits_Cons [of "fst e" "map fst es" s "snd e" env] Cons.prems by simp
  with Cons.IH show ?case by simp
qed simp


text \<open>What a reader sees at a node: type, data, and the pointer loaded from what was stored.\<close>

definition wal_shows :: "wal_env \<Rightarrow> mem \<Rightarrow> u64 \<Rightarrow> wal_rec \<times> u64 \<Rightarrow> bool" where
  "wal_shows env m a e \<longleftrightarrow> wn_GetType m a = waltype_byte (wal_type (fst e)) \<and>
     wn_GetDataSlice m a = wal_data (fst e) \<and>
     wn_NextOnList env m a = we_load env a (wal_stored env a (fst e) (snd e))"

lemma wal_entry_shows: "wal_entry_at env s i e \<Longrightarrow> wal_shows env (fst s) (wl_start (snd s) + of_nat i) e"
  using wal_entry_fields [of env "fst s" "snd s" i "fst e" "snd e"] by (simp add: wal_shows_def)

lemma wal_entry_Valid:
  assumes e: "wal_entry_at env s i e" and t: "wal_type (fst e) \<noteq> kWALNodeEnd"
  shows "wit_Valid (fst s) (wl_start (snd s)) (of_nat i)"
proof -
  have i: "256 \<le> i" "i < 2 ^ 64" using e by (auto simp: wal_entry_at_def wal_sz_def)
  have "kWalMetaOffset \<le> of_nat i"
    using i by (simp only: kWalMetaOffset_def word_le_nat_alt unat_of_nat64) simp
  moreover have "fst s (wl_start (snd s) + of_nat i + 8) = waltype_byte (wal_type (fst e))"
    using wal_entry_shows [OF e] by (simp add: wal_shows_def wn_GetType_def)
  ultimately show ?thesis
    using t by (cases "wal_type (fst e)") (auto simp: wit_Valid_def wit_deref_def wn_Valid_def)
qed

lemma wal_fwd_iter: "((wit_inc m a) ^^ i) x = of_nat ((wal_fwd (m, l\<lparr>wl_start := a\<rparr>) ^^ i) (unat x))"
proof -
  have "(wal_fwd (m, l\<lparr>wl_start := a\<rparr>) ^^ i) (unat x) = unat ((wit_inc m a ^^ i) x)"
  proof (induction i)
    case (Suc i)
    then show ?case by (simp add: wal_fwd_def)
  qed simp
  then show ?thesis by simp
qed

section \<open>Properties\<close>

text \<open>
  C23: after any sequence of appends that stays within the log, the forward iterator started at the old
  tail stops at every appended node in order, valid and with its type and data, and then stands exactly
  at the new tail: the byte that a key-value append writes past its node is overwritten by the next.
\<close>

theorem wal_forward_scan:
  assumes fits: "wal_fits (map fst es) s" and types: "\<forall>e \<in> set es. wal_type (fst e) \<noteq> kWALNodeEnd"
  shows "case wal_appends env es s of (m, l) \<Rightarrow>
    (\<forall>i < length es.
       wit_Valid m (wl_start l) (((wit_inc m (wl_start l)) ^^ i) (wl_tail (snd s))) \<and>
       wal_shows env m (wit_deref (wl_start l) (((wit_inc m (wl_start l)) ^^ i) (wl_tail (snd s)))) (es ! i)) \<and>
    ((wit_inc m (wl_start l)) ^^ length es) (wl_tail (snd s)) = wl_tail l"
proof -
  obtain m l where S: "wal_appends env es s = (m, l)" by fastforce
  have r: "wlog.rooms env es s" by (rule wal_fits_rooms [OF fits])
  have A: "wlog.appends env es s = (m, l)" by (simp add: wal_appends_wlog S)
  have l: "l\<lparr>wl_start := wl_start l\<rparr> = l" by simp
  have it: "((wit_inc m (wl_start l)) ^^ i) (wl_tail (snd s)) = of_nat (wlog.start s es i)" if "i \<le> length es" for i
    using wlog.scan_forward [OF r that, unfolded A] wal_fwd_iter [of i m "wl_start l" "wl_tail (snd s)" l]
    by (simp add: wal_tail_def l)
  have "wit_Valid m (wl_start l) (of_nat (wlog.start s es i)) \<and>
      wal_shows env m (wit_deref (wl_start l) (of_nat (wlog.start s es i))) (es ! i)" if "i < length es" for i
  proof -
    have e: "wal_entry_at env (m, l) (wlog.start s es i) (es ! i)"
      using wlog.appends_entry [OF r that] by (simp add: A)
    with wal_entry_Valid [OF e] wal_entry_shows [OF e] types that show ?thesis by (simp add: wit_deref_def)
  qed
  moreover have "of_nat (wlog.start s es (length es)) = wl_tail l"
    using wlog.start_end [OF r] by (simp add: A wal_tail_def)
  ultimately show ?thesis by (simp add: S it)
qed

definition wal_env_sample :: wal_env where
  "wal_env_sample = \<lparr>we_XXH3 = (\<lambda>_. 0), we_store = (\<lambda>a t. t - a), we_load = (\<lambda>a x. x + a), we_buf = 0x7000, we_pad = 0xAA\<rparr>"

definition wal_sample :: "mem \<times> wal" where
  "wal_sample = ((\<lambda>_. 0), \<lparr>wl_id = 0, wl_size = 1024, wl_start = 4096, wl_tail = 256\<rparr>)"

theorem wal_forward_scan_witness:
  "case wal_appends wal_env_sample [(WalKV kWALNodeInsert 7 70, 0), (WalSlice kWALNodeRemove [1, 2] 2, 5)] wal_sample of (m, l) \<Rightarrow>
     wit_Valid m (wl_start l) 256 \<and>
     wal_shows wal_env_sample m (wit_deref (wl_start l) 256) (WalKV kWALNodeInsert 7 70, 0) \<and>
     wal_shows wal_env_sample m (wit_deref (wl_start l) (wit_inc m (wl_start l) 256)) (WalSlice kWALNodeRemove [1, 2] 2, 5) \<and>
     wit_inc m (wl_start l) (wit_inc m (wl_start l) 256) = wl_tail l"
proof -
  let ?es = "[(WalKV kWALNodeInsert 7 70, 0), (WalSlice kWALNodeRemove [1, 2] 2, 5)]"
  have "wal_fits (map fst ?es) wal_sample"
    by (simp add: wal_fits_def wal_sample_def wal_tail_def wal_limit_def)
  moreover have "\<forall>e \<in> set ?es. wal_type (fst e) \<noteq> kWALNodeEnd" by simp
  moreover have "wl_tail (snd wal_sample) = 256" by (simp add: wal_sample_def)
  ultimately show ?thesis using wal_forward_scan [of ?es wal_sample wal_env_sample]
    by (fastforce split: prod.splits simp: numeral_2_eq_2 simp del: wal_appends.simps)
qed



section \<open>Creating, committing and recovering a log\<close>

text \<open>The metadata of two logs do not overlap.\<close>

definition wal_apart :: "u64 \<Rightarrow> u64 \<Rightarrow> bool" where
  "wal_apart a b \<longleftrightarrow> 16 \<le> unat (a - b) \<and> 16 \<le> unat (b - a)"

lemma mem_write_apart:
  assumes "wal_apart a b" "i < 16" "j + length bs \<le> 16"
  shows "mem_write (b + of_nat j) bs m (a + of_nat i) = m (a + of_nat i)"
proof (rule mem_write_out)
  define d where "d = unat (a - b)"
  have ab: "a = b + of_nat d" by (simp add: d_def)
  have d: "d < 2 ^ 64" using unsigned_less [of "a - b", where 'a = nat] by (simp add: d_def)
  have d1: "16 \<le> d" using assms(1) by (simp add: wal_apart_def d_def)
  have "b - a = b + of_nat 0 - (b + of_nat d)" by (simp add: ab)
  also have "unat \<dots> = 2 ^ 64 - d" using off_diff_wrap [of 0 d b] d d1 by simp
  finally have "16 \<le> 2 ^ 64 - d" using assms(1) by (simp add: wal_apart_def)
  then have d2: "d + 16 \<le> 2 ^ 64" using d by linarith
  have "a + of_nat i - (b + of_nat j) = b + of_nat (d + i) - (b + of_nat j)" by (simp add: ab)
  also have "unat \<dots> = d + i - j" by (rule off_diff) (use d1 d2 assms(2,3) in auto)
  finally show "length bs \<le> unat (a + of_nat i - (b + of_nat j))" using d1 assms(3) by simp
qed

lemma wal_meta_Reset_other:
  assumes "wal_apart a b" "i < 16"
  shows "wal_meta_Reset b sz m (a + of_nat i) = m (a + of_nat i)"
  using mem_write_apart [OF assms, of 8 "le_bytes 8 kWalMetaOffset"] mem_write_apart [OF assms, of 0 "le_bytes 8 sz"]
  by (simp add: wal_meta_Reset_def)

lemma wal_meta_Reset_same:
  assumes "i < 16"
  shows "wal_meta_Reset a sz m (a + of_nat i) =
    (if i < 8 then le_bytes 8 sz ! i else le_bytes 8 kWalMetaOffset ! (i - 8))"
  using assms mem_write_off [of i 8 "le_bytes 8 kWalMetaOffset" a] mem_write_off [of i 0 "le_bytes 8 sz" a]
  by (simp add: wal_meta_Reset_def)

lemma wal_meta_fold:
  assumes "distinct ks" "k \<in> set ks" "\<And>j. j \<in> set ks \<Longrightarrow> j \<noteq> k \<Longrightarrow> wal_apart (alloc k) (alloc j)" "i < 16"
  shows "fold (\<lambda>j m. wal_meta_Reset (alloc j) sz m) ks m (alloc k + of_nat i) =
    (if i < 8 then le_bytes 8 sz ! i else le_bytes 8 kWalMetaOffset ! (i - 8))"
  using assms
proof (induction ks arbitrary: m rule: rev_induct)
  case (snoc j ks)
  show ?case
  proof (cases "j = k")
    case True
    with wal_meta_Reset_same [OF snoc.prems(4), of "alloc k" sz] show ?thesis by simp
  next
    case False
    with snoc.prems have "wal_apart (alloc k) (alloc j)" by simp
    with wal_meta_Reset_other [OF this snoc.prems(4)] snoc False show ?thesis by simp
  qed
qed simp

lemma mem_read_meta:
  assumes "\<And>i. i < 16 \<Longrightarrow> m (a + of_nat i) = (if i < 8 then le_bytes 8 x ! i else le_bytes 8 y ! (i - 8))"
  shows "load_le (mem_read m a 8) = x \<and> load_le (mem_read m (a + 8) 8) = y"
proof -
  have "mem_read m a 8 = le_bytes 8 x"
    by (rule nth_equalityI) (auto simp: mem_read_def assms)
  moreover have "mem_read m (a + 8) 8 = le_bytes 8 y"
  proof (rule nth_equalityI)
    fix i assume "i < length (mem_read m (a + 8) 8)"
    then show "mem_read m (a + 8) 8 ! i = le_bytes 8 y ! i"
      using assms [of "8 + i"] by (simp add: mem_read_def add.assoc)
  qed simp
  ultimately show ?thesis by simp
qed

text \<open>
  C31: after \<open>CreateLogsForThread\<close> each thread that asks for its log gets an empty one of its own: its
  allocated block, an equal share of the log space, the tail right behind the metadata.
\<close>

theorem wal_create_logs:
  assumes create: "wal_CreateLogsForThread alloc n w = Some w'"
    and i: "i < n" "ww_global_id w' = of_nat i" "ww_thread_log w' = None" "length (ww_log_ptrs w') = 128"
    and apart: "\<And>j k. j < n \<Longrightarrow> k < n \<Longrightarrow> j \<noteq> k \<Longrightarrow> wal_apart (alloc j) (alloc k)"
  shows "\<exists>w''. wal_GetThreadLocalLog w' =
    Some (Some \<lparr>wl_id = of_nat i, wl_size = SPTREE_LOG_SIZE div of_nat n, wl_start = alloc i, wl_tail = 256\<rparr>, w'')"
proof -
  let ?sz = "SPTREE_LOG_SIZE div of_nat n"
  have n: "n \<noteq> 0" "n \<le> 128" and w': "w' = w\<lparr>ww_local_size := ?sz, ww_log_count := n,
      ww_base := map alloc [0..<n] @ drop n (ww_base w),
      ww_mem := fold (\<lambda>i m. wal_meta_Reset (alloc i) ?sz m) [0..<n] (ww_mem w)\<rparr>"
    using create by (auto simp: wal_CreateLogsForThread_def Let_def split: if_splits)
  have id: "unat (of_nat i :: u16) = i" using i(1) n(2) by (simp add: unsigned_of_nat take_bit_nat_eq_self)
  have "unat ?sz = 2 ^ 36 div n"
  proof -
    have "unat SPTREE_LOG_SIZE = 2 ^ 36" by (simp add: SPTREE_LOG_SIZE_def push_bit_eq_mult)
    then show ?thesis using n by (simp add: unat_div unat_of_nat64)
  qed
  moreover have "0 < (2 ^ 36 :: nat) div n" using n by (simp add: div_greater_zero_iff)
  ultimately have sz: "?sz \<noteq> 0" by (metis less_irrefl unat_0)
  have meta: "ww_mem w' (alloc i + of_nat k) =
      (if k < 8 then le_bytes 8 ?sz ! k else le_bytes 8 kWalMetaOffset ! (k - 8))" if "k < 16" for k
    unfolding w' using wal_meta_fold [of "[0..<n]" i alloc k] i(1) apart that by simp
  have base: "ww_base w' ! i = alloc i" "i < length (ww_base w')" using i(1) by (auto simp: w' nth_append)
  have f: "ww_local_size w' = ?sz" "ww_log_count w' = n" by (simp_all add: w')
  show ?thesis
    using mem_read_meta [OF meta] sz i(1,3,4) n base
    by (simp add: wal_GetThreadLocalLog_def wal_Recover_def Let_def i(2) id f kWalMetaOffset_def)
qed


definition wal_world_sample :: wal_world where
  "wal_world_sample = \<lparr>ww_mem = (\<lambda>_. 0), ww_base = replicate 128 0, ww_log_count = 0, ww_local_size = 0,
     ww_global_id = 1, ww_thread_log = None, ww_log_ptrs = replicate 128 None\<rparr>"

theorem wal_create_logs_witness:
  "\<exists>w' w''. wal_CreateLogsForThread (\<lambda>i. 4096 + of_nat i * 2 ^ 36) 2 wal_world_sample = Some w' \<and>
    wal_GetThreadLocalLog w' =
      Some (Some \<lparr>wl_id = 1, wl_size = SPTREE_LOG_SIZE div 2, wl_start = 4096 + 2 ^ 36, wl_tail = 256\<rparr>, w'')"
proof -
  let ?alloc = "\<lambda>i. 4096 + of_nat i * 2 ^ 36 :: u64"
  obtain w' where c: "wal_CreateLogsForThread ?alloc 2 wal_world_sample = Some w'"
    and w': "ww_global_id w' = of_nat 1" "ww_thread_log w' = None" "length (ww_log_ptrs w') = 128"
    by (simp add: wal_CreateLogsForThread_def Let_def wal_world_sample_def)
  have "wal_apart (?alloc j) (?alloc k)" if "j < 2" "k < 2" "j \<noteq> k" for j k
    using that by (auto simp: wal_apart_def less_2_cases_iff)
  from wal_create_logs [OF c _ w' this] c show ?thesis by simp
qed


end
