(* ===== verification/SpMeta.thy ===== *)
theory SpMeta
  imports Interfaces
begin

text \<open>
  \<open>spoton-tree/sptree_meta.h\<close> (constants and \<open>NodeBitSet\<close>) and \<open>spoton-tree/retryLock.h\<close>
  (\<open>RetryVersionLock\<close>): the version lock of the SPTree nodes as a word and as a step relation of any
  number of threads.
\<close>

definition kKeyEmpty :: u64 where
  "kKeyEmpty = 0"

definition kSPTreeMinKey :: u64 where
  "kSPTreeMinKey = 1"

section \<open>NodeBitSet\<close>

definition nbs_validCount :: "u64 \<Rightarrow> nat" where
  "nbs_validCount b = popcount b"

definition nbs_advance :: "u64 \<Rightarrow> u64" where
  "nbs_advance b = b AND (b - 1)"

definition nbs_bool :: "u64 \<Rightarrow> bool" where
  "nbs_bool b \<longleftrightarrow> b \<noteq> 0"

definition nbs_deref :: "u64 \<Rightarrow> nat" where
  "nbs_deref b = ctz b"

definition nbs_end :: u64 where
  "nbs_end = 0"

text \<open>\<open>set (pos)\<close>; positions are below 64, which the code asserts.\<close>

definition nbs_set :: "nat \<Rightarrow> u64 \<Rightarrow> u64" where
  "nbs_set pos b = b OR shl1 pos"

function nbs_walk :: "u64 \<Rightarrow> nat list" where
  "nbs_walk b = (if b = nbs_end then [] else nbs_deref b # nbs_walk (nbs_advance b))"
  by pat_completeness auto
termination
  by (relation "measure popcount") (auto simp: nbs_end_def nbs_advance_def clear_lowest_less)

declare nbs_walk.simps [simp del]

interpretation nbs: bit_cursor "\<lambda>b. b = nbs_end" nbs_deref nbs_advance nbs_walk
  by unfold_locales
    (simp_all add: nbs_end_def nbs_deref_def nbs_advance_def nbs_walk.simps [unfolded nbs_end_def nbs_deref_def nbs_advance_def])

lemma bit_nbs_set [bitset_simps]: "bit (nbs_set p b) i \<longleftrightarrow> bit b i \<or> i = p \<and> p < 64"
  by (auto simp: nbs_set_def bitset_simps)

section \<open>RetryVersionLock\<close>

definition rvl_init :: u64 where
  "rvl_init = 0b100"

definition rvl_isLocked :: "u64 \<Rightarrow> bool" where
  "rvl_isLocked version \<longleftrightarrow> version AND 0b10 = 0b10"

definition rvl_isObsolete :: "u64 \<Rightarrow> bool" where
  "rvl_isObsolete version \<longleftrightarrow> version AND 1 = 1"

definition rvl_isLockedOrObsolete :: "u64 \<Rightarrow> bool" where
  "rvl_isLockedOrObsolete version \<longleftrightarrow> version AND 0b11 \<noteq> 0"

text \<open>Each operation gets \<open>needRestart\<close> and returns it updated, as the reference parameter of the code.\<close>

definition rvl_readLockOrRestart :: "u64 \<Rightarrow> bool \<Rightarrow> u64 \<times> bool" where
  "rvl_readLockOrRestart w needRestart = (w, if rvl_isLocked w then True else needRestart)"

definition rvl_readUnlockOrRestart :: "u64 \<Rightarrow> u64 \<Rightarrow> bool" where
  "rvl_readUnlockOrRestart startRead w \<longleftrightarrow> startRead \<noteq> w"

definition rvl_checkOrRestart :: "u64 \<Rightarrow> u64 \<Rightarrow> bool" where
  "rvl_checkOrRestart startRead w \<longleftrightarrow> rvl_readUnlockOrRestart startRead w"

text \<open>The compare-and-swap: (needRestart, version, lock word) afterwards; a failure loads the word.\<close>

definition rvl_upgradeToWriteLockOrRestart :: "u64 \<Rightarrow> bool \<Rightarrow> u64 \<Rightarrow> bool \<times> u64 \<times> u64" where
  "rvl_upgradeToWriteLockOrRestart version needRestart w =
     (if w = version then (needRestart, version + 0b10, w + 0b10) else (True, w, w))"

definition rvl_writeLockOrRestart :: "bool \<Rightarrow> u64 \<Rightarrow> bool \<times> u64" where
  "rvl_writeLockOrRestart needRestart w =
     (case rvl_readLockOrRestart w needRestart of (version, nr) \<Rightarrow>
        if nr then (True, w)
        else (case rvl_upgradeToWriteLockOrRestart version nr w of (nr1, _, w1) \<Rightarrow> (nr1, w1)))"

definition rvl_writeUnlock :: "u64 \<Rightarrow> u64" where
  "rvl_writeUnlock w = w + 0b10"

definition rvl_writeUnlockObsolete :: "u64 \<Rightarrow> u64" where
  "rvl_writeUnlockObsolete w = w + 0b11"

lemma and_shl1_eq:
  assumes "k < LENGTH('a)"
  shows "w AND shl1 k = shl1 k \<longleftrightarrow> bit (w :: 'a::len word) k"
proof
  assume h: "w AND shl1 k = shl1 k"
  have "bit (w AND shl1 k) k" unfolding h using assms by (simp add: bit_shl1)
  then show "bit w k" by (simp add: bit_and_iff)
next
  assume "bit w k"
  then show "w AND shl1 k = shl1 k" by (intro bit_word_eqI) (auto simp: bitset_simps)
qed

lemma rvl_isLocked_bit: "rvl_isLocked w \<longleftrightarrow> bit w 1"
  using and_shl1_eq [of 1 w] by (simp add: rvl_isLocked_def shl1_def push_bit_eq_mult)

lemma rvl_isObsolete_bit: "rvl_isObsolete w \<longleftrightarrow> bit w 0"
  using and_shl1_eq [of 0 w] by (simp add: rvl_isObsolete_def shl1_def)

text \<open>Adding 2 to an unlocked word sets exactly the lock bit.\<close>

lemma rvl_add_lock: "\<not> rvl_isLocked w \<Longrightarrow> w + 2 = w OR shl1 1"
proof -
  assume u: "\<not> rvl_isLocked w"
  have "w + shl1 1 = w OR shl1 1"
    by (rule add_disjoint_or) (use u in \<open>auto simp: rvl_isLocked_bit bitset_simps\<close>)
  then show ?thesis by (simp add: shl1_def push_bit_eq_mult)
qed

lemma rvl_locked_add: "\<not> rvl_isLocked w \<Longrightarrow> rvl_isLocked (w + 2)"
  by (simp add: rvl_add_lock) (simp add: rvl_isLocked_bit bitset_simps)

lemma rvl_lock_bits: "\<not> rvl_isLocked w \<Longrightarrow> rvl_isObsolete (w + 2) = rvl_isObsolete w"
  by (simp add: rvl_add_lock) (simp add: rvl_isObsolete_bit bitset_simps)

section \<open>Interleaving\<close>

text \<open>
  A thread is idle, has read a version (with, as history, the number of increments so far and the
  protected data at that moment), or holds the write lock. \<open>rv_total\<close> adds up all increments of the
  word, without wrap-around.
\<close>

datatype 'd rv_pc = RvIdle | RvRead u64 nat 'd | RvHolding

record 'd rv_state =
  rv_word :: u64
  rv_total :: nat
  rv_data :: 'd
  rv_pcs :: "nat \<Rightarrow> 'd rv_pc"

definition rv_init :: "'d \<Rightarrow> 'd rv_state" where
  "rv_init d = \<lparr>rv_word = rvl_init, rv_total = 0, rv_data = d, rv_pcs = (\<lambda>_. RvIdle)\<rparr>"

definition rv_goto :: "nat \<Rightarrow> 'd rv_pc \<Rightarrow> 'd rv_state \<Rightarrow> 'd rv_state" where
  "rv_goto i p s = s\<lparr>rv_pcs := (rv_pcs s)(i := p)\<rparr>"

definition rv_read :: "nat \<Rightarrow> 'd rv_state \<Rightarrow> 'd rv_state" where
  "rv_read i s = (case rvl_readLockOrRestart (rv_word s) False of (v, nr) \<Rightarrow>
     if nr then s else rv_goto i (RvRead v (rv_total s) (rv_data s)) s)"

definition rv_upgrade :: "nat \<Rightarrow> u64 \<Rightarrow> 'd rv_state \<Rightarrow> 'd rv_state" where
  "rv_upgrade i v s = (case rvl_upgradeToWriteLockOrRestart v False (rv_word s) of (nr, _, w) \<Rightarrow>
     if nr then rv_goto i RvIdle s
     else rv_goto i RvHolding (s\<lparr>rv_word := w, rv_total := rv_total s + 2\<rparr>))"

inductive rv_step :: "'d rv_state \<Rightarrow> 'd rv_state \<Rightarrow> bool" where
  rv_reading: "rv_pcs s i = RvIdle \<Longrightarrow> rv_step s (rv_read i s)"
| rv_upgrading: "rv_pcs s i = RvRead v t d \<Longrightarrow> rv_step s (rv_upgrade i v s)"
| rv_leaving: "rv_pcs s i = RvRead v t d \<Longrightarrow> rv_step s (rv_goto i RvIdle s)"
| rv_writing: "rv_pcs s i = RvHolding \<Longrightarrow> rv_step s (s\<lparr>rv_data := d\<rparr>)"
| rv_unlocking: "rv_pcs s i = RvHolding \<Longrightarrow>
    rv_step s (rv_goto i RvIdle (s\<lparr>rv_word := rvl_writeUnlock (rv_word s), rv_total := rv_total s + 2\<rparr>))"
| rv_unlocking_obsolete: "rv_pcs s i = RvHolding \<Longrightarrow>
    rv_step s (rv_goto i RvIdle (s\<lparr>rv_word := rvl_writeUnlockObsolete (rv_word s), rv_total := rv_total s + 3\<rparr>))"

inductive_cases rv_stepE: "rv_step s t"

definition rv_holds :: "'d rv_state \<Rightarrow> nat \<Rightarrow> bool" where
  "rv_holds s i \<longleftrightarrow> rv_pcs s i = RvHolding"

definition rv_held :: "'d rv_state \<Rightarrow> bool" where
  "rv_held s \<longleftrightarrow> rvl_isLocked (rv_word s)"

lemma rv_upgrade_cases:
  "rv_upgrade i v s =
     (if rv_word s = v then rv_goto i RvHolding (s\<lparr>rv_word := v + 2, rv_total := rv_total s + 2\<rparr>)
      else rv_goto i RvIdle s)"
  by (simp add: rv_upgrade_def rvl_upgradeToWriteLockOrRestart_def)

lemma rv_read_cases:
  "rv_read i s = (if rvl_isLocked (rv_word s) then s
     else rv_goto i (RvRead (rv_word s) (rv_total s) (rv_data s)) s)"
  by (simp add: rv_read_def rvl_readLockOrRestart_def)

text \<open>A thread only upgrades an unlocked version, so entering finds the word unlocked.\<close>

definition rv_versions :: "'d rv_state \<Rightarrow> bool" where
  "rv_versions s \<longleftrightarrow> (\<forall>i v t d. rv_pcs s i = RvRead v t d \<longrightarrow> \<not> rvl_isLocked v)"

definition rv_step_ok :: "'d rv_state \<Rightarrow> 'd rv_state \<Rightarrow> bool" where
  "rv_step_ok s t \<longleftrightarrow> rv_versions s \<and> rv_step s t"

lemma rv_versionsD: "rv_versions s \<Longrightarrow> rv_pcs s i = RvRead v t d \<Longrightarrow> \<not> rvl_isLocked v"
  by (auto simp: rv_versions_def)

lemma rv_versions_step: "rv_step s t \<Longrightarrow> rv_versions s \<Longrightarrow> rv_versions t"
  by (erule rv_stepE)
    (auto simp: rv_versions_def rv_read_cases rv_upgrade_cases rv_goto_def split: if_splits)

lemma rv_versions_init: "rv_versions (rv_init d)"
  by (simp add: rv_versions_def rv_init_def)

lemma rv_reach_ok: "reachable (rv_init d) rv_step s \<Longrightarrow> reachable (rv_init d) rv_step_ok s \<and> rv_versions s"
proof (induction rule: reachable.induct)
  case reach_init
  show ?case by (intro conjI reachable.reach_init rv_versions_init)
next
  case (reach_step s t)
  then have "rv_step_ok s t" by (simp add: rv_step_ok_def)
  with reach_step rv_versions_step show ?case by (blast intro: reachable.reach_step)
qed

interpretation rvl: exclusive_lock "rv_init d" rv_step_ok rv_holds rv_held for d
proof unfold_locales
  show "\<not> rv_holds (rv_init d) i" for i by (simp add: rv_holds_def rv_init_def)
next
  fix s t :: "'a rv_state" and i
  assume ok: "rv_step_ok s t" and hold: "rv_holds t i" "\<not> rv_holds s i"
  then have st: "rv_step s t" and v: "rv_versions s" by (auto simp: rv_step_ok_def)
  from st hold v show "\<not> rv_held s \<and> rv_held t \<and> (\<forall>j. j \<noteq> i \<longrightarrow> rv_holds t j \<longrightarrow> rv_holds s j)"
    by (cases rule: rv_stepE)
      (auto simp: rv_holds_def rv_held_def rv_read_cases rv_upgrade_cases rv_goto_def rvl_locked_add
        dest: rv_versionsD split: if_splits)
next
  fix s t :: "'a rv_state"
  assume ok: "rv_step_ok s t" and held: "rv_held s" "\<not> rv_held t"
  then have st: "rv_step s t" and v: "rv_versions s" by (auto simp: rv_step_ok_def)
  from st held v show "\<exists>i. rv_holds s i \<and> \<not> rv_holds t i"
    by (cases rule: rv_stepE)
      (auto simp: rv_holds_def rv_held_def rv_read_cases rv_upgrade_cases rv_goto_def
        dest: rv_versionsD split: if_splits)
qed

text \<open>The history of the readers.\<close>

definition rv_history :: "'d rv_state \<Rightarrow> bool" where
  "rv_history s \<longleftrightarrow> rv_word s = rvl_init + of_nat (rv_total s) \<and>
     (\<forall>i v t d. rv_pcs s i = RvRead v t d \<longrightarrow> t \<le> rv_total s \<and> v = rvl_init + of_nat t \<and>
        (t = rv_total s \<longrightarrow> d = rv_data s \<and> (\<forall>j. \<not> rv_holds s j)))"

lemma rv_history_step:
  assumes st: "rv_step s t" and h: "rv_history s" and held: "\<And>j. rv_holds s j \<Longrightarrow> rv_held s"
  shows "rv_history t"
  using st
proof (cases rule: rv_step.cases)
  case (rv_reading i)
  show ?thesis
  proof (cases "rvl_isLocked (rv_word s)")
    case False
    with held have "\<not> rv_holds s j" for j by (auto simp: rv_held_def)
    with h rv_reading False show ?thesis
      by (auto simp: rv_history_def rv_read_cases rv_goto_def rv_holds_def)
  qed (use h rv_reading in \<open>simp add: rv_read_cases\<close>)
next
  case (rv_upgrading i v t' d)
  with h show ?thesis
    by (auto simp: rv_history_def rv_upgrade_cases rv_goto_def rv_holds_def) fastforce+
next
  case (rv_writing i d)
  with h show ?thesis by (auto simp: rv_history_def rv_holds_def)
next
  case (rv_unlocking i)
  with h show ?thesis
    by (auto simp: rv_history_def rvl_writeUnlock_def rv_goto_def rv_holds_def) fastforce+
next
  case (rv_unlocking_obsolete i)
  with h show ?thesis
    by (auto simp: rv_history_def rvl_writeUnlockObsolete_def rv_goto_def rv_holds_def) fastforce+
qed (use h in \<open>auto simp: rv_history_def rv_goto_def rv_holds_def\<close>)

lemma rv_reach_held: "reachable (rv_init d) rv_step s \<Longrightarrow> rv_holds s j \<Longrightarrow> rv_held s"
  by (rule rvl.holder_held [OF conjunct1 [OF rv_reach_ok]])

lemma rv_reach_history: "reachable (rv_init d) rv_step s \<Longrightarrow> rv_history s"
proof (induction rule: reachable.induct)
  case reach_init
  show ?case by (simp add: rv_history_def rv_init_def)
next
  case (reach_step s t)
  show ?case by (rule rv_history_step [OF reach_step.hyps(2) reach_step.IH rv_reach_held [OF reach_step.hyps(1)]])
qed

text \<open>
  C4: in every interleaving at most one thread holds the write lock, and an optimistic read that
  validates has seen the protected data as it still is, with no writer in between, provided the version
  word has not wrapped around since the read (fewer than \<open>2 ^ 64\<close> units, that is \<open>2 ^ 62\<close> lockings).
\<close>

theorem retry_lock_safety:
  assumes r: "reachable (rv_init d0) rv_step s"
  shows "(\<forall>i j. rv_holds s i \<longrightarrow> rv_holds s j \<longrightarrow> i = j) \<and>
    (\<forall>i v t d. rv_pcs s i = RvRead v t d \<longrightarrow> \<not> rvl_checkOrRestart v (rv_word s) \<longrightarrow>
       rv_total s - t < 2 ^ 64 \<longrightarrow> rv_total s = t \<and> rv_data s = d \<and> (\<forall>j. \<not> rv_holds s j))"
proof (intro conjI allI impI)
  show "i = j" if "rv_holds s i" "rv_holds s j" for i j
    by (rule rvl.mutual_exclusion [OF conjunct1 [OF rv_reach_ok [OF r]] that])
next
  fix i v t d
  assume p: "rv_pcs s i = RvRead v t d" and c: "\<not> rvl_checkOrRestart v (rv_word s)" and b: "rv_total s - t < 2 ^ 64"
  have h: "rv_history s" by (rule rv_reach_history [OF r])
  then have le: "t \<le> rv_total s" and v: "v = rvl_init + of_nat t" and w: "rv_word s = rvl_init + of_nat (rv_total s)"
    using p by (auto simp: rv_history_def)
  have "of_nat (rv_total s) = (of_nat t :: u64)"
    using c v w by (simp add: rvl_checkOrRestart_def rvl_readUnlockOrRestart_def)
  then have "of_nat (rv_total s - t) = (0 :: u64)" by (simp add: of_nat_diff [OF le])
  moreover have "unat (of_nat (rv_total s - t) :: u64) = rv_total s - t"
    using b by (simp only: unsigned_of_nat) (simp add: take_bit_nat_eq_self)
  ultimately have t: "rv_total s = t" using le by simp
  with h p show "rv_total s = t" and "rv_data s = d" and "\<not> rv_holds s j" for j
    by (auto simp: rv_history_def)
qed

theorem retry_lock_safety_witness:
  "\<exists>s. reachable (rv_init (0 :: nat)) rv_step s \<and> rv_pcs s 0 = RvRead 4 0 0 \<and> rv_holds s 2 \<and>
     rvl_checkOrRestart 4 (rv_word s) \<and> (\<forall>i j. rv_holds s i \<longrightarrow> rv_holds s j \<longrightarrow> i = j)"
proof -
  let ?s0 = "rv_init (0 :: nat)"
  let ?s1 = "rv_read 0 ?s0" let ?s2 = "rv_read 2 ?s1" let ?s3 = "rv_upgrade 2 4 ?s2"
  have p1: "rv_pcs ?s1 = (\<lambda>_. RvIdle)(0 := RvRead 4 0 0)" and w1: "rv_word ?s1 = 4" "rv_total ?s1 = 0" "rv_data ?s1 = 0"
    by (simp_all add: rv_read_cases rv_init_def rv_goto_def rvl_init_def rvl_isLocked_def)
  have p2: "rv_pcs ?s2 = (\<lambda>_. RvIdle)(0 := RvRead 4 0 0, 2 := RvRead 4 0 0)" and w2: "rv_word ?s2 = 4"
    by (simp_all add: rv_read_cases [of 2] rv_goto_def rvl_isLocked_def p1 w1)
  have st: "rv_step ?s0 ?s1" "rv_step ?s1 ?s2" "rv_step ?s2 ?s3"
    by (rule rv_reading, simp add: rv_init_def) (rule rv_reading, simp add: p1, rule rv_upgrading, simp add: p2)
  have r: "reachable ?s0 rv_step ?s3"
    using reachable.reach_step [where init = ?s0 and step = rv_step] reachable.reach_init [of ?s0 rv_step] st by blast
  have "rv_pcs ?s3 0 = RvRead 4 0 0 \<and> rv_holds ?s3 2 \<and> rvl_checkOrRestart 4 (rv_word ?s3)"
    by (simp add: rv_upgrade_cases w2 rv_goto_def rv_holds_def p2 rvl_checkOrRestart_def rvl_readUnlockOrRestart_def)
  with retry_lock_safety [OF r] r show ?thesis by blast
qed

end
