(* ===== verification/NodeBuffer.thy ===== *)
theory NodeBuffer
  imports Slots SpMeta ByteMem
begin

text \<open>
  The two parts of a middle-layer node of the SPTree (\<open>spoton-tree/middleLayer.h\<close>, \<open>middleLayer.cc\<close>):
  the 512-bit Bloom filter \<open>BloomFilterFix64\<close> and the write buffer \<open>NodeBuffer\<close> of 14 records. The hash
  functions of the linked xxhash library are parameters, collected in \<open>sp_env\<close>.
\<close>

record sp_env =
  se_XXH3_64bits :: "u8 list \<Rightarrow> u64"
  se_XXH3_128bits :: "u8 list \<Rightarrow> u64 \<times> u64"

section \<open>BloomFilterFix64\<close>

type_synonym bloom = "u16 list"

definition bf_reset :: "bloom \<Rightarrow> bloom" where
  "bf_reset b = replicate 32 0"

definition bf_setBitPos :: "nat \<Rightarrow> bloom \<Rightarrow> bloom" where
  "bf_setBitPos pos b = b[pos div 16 := b ! (pos div 16) OR shl1 (pos mod 16)]"

definition bf_isBitSet :: "nat \<Rightarrow> bloom \<Rightarrow> bool" where
  "bf_isBitSet pos b \<longleftrightarrow> b ! (pos div 16) AND shl1 (pos mod 16) \<noteq> 0"

text \<open>The four positions: two from each half of the 128-bit hash (high, low).\<close>

definition bf_positions :: "sp_env \<Rightarrow> u8 list \<Rightarrow> nat list" where
  "bf_positions env bytes =
     (case se_XXH3_128bits env bytes of (hash1, hash2) \<Rightarrow>
        [unat (drop_bit 32 hash1 AND 511), unat (hash1 AND 511),
         unat (drop_bit 32 hash2 AND 511), unat (hash2 AND 511)])"

definition bf_set_bytes :: "sp_env \<Rightarrow> u8 list \<Rightarrow> bloom \<Rightarrow> bloom" where
  "bf_set_bytes env bytes b = foldl (\<lambda>b pos. bf_setBitPos pos b) b (bf_positions env bytes)"

definition bf_set :: "sp_env \<Rightarrow> u64 \<Rightarrow> bloom \<Rightarrow> bloom" where
  "bf_set env key b = bf_set_bytes env (le_bytes 8 key) b"

definition bf_couldExist_bytes :: "sp_env \<Rightarrow> u8 list \<Rightarrow> bloom \<Rightarrow> bool" where
  "bf_couldExist_bytes env bytes b \<longleftrightarrow> list_all (\<lambda>pos. bf_isBitSet pos b) (bf_positions env bytes)"

definition bf_couldExist :: "sp_env \<Rightarrow> u64 \<Rightarrow> bloom \<Rightarrow> bool" where
  "bf_couldExist env key b \<longleftrightarrow> bf_couldExist_bytes env (le_bytes 8 key) b"

lemma and_511_less: "unat (w AND 511 :: u64) < 512"
proof -
  have eq: "(511 :: u64) = mask 9" by (simp add: mask_eq_exp_minus_1)
  show ?thesis
    unfolding eq take_bit_eq_mask [symmetric] by (simp only: unsigned_take_bit_eq) (simp add: take_bit_eq_mod)
qed

lemma bf_positions_less: "p \<in> set (bf_positions env bytes) \<Longrightarrow> p < 512"
  by (auto simp: bf_positions_def and_511_less split: prod.splits)

lemma and_shl1_neq_0: "w AND shl1 k \<noteq> 0 \<longleftrightarrow> bit (w :: 'a::len word) k"
proof
  assume "w AND shl1 k \<noteq> 0"
  then obtain i where "bit (w AND shl1 k) i" by (auto simp: bit_eq_iff)
  then show "bit w k" by (auto simp: bitset_simps)
next
  assume b: "bit w k"
  then have "k < LENGTH('a)" by (rule bit_imp_le_length)
  with b have "bit (w AND shl1 k) k" by (simp add: bitset_simps)
  then show "w AND shl1 k \<noteq> 0" by auto
qed

lemma length_bf_setBitPos [simp]: "length (bf_setBitPos p b) = length b"
  by (simp add: bf_setBitPos_def)

lemma bf_isBitSet_setBitPos:
  assumes "length b = 32" "p < 512" "q < 512"
  shows "bf_isBitSet q (bf_setBitPos p b) \<longleftrightarrow> q = p \<or> bf_isBitSet q b"
proof -
  have "p div 16 < 32" "p mod 16 < 16" "q mod 16 < 16" using assms by auto
  moreover have "q = p \<longleftrightarrow> q div 16 = p div 16 \<and> q mod 16 = p mod 16" by (metis div_mult_mod_eq)
  ultimately show ?thesis
    using assms by (auto simp: bf_isBitSet_def bf_setBitPos_def and_shl1_neq_0 nth_list_update bitset_simps)
qed

lemma bf_fold:
  assumes "length b = 32" "\<And>p. p \<in> set ps \<Longrightarrow> p < 512"
  shows "length (foldl (\<lambda>b pos. bf_setBitPos pos b) b ps) = 32 \<and>
    (\<forall>q < 512. bf_isBitSet q (foldl (\<lambda>b pos. bf_setBitPos pos b) b ps) \<longleftrightarrow> q \<in> set ps \<or> bf_isBitSet q b)"
  using assms by (induction ps arbitrary: b) (auto simp: bf_isBitSet_setBitPos)

lemma bf_set_bits:
  assumes "length b = 32"
  shows "length (bf_set env k b) = 32 \<and>
    (\<forall>q < 512. bf_isBitSet q (bf_set env k b) \<longleftrightarrow> q \<in> set (bf_positions env (le_bytes 8 k)) \<or> bf_isBitSet q b)"
  unfolding bf_set_def bf_set_bytes_def by (rule bf_fold [OF assms]) (rule bf_positions_less)

lemma bf_couldExist_iff:
  "bf_couldExist env k b \<longleftrightarrow> (\<forall>q \<in> set (bf_positions env (le_bytes 8 k)). bf_isBitSet q b)"
  by (simp add: bf_couldExist_def bf_couldExist_bytes_def list_all_iff)

lemma bf_set_couldExist: "length b = 32 \<Longrightarrow> bf_couldExist env k (bf_set env k b)"
  using bf_set_bits [of b env k] bf_positions_less by (auto simp: bf_couldExist_iff)

lemma bf_set_mono: "length b = 32 \<Longrightarrow> bf_couldExist env k b \<Longrightarrow> bf_couldExist env k (bf_set env k' b)"
  using bf_set_bits [of b env k'] bf_positions_less by (auto simp: bf_couldExist_iff)

lemma bf_length_set: "length b = 32 \<Longrightarrow> length (bf_set env k b) = 32"
  using bf_set_bits by blast

lemma bf_sets:
  "length b = 32 \<Longrightarrow> length (fold (bf_set env) ks b) = 32 \<and>
   (\<forall>k. k \<in> set ks \<or> bf_couldExist env k b \<longrightarrow> bf_couldExist env k (fold (bf_set env) ks b))"
  by (induction ks arbitrary: b) (auto simp: bf_length_set bf_set_couldExist bf_set_mono)

text \<open>
  C19: the Bloom filter has no false negatives: after a reset and any insertions it reports exactly the
  keys all of whose four positions are covered by inserted keys, in particular every inserted key.
\<close>

theorem bloom_no_false_negatives:
  "bf_couldExist env k (fold (bf_set env) ks (bf_reset b0)) \<longleftrightarrow>
     set (bf_positions env (le_bytes 8 k)) \<subseteq> (\<Union>k' \<in> set ks. set (bf_positions env (le_bytes 8 k')))"
proof -
  have bits: "length b = 32 \<Longrightarrow> q < 512 \<Longrightarrow> bf_isBitSet q (fold (bf_set env) ks b) \<longleftrightarrow>
      bf_isBitSet q b \<or> q \<in> (\<Union>k' \<in> set ks. set (bf_positions env (le_bytes 8 k')))" for q b
  proof (induction ks arbitrary: b)
    case (Cons a ks)
    from Cons.IH [OF bf_length_set [OF Cons.prems(1)] Cons.prems(2), of env a] bf_set_bits [OF Cons.prems(1), of env a] Cons.prems(2)
    show ?case by auto
  qed simp
  have "bf_isBitSet q (bf_reset b0) \<longleftrightarrow> False" if "q < 512" for q
    using that by (simp add: bf_isBitSet_def bf_reset_def)
  moreover have "length (bf_reset b0) = 32" by (simp add: bf_reset_def)
  ultimately show ?thesis
    using bits [of "bf_reset b0"] bf_positions_less [of _ env "le_bytes 8 k"] by (auto simp: bf_couldExist_iff)
qed

section \<open>NodeBuffer\<close>

record nbslot =
  ns_key :: u64
  ns_val :: u64

record nodebuf =
  nb_valid :: u16
  nb_tags :: "u8 list"
  nb_slots :: "nbslot list"

definition nb_Count :: "nodebuf \<Rightarrow> nat" where
  "nb_Count n = popcount (nb_valid n)"

definition nb_MatchBitSet :: "u8 \<Rightarrow> nodebuf \<Rightarrow> u64" where
  "nb_MatchBitSet tag n = ucast ((match_mask (nb_tags n) tag :: u16) AND nb_valid n)"

definition nb_Full :: "nodebuf \<Rightarrow> bool" where
  "nb_Full n \<longleftrightarrow> popcount (nb_valid n) = 14"

definition nb_ValidBitSet :: "nodebuf \<Rightarrow> u64" where
  "nb_ValidBitSet n = ucast (nb_valid n)"

text \<open>\<open>~valid_bitmap\<close> is computed as an \<open>int\<close> and sign-extended: all bits from 16 on are set.\<close>

definition nb_EmptyBitSet :: "nodebuf \<Rightarrow> u64" where
  "nb_EmptyBitSet n = NOT (ucast (nb_valid n))"

definition nb_SetValid :: "nat \<Rightarrow> nodebuf \<Rightarrow> nodebuf" where
  "nb_SetValid pos n = n\<lparr>nb_valid := nb_valid n OR shl1 pos\<rparr>"

definition nb_SetErase :: "nat \<Rightarrow> nodebuf \<Rightarrow> nodebuf" where
  "nb_SetErase pos n = n\<lparr>nb_valid := nb_valid n AND NOT (shl1 pos)\<rparr>"

definition nb_Reset :: "nodebuf \<Rightarrow> nodebuf" where
  "nb_Reset n = n\<lparr>nb_valid := 0\<rparr>"

definition sp_tag :: "sp_env \<Rightarrow> u64 \<Rightarrow> u8" where
  "sp_tag env key = ucast (se_XXH3_64bits env (le_bytes 8 key) AND 0xFF)"

definition nb_probe :: "sp_env \<Rightarrow> u64 \<Rightarrow> nodebuf \<Rightarrow> nat option" where
  "nb_probe env key n =
     find (\<lambda>i. ns_key (nb_slots n ! i) = key) (nbs_walk (nb_MatchBitSet (sp_tag env key) n))"

definition nb_insert :: "sp_env \<Rightarrow> u64 \<Rightarrow> u64 \<Rightarrow> nodebuf \<Rightarrow> bool \<times> nodebuf" where
  "nb_insert env key val n =
     (case nb_probe env key n of
        Some i \<Rightarrow> (True, n\<lparr>nb_slots := (nb_slots n)[i := (nb_slots n ! i)\<lparr>ns_val := val\<rparr>]\<rparr>)
      | None \<Rightarrow>
          if \<not> nb_Full n then
            (let i = nbs_deref (nb_EmptyBitSet n)
             in (True, nb_SetValid i (n\<lparr>nb_slots := (nb_slots n)[i := \<lparr>ns_key = key, ns_val = val\<rparr>],
                                        nb_tags := (nb_tags n)[i := sp_tag env key]\<rparr>)))
          else (False, n))"

definition nb_find :: "sp_env \<Rightarrow> u64 \<Rightarrow> nodebuf \<Rightarrow> u64 option" where
  "nb_find env key n = map_option (\<lambda>i. ns_val (nb_slots n ! i)) (nb_probe env key n)"

text \<open>\<open>lookup\<close> answers 0 for an absent key.\<close>

definition nb_lookup :: "sp_env \<Rightarrow> u64 \<Rightarrow> nodebuf \<Rightarrow> u64" where
  "nb_lookup env key n = (case nb_find env key n of Some v \<Rightarrow> v | None \<Rightarrow> 0)"

definition nb_remove :: "sp_env \<Rightarrow> u64 \<Rightarrow> nodebuf \<Rightarrow> bool \<times> nodebuf" where
  "nb_remove env key n =
     (case nb_probe env key n of Some i \<Rightarrow> (True, nb_SetErase i n) | None \<Rightarrow> (False, n))"

subsection \<open>Invariant and abstraction\<close>

definition nb_live :: "nodebuf \<Rightarrow> nat \<Rightarrow> bool" where
  "nb_live n i \<longleftrightarrow> i < 14 \<and> bit (nb_valid n) i"

abbreviation nb_key :: "nodebuf \<Rightarrow> nat \<Rightarrow> u64" where
  "nb_key n i \<equiv> ns_key (nb_slots n ! i)"

abbreviation nb_val :: "nodebuf \<Rightarrow> nat \<Rightarrow> u64" where
  "nb_val n i \<equiv> ns_val (nb_slots n ! i)"

definition nb_view :: "nodebuf \<Rightarrow> u64 \<rightharpoonup> u64" where
  "nb_view n = slot_view 14 (nb_live n) (nb_key n) (nb_val n)"

definition nb_inv :: "sp_env \<Rightarrow> nodebuf \<Rightarrow> bool" where
  "nb_inv env n \<longleftrightarrow> length (nb_tags n) = 16 \<and> length (nb_slots n) = 14 \<and>
     (\<forall>i < 16. bit (nb_valid n) i \<longrightarrow> i < 14) \<and>
     slots_distinct 14 (nb_live n) (nb_key n) \<and>
     (\<forall>i < 14. nb_live n i \<longrightarrow> nb_tags n ! i = sp_tag env (nb_key n i))"

lemma nb_invI:
  assumes "length (nb_tags n) = 16" "length (nb_slots n) = 14" "\<And>i. bit (nb_valid n) i \<Longrightarrow> i < 14"
    "slots_distinct 14 (nb_live n) (nb_key n)" "\<And>i. nb_live n i \<Longrightarrow> nb_tags n ! i = sp_tag env (nb_key n i)"
  shows "nb_inv env n"
  using assms by (auto simp: nb_inv_def)

lemma nb_invD:
  assumes "nb_inv env n"
  shows "length (nb_tags n) = 16" "length (nb_slots n) = 14" "bit (nb_valid n) i \<Longrightarrow> i < 14"
    "slots_distinct 14 (nb_live n) (nb_key n)" "nb_live n i \<Longrightarrow> nb_tags n ! i = sp_tag env (nb_key n i)"
proof -
  show "i < 14" if b: "bit (nb_valid n) i"
    using assms b bit_imp_le_length [OF b] by (simp add: nb_inv_def)
qed (use assms in \<open>auto simp: nb_inv_def nb_live_def\<close>)

lemma bit_nb_Match:
  assumes "nb_inv env n"
  shows "bit (nb_MatchBitSet t n) i \<longleftrightarrow> i < 14 \<and> nb_live n i \<and> nb_tags n ! i = t"
  using nb_invD(1) [OF assms] nb_invD(3) [OF assms, of i]
  by (auto simp: nb_MatchBitSet_def bitset_simps nb_live_def)

lemma nb_probe_find:
  assumes inv: "nb_inv env n"
  shows "nb_probe env k n = slot_find 14 (nb_live n) (nb_key n) k"
  unfolding nb_probe_def nbs.walk_bits_of
proof (rule probe_find)
  show "bit (nb_MatchBitSet (sp_tag env k) n) i \<longleftrightarrow> i < 14 \<and> nb_live n i \<and> nb_tags n ! i = sp_tag env k" for i
    by (rule bit_nb_Match [OF inv])
  show "nb_tags n ! i = sp_tag env k" if "nb_live n i" "nb_key n i = k" for i
    using nb_invD(5) [OF inv that(1)] that(2) by simp
qed simp

lemma nb_find_view: "nb_inv env n \<Longrightarrow> nb_find env k n = nb_view n k"
  by (simp add: nb_find_def nb_probe_find nb_view_def slot_view_def)

lemma nb_probe_Some:
  "nb_inv env n \<Longrightarrow> nb_probe env k n = Some i \<Longrightarrow> i < 14 \<and> nb_live n i \<and> nb_key n i = k"
  by (simp add: nb_probe_find) (drule slot_find_SomeD, simp)

lemma nb_probe_None: "nb_inv env n \<Longrightarrow> nb_probe env k n = None \<longleftrightarrow> nb_view n k = None"
  by (simp add: nb_probe_find nb_view_def slot_view_def)

lemma nb_inv_new: "length ts = 16 \<Longrightarrow> length ss = 14 \<Longrightarrow>
    nb_inv env \<lparr>nb_valid = 0, nb_tags = ts, nb_slots = ss\<rparr> \<and> nb_view \<lparr>nb_valid = 0, nb_tags = ts, nb_slots = ss\<rparr> = Map.empty"
  by (auto simp: nb_inv_def nb_view_def nb_live_def slots_distinct_def slot_view_None fun_eq_iff)

lemma nb_Reset_inv: "nb_inv env n \<Longrightarrow> nb_inv env (nb_Reset n) \<and> nb_view (nb_Reset n) = Map.empty"
  by (auto simp: nb_Reset_def nb_inv_def nb_view_def nb_live_def slots_distinct_def slot_view_None fun_eq_iff)

subsection \<open>Operations\<close>

text \<open>Writing one record: an update in place or an insertion into a free slot.\<close>

lemma nb_write:
  assumes inv: "nb_inv env n" and p: "p < 14" and free: "nb_live n p \<Longrightarrow> nb_key n p = k"
    and uniq: "\<And>i. nb_live n i \<Longrightarrow> nb_key n i = k \<Longrightarrow> i = p"
    and f: "nb_tags n' = (nb_tags n)[p := sp_tag env k]" "nb_slots n' = (nb_slots n)[p := \<lparr>ns_key = k, ns_val = v\<rparr>]"
    and b: "\<And>i. bit (nb_valid n') i \<longleftrightarrow> i = p \<or> bit (nb_valid n) i"
  shows "nb_inv env n' \<and> nb_view n' = (nb_view n)(k \<mapsto> v)"
proof -
  note I = nb_invD [OF inv]
  have live: "nb_live n' i \<longleftrightarrow> i = p \<or> nb_live n i" for i
    using p by (auto simp: nb_live_def b)
  have slot: "nb_slots n' ! i = (if i = p then \<lparr>ns_key = k, ns_val = v\<rparr> else nb_slots n ! i)" for i
    using p I(2) by (simp add: f slot_simps)
  have w: "slots_distinct 14 (nb_live n') (nb_key n') \<and>
      slot_view 14 (nb_live n') (nb_key n') (nb_val n') = (slot_view 14 (nb_live n) (nb_key n) (nb_val n))(k \<mapsto> nb_val n' p)"
  proof (rule slots_write [OF I(4) p])
    show "nb_live n' i \<longleftrightarrow> nb_live n i \<and> nb_key n i \<noteq> k" if "i \<noteq> p" for i
      using that uniq [of i] by (auto simp: live)
  qed (simp_all add: live slot free)
  have "nb_inv env n'"
  proof (rule nb_invI)
    show "nb_tags n' ! i = sp_tag env (nb_key n' i)" if "nb_live n' i" for i
      using that I(1,2) I(5) [of i] p by (auto simp: live f slot_simps split: if_splits)
    show "i < 14" if "bit (nb_valid n') i" for i using that I(3) [of i] p by (auto simp: b)
    show "slots_distinct 14 (nb_live n') (nb_key n')" by (rule conjunct1 [OF w])
  qed (simp_all add: f I(1,2))
  with w show ?thesis by (simp add: nb_view_def slot)
qed

lemma nb_Empty_deref:
  assumes inv: "nb_inv env n" and nf: "\<not> nb_Full n"
  shows "nbs_deref (nb_EmptyBitSet n) < 14 \<and> \<not> bit (nb_valid n) (nbs_deref (nb_EmptyBitSet n))"
proof -
  have "\<exists>j < 14. \<not> bit (nb_valid n) j"
  proof (rule ccontr)
    assume "\<not> (\<exists>j < 14. \<not> bit (nb_valid n) j)"
    then have "{i. bit (nb_valid n) i} = {..<14}" using nb_invD(3) [OF inv] by auto
    then have "popcount (nb_valid n) = 14" by (simp add: popcount_card)
    with nf show False by (simp add: nb_Full_def)
  qed
  then obtain j where j: "j < 14" "\<not> bit (nb_valid n) j" by blast
  then have be: "bit (nb_EmptyBitSet n) j" by (simp add: nb_EmptyBitSet_def bitset_simps)
  then have nz: "nb_EmptyBitSet n \<noteq> 0" by auto
  have "ctz (nb_EmptyBitSet n) \<le> j" by (rule ctz_least [OF be])
  moreover have "bit (nb_EmptyBitSet n) (ctz (nb_EmptyBitSet n))" by (rule bit_ctz [OF nz])
  ultimately show ?thesis using j by (simp add: nbs_deref_def nb_EmptyBitSet_def bitset_simps)
qed

lemma nb_insert_cases:
  assumes inv: "nb_inv env n"
  shows "case nb_insert env k v n of (b, n') \<Rightarrow> nb_inv env n' \<and>
    (if b then nb_view n' = (nb_view n)(k \<mapsto> v) else n' = n \<and> nb_view n k = None \<and> nb_Full n)"
proof (cases "nb_probe env k n")
  case (Some i)
  let ?n' = "n\<lparr>nb_slots := (nb_slots n)[i := (nb_slots n ! i)\<lparr>ns_val := v\<rparr>]\<rparr>"
  have i: "i < 14" "nb_live n i" "nb_key n i = k" using nb_probe_Some [OF inv Some] by auto
  have "nb_inv env ?n' \<and> nb_view ?n' = (nb_view n)(k \<mapsto> v)"
  proof (rule nb_write [OF inv i(1)])
    show "nb_key n i = k" by (rule i(3))
    show "j = i" if "nb_live n j" "nb_key n j = k" for j
      using nb_invD(4) [OF inv] that i by (auto simp: slots_distinct_def nb_live_def)
    show "nb_tags ?n' = (nb_tags n)[i := sp_tag env k]"
      using nb_invD(5) [OF inv i(2)] i(3) list_update_id [of "nb_tags n" i] by simp
    show "nb_slots ?n' = (nb_slots n)[i := \<lparr>ns_key = k, ns_val = v\<rparr>]"
      using i(3) by (cases "nb_slots n ! i") simp
    show "bit (nb_valid ?n') j \<longleftrightarrow> j = i \<or> bit (nb_valid n) j" for j using i(2) by (auto simp: nb_live_def)
  qed
  then show ?thesis by (simp add: nb_insert_def Some)
next
  case None
  then have absent: "nb_view n k = None" by (simp add: nb_probe_None [OF inv])
  show ?thesis
  proof (cases "nb_Full n")
    case False
    let ?i = "nbs_deref (nb_EmptyBitSet n)"
    let ?n' = "nb_SetValid ?i (n\<lparr>nb_slots := (nb_slots n)[?i := \<lparr>ns_key = k, ns_val = v\<rparr>],
      nb_tags := (nb_tags n)[?i := sp_tag env k]\<rparr>)"
    note e = nb_Empty_deref [OF inv False]
    have "nb_inv env ?n' \<and> nb_view ?n' = (nb_view n)(k \<mapsto> v)"
    proof (rule nb_write [OF inv conjunct1 [OF e]])
      show "j = ?i" if "nb_live n j" "nb_key n j = k" for j
        using that absent by (auto simp: nb_view_def slot_view_None nb_live_def)
    qed (use e in \<open>auto simp: nb_SetValid_def bitset_simps nb_live_def\<close>)
    with None False show ?thesis by (simp add: nb_insert_def Let_def)
  qed (use None absent inv in \<open>simp add: nb_insert_def\<close>)
qed

lemma nb_remove_cases:
  assumes inv: "nb_inv env n"
  shows "case nb_remove env k n of (b, n') \<Rightarrow> nb_inv env n' \<and> nb_view n' = (nb_view n)(k := None) \<and>
    (b \<longleftrightarrow> nb_view n k \<noteq> None)"
proof (cases "nb_probe env k n")
  case (Some i)
  note I = nb_invD [OF inv]
  let ?n' = "nb_SetErase i n"
  have i: "i < 14" "nb_live n i" "nb_key n i = k" using nb_probe_Some [OF inv Some] by auto
  have b: "bit (nb_valid ?n') j \<longleftrightarrow> bit (nb_valid n) j \<and> j \<noteq> i" for j
    using I(3) [of j] i(1) by (auto simp: nb_SetErase_def bitset_simps)
  have uniq: "nb_live n j \<Longrightarrow> nb_key n j = k \<Longrightarrow> j = i" for j
    using I(4) i by (auto simp: slots_distinct_def nb_live_def)
  have live: "nb_live ?n' j \<longleftrightarrow> nb_live n j \<and> nb_key n j \<noteq> k" for j
    using uniq [of j] i by (auto simp: nb_live_def b)
  have s: "nb_slots ?n' = nb_slots n" "nb_tags ?n' = nb_tags n" by (simp_all add: nb_SetErase_def)
  have w: "slots_distinct 14 (nb_live ?n') (nb_key ?n') \<and>
      slot_view 14 (nb_live ?n') (nb_key ?n') (nb_val ?n') = (slot_view 14 (nb_live n) (nb_key n) (nb_val n))(k := None)"
    by (rule slots_erase [OF I(4)]) (auto simp: live s)
  have "nb_inv env ?n'" by (rule nb_invI) (use I w in \<open>auto simp: s b live\<close>)
  moreover have "nb_view n k \<noteq> None" using nb_probe_None [OF inv, of k] Some by auto
  ultimately show ?thesis using w by (simp add: nb_remove_def Some nb_view_def)
next
  case None
  then have "nb_view n k = None" by (simp add: nb_probe_None [OF inv])
  with None inv show ?thesis by (simp add: nb_remove_def fun_upd_idem)
qed

interpretation nb: kv_buffer "nb_inv env" nb_view "nb_insert env" "nb_find env" "nb_remove env" for env
proof unfold_locales
  fix n n' :: nodebuf and b k v
  assume inv: "nb_inv env n"
  show "nb_inv env n'" if "nb_insert env k v n = (b, n')"
    using nb_insert_cases [OF inv, of k v] that by simp
  show "nb_view n' = (nb_view n)(k \<mapsto> v)" if "nb_insert env k v n = (True, n')"
    using nb_insert_cases [OF inv, of k v] that by simp
  show "n' = n \<and> nb_view n k = None" if "nb_insert env k v n = (False, n')"
    using nb_insert_cases [OF inv, of k v] that by simp
  show "nb_find env k n = nb_view n k" by (rule nb_find_view [OF inv])
  show "nb_inv env n'" if "nb_remove env k n = (b, n')"
    using nb_remove_cases [OF inv, of k] that by simp
  show "nb_view n' = (nb_view n)(k := None) \<and> (b \<longleftrightarrow> nb_view n k \<noteq> None)" if "nb_remove env k n = (b, n')"
    using nb_remove_cases [OF inv, of k] that by simp
qed

text \<open>
  C18: whatever memory a node buffer is created in, after any sequence of \<open>insert\<close>, \<open>lookup\<close> and
  \<open>remove\<close> it answers like a partial map; an insertion is refused only for an absent key, and then nothing
  changes; at most 14 records are held, and \<open>Reset\<close> empties the buffer.
\<close>

theorem nodebuffer_refines_map:
  assumes "length ts = 16" "length ss = 14"
  shows "case kv_run (nb_insert env) (nb_find env) (nb_remove env) cs \<lparr>nb_valid = 0, nb_tags = ts, nb_slots = ss\<rparr> of
    (tr, n) \<Rightarrow> map fst tr = cs \<and> kv_trace Map.empty tr (nb_view n) \<and> nb_inv env n \<and> nb_Count n \<le> 14 \<and>
       nb_view (nb_Reset n) = Map.empty"
proof -
  let ?n0 = "\<lparr>nb_valid = 0, nb_tags = ts, nb_slots = ss\<rparr>"
  obtain tr n where run: "kv_run (nb_insert env) (nb_find env) (nb_remove env) cs ?n0 = (tr, n)" by fastforce
  note new = nb_inv_new [OF assms, of env]
  note t = nb.run_refines [OF conjunct1 [OF new] run]
  then have inv: "nb_inv env n" by simp
  have "{i. bit (nb_valid n) i} \<subseteq> {..<14}" using nb_invD(3) [OF inv] by auto
  from card_mono [OF _ this] have "nb_Count n \<le> 14" by (simp add: nb_Count_def popcount_card)
  with t kv_run_ops [OF run] nb_Reset_inv [OF inv] new show ?thesis by (simp add: run)
qed

definition sp_env_sample :: sp_env where
  "sp_env_sample = \<lparr>se_XXH3_64bits = (\<lambda>bs. ucast (hd bs)), se_XXH3_128bits = (\<lambda>bs. (ucast (hd bs), ucast (last bs)))\<rparr>"

theorem nodebuffer_refines_map_witness:
  "case kv_run (nb_insert sp_env_sample) (nb_find sp_env_sample) (nb_remove sp_env_sample) [Put 5 50, Put 5 51, Get 5, Del 5, Get 5]
      \<lparr>nb_valid = 0, nb_tags = replicate 16 5, nb_slots = replicate 14 \<lparr>ns_key = 5, ns_val = 9\<rparr>\<rparr> of
     (tr, n) \<Rightarrow> map snd tr = [PutRes True, PutRes True, GetRes (Some 51), DelRes True, GetRes None] \<and>
       kv_trace Map.empty tr (nb_view n)"
proof -
  let ?cs = "[Put 5 50, Put 5 51, Get 5, Del 5, Get 5]"
  let ?r = "kv_run (nb_insert sp_env_sample) (nb_find sp_env_sample) (nb_remove sp_env_sample) ?cs
      \<lparr>nb_valid = 0, nb_tags = replicate 16 5, nb_slots = replicate 14 \<lparr>ns_key = 5, ns_val = 9\<rparr>\<rparr>"
  have "map snd (fst ?r) = [PutRes True, PutRes True, GetRes (Some 51), DelRes True, GetRes None]" by code_simp
  with nodebuffer_refines_map [of "replicate 16 5" "replicate 14 \<lparr>ns_key = 5, ns_val = 9\<rparr>" ?cs sp_env_sample]
  show ?thesis by (simp only: length_replicate case_prod_beta)
qed

end
