(* ===== verification/LeafNode.thy ===== *)
theory LeafNode
  imports NodeBuffer
begin

text \<open>
  The leaf nodes of the SPTree (\<open>spoton-tree/bottomLayer.h\<close>, \<open>bottomLayer.cc\<close>): \<open>LeafNode64\<close> with 64
  slots, one fingerprint byte each, a validity bitmap and a sequence array filled by \<open>Sort\<close>; \<open>Merge\<close> with
  the next sibling and \<open>Split\<close> together with records to merge. Leaves live at addresses; a link is the
  address of a leaf or the null pointer. A failed \<open>exit (1)\<close> or a null dereference is \<open>None\<close>.
\<close>

section \<open>State\<close>

record leafslot =
  ls_key :: u64
  ls_val :: u64

record leaf =
  lf_lkey :: u64
  lf_hkey :: u64
  lf_prev :: "nat option"
  lf_next :: "nat option"
  lf_valid :: u64
  lf_cur_version :: u64
  lf_tags :: "u8 list"
  lf_slots :: "leafslot list"
  lf_seqs :: "u8 list"
  lf_sort_version :: u64

type_synonym leaf_heap = "nat \<rightharpoonup> leaf"

definition kLeafNodeCapacity :: nat where
  "kLeafNodeCapacity = 64"

text \<open>The constructor in raw memory: tags, slots and sequence bytes keep what the memory held.\<close>

definition lf_new :: "leaf \<Rightarrow> leaf" where
  "lf_new raw = raw\<lparr>lf_lkey := 0, lf_hkey := 0, lf_prev := None, lf_next := None, lf_valid := 0,
     lf_cur_version := 1, lf_sort_version := 0\<rparr>"

definition lf_SetPrev :: "nat option \<Rightarrow> leaf \<Rightarrow> leaf" where
  "lf_SetPrev p n = n\<lparr>lf_prev := p\<rparr>"

definition lf_SetNext :: "nat option \<Rightarrow> leaf \<Rightarrow> leaf" where
  "lf_SetNext p n = n\<lparr>lf_next := p\<rparr>"

definition lf_GetPrev :: "leaf \<Rightarrow> nat option" where
  "lf_GetPrev n = lf_prev n"

definition lf_GetNext :: "leaf \<Rightarrow> nat option" where
  "lf_GetNext n = lf_next n"

definition lf_NeedSort :: "leaf \<Rightarrow> bool" where
  "lf_NeedSort n \<longleftrightarrow> lf_cur_version n \<noteq> lf_sort_version n"

definition lf_MatchBitSet :: "u8 \<Rightarrow> leaf \<Rightarrow> u64" where
  "lf_MatchBitSet tag n = match_mask (lf_tags n) tag AND lf_valid n"

definition lf_Full :: "leaf \<Rightarrow> bool" where
  "lf_Full n \<longleftrightarrow> popcount (lf_valid n) = 64"

definition lf_Count :: "leaf \<Rightarrow> nat" where
  "lf_Count n = popcount (lf_valid n)"

definition lf_ValidBitSet :: "leaf \<Rightarrow> u64" where
  "lf_ValidBitSet n = lf_valid n"

definition lf_EmptyBitSet :: "leaf \<Rightarrow> u64" where
  "lf_EmptyBitSet n = NOT (lf_valid n)"

definition lf_SetValid :: "nat \<Rightarrow> leaf \<Rightarrow> leaf" where
  "lf_SetValid pos n = n\<lparr>lf_valid := lf_valid n OR shl1 pos\<rparr>"

definition lf_SetErase :: "nat \<Rightarrow> leaf \<Rightarrow> leaf" where
  "lf_SetErase pos n = n\<lparr>lf_valid := lf_valid n AND NOT (shl1 pos)\<rparr>"

definition lf_isValid :: "nat \<Rightarrow> leaf \<Rightarrow> bool" where
  "lf_isValid pos n \<longleftrightarrow> lf_valid n AND shl1 pos \<noteq> 0"

section \<open>Single-record operations\<close>

definition lf_probe :: "sp_env \<Rightarrow> u64 \<Rightarrow> leaf \<Rightarrow> nat option" where
  "lf_probe env key n =
     find (\<lambda>i. ls_key (lf_slots n ! i) = key) (nbs_walk (lf_MatchBitSet (sp_tag env key) n))"

definition lf_overwrite :: "nat \<Rightarrow> u64 \<Rightarrow> leaf \<Rightarrow> leaf" where
  "lf_overwrite i val n = n\<lparr>lf_slots := (lf_slots n)[i := (lf_slots n ! i)\<lparr>ls_val := val\<rparr>]\<rparr>"

definition lf_store :: "sp_env \<Rightarrow> u64 \<Rightarrow> u64 \<Rightarrow> nat \<Rightarrow> leaf \<Rightarrow> leaf" where
  "lf_store env key val si n = n\<lparr>lf_slots := (lf_slots n)[si := \<lparr>ls_key = key, ls_val = val\<rparr>],
     lf_tags := (lf_tags n)[si := sp_tag env key]\<rparr>"

definition lf_InsertiWithoutSetValidBitmap :: "sp_env \<Rightarrow> u64 \<Rightarrow> u64 \<Rightarrow> nat \<Rightarrow> leaf \<Rightarrow> bool \<times> leaf" where
  "lf_InsertiWithoutSetValidBitmap env key val si n =
     (case lf_probe env key n of
        Some i \<Rightarrow> (False, lf_overwrite i val n)
      | None \<Rightarrow> (True, lf_store env key val si n))"

text \<open>The flushes of \<open>Insert\<close> and \<open>Remove\<close> do not change the memory as the program reads it.\<close>

definition lf_Insert :: "sp_env \<Rightarrow> u64 \<Rightarrow> u64 \<Rightarrow> leaf \<Rightarrow> (bool \<times> nat) \<times> leaf" where
  "lf_Insert env key val n =
     (case lf_probe env key n of
        Some i \<Rightarrow> ((True, i), lf_overwrite i val n)
      | None \<Rightarrow>
          if \<not> lf_Full n then
            (let i = nbs_deref (lf_EmptyBitSet n); n1 = lf_store env key val i n;
                 n2 = n1\<lparr>lf_cur_version := lf_cur_version n1 + 1\<rparr>
             in ((True, i), lf_SetValid i n2))
          else ((False, 0), n))"

definition lf_Remove :: "sp_env \<Rightarrow> u64 \<Rightarrow> leaf \<Rightarrow> bool \<times> leaf" where
  "lf_Remove env key n =
     (case lf_probe env key n of
        Some i \<Rightarrow> (True, (lf_SetErase i n)\<lparr>lf_cur_version := lf_cur_version n + 1\<rparr>)
      | None \<Rightarrow> (False, n))"

text \<open>\<open>Lookup\<close> returns whether the key is there and stores the value through its reference argument.\<close>

definition lf_Lookup :: "sp_env \<Rightarrow> u64 \<Rightarrow> leaf \<Rightarrow> u64 option" where
  "lf_Lookup env key n = map_option (\<lambda>i. ls_val (lf_slots n ! i)) (lf_probe env key n)"

definition lf_put :: "sp_env \<Rightarrow> u64 \<Rightarrow> u64 \<Rightarrow> leaf \<Rightarrow> bool \<times> leaf" where
  "lf_put env key val n = (case lf_Insert env key val n of ((b, _), n') \<Rightarrow> (b, n'))"

section \<open>Sorted iteration\<close>

definition lf_Sort :: "leaf \<Rightarrow> leaf" where
  "lf_Sort n =
     (let valid_pos = sort_key (\<lambda>i. ls_key (lf_slots n ! i)) (nbs_walk (lf_ValidBitSet n))
      in n\<lparr>lf_seqs := map of_nat valid_pos @ drop (length valid_pos) (lf_seqs n),
           lf_sort_version := lf_cur_version n\<rparr>)"

definition lf_at :: "leaf \<Rightarrow> nat \<Rightarrow> leafslot" where
  "lf_at n j = lf_slots n ! unat (lf_seqs n ! j)"

function lf_bsearch :: "leaf \<Rightarrow> u64 \<Rightarrow> nat \<Rightarrow> nat \<Rightarrow> nat" where
  "lf_bsearch n searchKey l r =
     (if l < r then
        (let m = l + (r - l) div 2
         in if ls_key (lf_at n m) < searchKey then lf_bsearch n searchKey (m + 1) r
            else lf_bsearch n searchKey l m)
      else l)"
  by pat_completeness auto
termination
  by (relation "measure (\<lambda>(n, k, l, r). r - l)") auto

declare lf_bsearch.simps [simp del]

definition lf_SeekGE :: "u64 \<Rightarrow> leaf \<Rightarrow> nat option" where
  "lf_SeekGE searchKey n = (if lf_NeedSort n then None else Some (lf_bsearch n searchKey 0 (lf_Count n)))"

text \<open>\<open>Iterator (node, i)\<close>: the slots at the sequence positions from \<open>i\<close> to the count.\<close>

definition lf_iterate :: "leaf \<Rightarrow> nat \<Rightarrow> leafslot list" where
  "lf_iterate n i = map (lf_at n) [i..<lf_Count n]"

definition lf_begin :: "leaf \<Rightarrow> leafslot list" where
  "lf_begin n = lf_iterate n 0"

definition lf_beginAt :: "u64 \<Rightarrow> leaf \<Rightarrow> leafslot list option" where
  "lf_beginAt searchKey n = map_option (lf_iterate n) (lf_SeekGE searchKey n)"

section \<open>Batches of records\<close>

text \<open>
  The loops of \<open>Split\<close> (left half) and of \<open>FlushMLNodeBuffer\<close> place a record with
  \<open>InsertiWithoutSetValidBitmap\<close> and keep the free positions and the positions to validate later in two
  bitmaps; both only move on when the record was not an overwrite.
\<close>

definition lf_place :: "sp_env \<Rightarrow> u64 \<times> u64 \<Rightarrow> leaf \<times> u64 \<times> u64 \<Rightarrow> leaf \<times> u64 \<times> u64" where
  "lf_place env kv = (\<lambda>(n, emptySet, validSet).
     (let si = nbs_deref emptySet
      in case lf_InsertiWithoutSetValidBitmap env (fst kv) (snd kv) si n of
           (res, n') \<Rightarrow> if res then (n', nbs_advance emptySet, nbs_set si validSet) else (n', emptySet, validSet)))"

text \<open>\<open>Merge\<close> validates and moves on in any case.\<close>

definition lf_place_merge :: "sp_env \<Rightarrow> u64 \<times> u64 \<Rightarrow> leaf \<times> u64 \<times> u64 \<Rightarrow> leaf \<times> u64 \<times> u64" where
  "lf_place_merge env kv = (\<lambda>(n, emptySet, validSet).
     (let si = nbs_deref emptySet
      in case lf_InsertiWithoutSetValidBitmap env (fst kv) (snd kv) si n of
           (_, n') \<Rightarrow> (n', nbs_advance emptySet, nbs_set si validSet)))"

text \<open>The right half of \<open>Split\<close> validates in any case but moves on only without an overwrite.\<close>

definition lf_place_right :: "sp_env \<Rightarrow> u64 \<times> u64 \<Rightarrow> leaf \<times> u64 \<times> u64 \<Rightarrow> leaf \<times> u64 \<times> u64" where
  "lf_place_right env kv = (\<lambda>(n, emptySet, validSet).
     (let si = nbs_deref emptySet; validSet' = nbs_set si validSet
      in case lf_InsertiWithoutSetValidBitmap env (fst kv) (snd kv) si n of
           (res, n') \<Rightarrow> (n', if res then nbs_advance emptySet else emptySet, validSet')))"

text \<open>
  \<open>Merge\<close> of the leaf at \<open>l\<close> with its next sibling: \<open>Some (False, \<dots>)\<close> when the records do not fit.
\<close>

definition lf_records :: "leaf \<Rightarrow> (u64 \<times> u64) list" where
  "lf_records n = map (\<lambda>i. (ls_key (lf_slots n ! i), ls_val (lf_slots n ! i))) (nbs_walk (lf_ValidBitSet n))"

definition lf_Merge :: "sp_env \<Rightarrow> bloom \<Rightarrow> nat \<Rightarrow> leaf_heap \<Rightarrow> (bool \<times> bloom \<times> leaf_heap) option" where
  "lf_Merge env bloomfilterLeft l h =
     Option.bind (h l) (\<lambda>this.
     Option.bind (lf_GetNext this) (\<lambda>nx.
     Option.bind (h nx) (\<lambda>nextLeafNode.
       if lf_Count this + lf_Count nextLeafNode > 64 then Some (False, bloomfilterLeft, h)
       else
         (let b0 = bf_reset bloomfilterLeft;
              b1 = fold (bf_set env) (map fst (lf_records this)) b0
          in case fold (lf_place_merge env) (lf_records nextLeafNode) (this, lf_EmptyBitSet this, 0) of
               (this1, _, leftValidSet) \<Rightarrow>
                 (let b2 = fold (bf_set env) (map fst (lf_records nextLeafNode)) b1;
                      this2 = lf_SetNext (lf_GetNext nextLeafNode) this1;
                      h1 = h(l \<mapsto> this2)
                  in Option.bind (lf_GetNext nextLeafNode) (\<lambda>nn.
                     Option.bind (h1 nn) (\<lambda>after.
                       let h2 = h1(nn \<mapsto> lf_SetPrev (Some l) after)
                       in Option.bind (h2 l) (\<lambda>this3.
                          let this4 = this3\<lparr>lf_hkey := lf_hkey nextLeafNode, lf_cur_version := lf_cur_version this3 + 1\<rparr>;
                              this5 = this4\<lparr>lf_valid := lf_valid this4 OR leftValidSet\<rparr>
                          in Some (True, b2, h2(l \<mapsto> this5))))))))))"

text \<open>The first loop of \<open>Split\<close>: \<open>None\<close> is the \<open>exit (1)\<close> on an unexpected overwrite.\<close>

record split_state =
  sp_left :: leaf
  sp_right :: leaf
  sp_leftE :: u64
  sp_leftV :: u64
  sp_rightE :: u64
  sp_rightV :: u64
  sp_bleft :: bloom
  sp_bright :: bloom

fun lf_shift :: "sp_env \<Rightarrow> u64 \<Rightarrow> (u64 \<times> u64 \<times> nat) list \<Rightarrow> split_state \<Rightarrow> split_state option" where
  "lf_shift env median [] s = Some s"
| "lf_shift env median ((key, val, si) # kvs) s =
     (if key < median then lf_shift env median kvs (s\<lparr>sp_bleft := bf_set env key (sp_bleft s)\<rparr>)
      else
        (let left1 = lf_SetErase si (sp_left s); right_si = nbs_deref (sp_rightE s)
         in case lf_InsertiWithoutSetValidBitmap env key val right_si (sp_right s) of
              (res, right1) \<Rightarrow>
                if \<not> res then None
                else lf_shift env median kvs
                       (s\<lparr>sp_left := left1, sp_right := right1, sp_rightV := nbs_set right_si (sp_rightV s),
                          sp_rightE := nbs_advance (sp_rightE s), sp_bright := bf_set env key (sp_bright s)\<rparr>)))"

definition lf_split_merge1 :: "sp_env \<Rightarrow> u64 \<Rightarrow> u64 \<times> u64 \<Rightarrow> split_state \<Rightarrow> split_state" where
  "lf_split_merge1 env median kv s =
     (if fst kv < median then
        (case lf_place env kv (sp_left s, sp_leftE s, sp_leftV s) of (n, e, v) \<Rightarrow>
           s\<lparr>sp_left := n, sp_leftE := e, sp_leftV := v, sp_bleft := bf_set env (fst kv) (sp_bleft s)\<rparr>)
      else
        (case lf_place_right env kv (sp_right s, sp_rightE s, sp_rightV s) of (n, e, v) \<Rightarrow>
           s\<lparr>sp_right := n, sp_rightE := e, sp_rightV := v, sp_bright := bf_set env (fst kv) (sp_bright s)\<rparr>))"

definition lf_split_sorted :: "leaf \<Rightarrow> (u64 \<times> u64 \<times> nat) list" where
  "lf_split_sorted n =
     sort_key fst (map (\<lambda>i. (ls_key (lf_slots n ! i), ls_val (lf_slots n ! i), i)) (nbs_walk (lf_ValidBitSet n)))"

text \<open>\<open>Split\<close> of the leaf at \<open>l\<close>; the new leaf is built at \<open>a\<close>, in memory that held \<open>raw\<close>.\<close>

definition lf_Split :: "sp_env \<Rightarrow> (u64 \<times> u64) list \<Rightarrow> nat \<Rightarrow> leaf \<Rightarrow> bloom \<Rightarrow> bloom \<Rightarrow> nat \<Rightarrow> leaf_heap \<Rightarrow>
    ((nat \<times> u64) \<times> bloom \<times> bloom \<times> leaf_heap) option" where
  "lf_Split env toMergedRecords a raw bloomfilterLeft bloomfilterRight l h =
     Option.bind (h l) (\<lambda>this.
       let toSplitedKVs = lf_split_sorted this; count = lf_Count this
       in if count div 2 \<ge> length toSplitedKVs then None
          else
            (let median = fst (toSplitedKVs ! (count div 2)); newNode = lf_new raw
             in Option.bind (lf_shift env median toSplitedKVs
                  \<lparr>sp_left = this, sp_right = newNode, sp_leftE = 0, sp_leftV = 0,
                   sp_rightE = lf_EmptyBitSet newNode, sp_rightV = 0,
                   sp_bleft = bf_reset bloomfilterLeft, sp_bright = bf_reset bloomfilterRight\<rparr>) (\<lambda>s1.
                let left1 = sp_left s1;
                    right1 = lf_SetNext (lf_GetNext left1) (lf_SetPrev (Some l)
                      ((sp_right s1)\<lparr>lf_lkey := median, lf_hkey := lf_hkey left1\<rparr>));
                    h1 = h(l \<mapsto> left1, a \<mapsto> right1)
                in Option.bind (lf_GetNext left1) (\<lambda>nx.
                   Option.bind (h1 nx) (\<lambda>nxt.
                     let h2 = h1(nx \<mapsto> lf_SetPrev (Some a) nxt)
                     in Option.bind (h2 l) (\<lambda>left2.
                        Option.bind (h2 a) (\<lambda>right2.
                          let left3 = (lf_SetNext (Some a) left2)\<lparr>lf_hkey := median\<rparr>;
                              s2 = fold (lf_split_merge1 env median) toMergedRecords
                                (s1\<lparr>sp_left := left3, sp_right := right2, sp_leftE := lf_EmptyBitSet left1\<rparr>);
                              left4 = (sp_left s2)\<lparr>lf_cur_version := lf_cur_version (sp_left s2) + 1\<rparr>;
                              left5 = left4\<lparr>lf_valid := lf_valid left4 OR sp_leftV s2\<rparr>;
                              right5 = (sp_right s2)\<lparr>lf_valid := lf_valid (sp_right s2) OR sp_rightV s2\<rparr>
                          in Some ((a, median), sp_bleft s2, sp_bright s2, h2(l \<mapsto> left5, a \<mapsto> right5)))))))))"

section \<open>Invariant and abstraction\<close>

abbreviation lf_key :: "leaf \<Rightarrow> nat \<Rightarrow> u64" where
  "lf_key n i \<equiv> ls_key (lf_slots n ! i)"

abbreviation lf_val :: "leaf \<Rightarrow> nat \<Rightarrow> u64" where
  "lf_val n i \<equiv> ls_val (lf_slots n ! i)"

abbreviation lf_live :: "leaf \<Rightarrow> nat \<Rightarrow> bool" where
  "lf_live n i \<equiv> bit (lf_valid n) i"

definition lf_view :: "leaf \<Rightarrow> u64 \<rightharpoonup> u64" where
  "lf_view n = slot_view 64 (lf_live n) (lf_key n) (lf_val n)"

definition lf_shape :: "leaf \<Rightarrow> bool" where
  "lf_shape n \<longleftrightarrow> length (lf_tags n) = 64 \<and> length (lf_slots n) = 64 \<and> length (lf_seqs n) = 64"

definition lf_inv :: "sp_env \<Rightarrow> leaf \<Rightarrow> bool" where
  "lf_inv env n \<longleftrightarrow> lf_shape n \<and> slots_distinct 64 (lf_live n) (lf_key n) \<and>
     (\<forall>i < 64. lf_live n i \<longrightarrow> lf_tags n ! i = sp_tag env (lf_key n i))"

lemma bit_u64_less: "bit (w :: u64) i \<Longrightarrow> i < 64"
  using bit_imp_le_length [of w i] by simp

lemma lf_invI:
  assumes "length (lf_tags n) = 64" "length (lf_slots n) = 64" "length (lf_seqs n) = 64"
    "slots_distinct 64 (lf_live n) (lf_key n)" "\<And>i. lf_live n i \<Longrightarrow> lf_tags n ! i = sp_tag env (lf_key n i)"
  shows "lf_inv env n"
  using assms by (simp add: lf_inv_def lf_shape_def)

lemma lf_invD:
  assumes "lf_inv env n"
  shows "length (lf_tags n) = 64" "length (lf_slots n) = 64" "length (lf_seqs n) = 64"
    "slots_distinct 64 (lf_live n) (lf_key n)" "lf_live n i \<Longrightarrow> lf_tags n ! i = sp_tag env (lf_key n i)"
  using assms bit_u64_less [of "lf_valid n" i] by (simp_all add: lf_inv_def lf_shape_def)

lemma lf_live_eq: "lf_inv env n \<Longrightarrow> lf_live n i \<Longrightarrow> lf_live n j \<Longrightarrow> lf_key n i = lf_key n j \<Longrightarrow> i = j"
  using bit_u64_less [of "lf_valid n"] by (auto simp: lf_inv_def slots_distinct_def)

lemma bit_lf_Match:
  "length (lf_tags n) = 64 \<Longrightarrow> bit (lf_MatchBitSet t n) i \<longleftrightarrow> i < 64 \<and> lf_live n i \<and> lf_tags n ! i = t"
  by (auto simp: lf_MatchBitSet_def bitset_simps)

text \<open>A probe finds the first live slot of the key, also when keys are duplicated.\<close>

lemma lf_probe_find_raw:
  assumes "length (lf_tags n) = 64" and "\<And>i. lf_live n i \<Longrightarrow> lf_tags n ! i = sp_tag env (lf_key n i)"
  shows "lf_probe env k n = slot_find 64 (lf_live n) (lf_key n) k"
  unfolding lf_probe_def nbs.walk_bits_of
proof (rule probe_find)
  show "bit (lf_MatchBitSet (sp_tag env k) n) i \<longleftrightarrow> i < 64 \<and> lf_live n i \<and> lf_tags n ! i = sp_tag env k" for i
    by (rule bit_lf_Match [OF assms(1)])
  show "lf_tags n ! i = sp_tag env k" if "lf_live n i" "lf_key n i = k" for i
    using assms(2) [OF that(1)] that(2) by simp
qed simp

lemma lf_probe_find: "lf_inv env n \<Longrightarrow> lf_probe env k n = slot_find 64 (lf_live n) (lf_key n) k"
  by (rule lf_probe_find_raw) (auto dest: lf_invD)

lemma lf_Lookup_view: "lf_inv env n \<Longrightarrow> lf_Lookup env k n = lf_view n k"
  by (simp add: lf_Lookup_def lf_probe_find lf_view_def slot_view_def)

lemma lf_probe_Some:
  "lf_inv env n \<Longrightarrow> lf_probe env k n = Some i \<Longrightarrow> i < 64 \<and> lf_live n i \<and> lf_key n i = k"
  by (simp add: lf_probe_find) (drule slot_find_SomeD, simp)

lemma lf_probe_None: "lf_inv env n \<Longrightarrow> lf_probe env k n = None \<longleftrightarrow> lf_view n k = None"
  by (simp add: lf_probe_find lf_view_def slot_view_def)

lemma lf_view_Some:
  "lf_inv env n \<Longrightarrow> lf_view n k = Some v \<longleftrightarrow> (\<exists>i. lf_live n i \<and> lf_key n i = k \<and> lf_val n i = v)"
proof
  assume "lf_view n k = Some v"
  then show "\<exists>i. lf_live n i \<and> lf_key n i = k \<and> lf_val n i = v"
    unfolding lf_view_def by (auto dest: slot_view_SomeD)
next
  assume inv: "lf_inv env n" and "\<exists>i. lf_live n i \<and> lf_key n i = k \<and> lf_val n i = v"
  then obtain i where i: "lf_live n i" "lf_key n i = k" "lf_val n i = v" by blast
  from slot_view_eq [OF lf_invD(4) [OF inv] bit_u64_less [OF i(1)] i(1,2), of "lf_val n"] i(3)
  show "lf_view n k = Some v" by (simp add: lf_view_def)
qed

lemma lf_view_None: "lf_view n k = None \<longleftrightarrow> (\<forall>i. lf_live n i \<longrightarrow> lf_key n i \<noteq> k)"
  unfolding lf_view_def slot_view_None using bit_u64_less by blast

lemma lf_view_dom: "lf_inv env n \<Longrightarrow> dom (lf_view n) = lf_key n ` {i. lf_live n i}"
  by (auto simp: lf_view_Some)

lemma lf_Count_card:
  assumes "lf_inv env n"
  shows "lf_Count n = card (dom (lf_view n))"
proof -
  have "inj_on (lf_key n) {i. lf_live n i}" by (rule inj_onI) (auto intro: lf_live_eq [OF assms])
  then show ?thesis by (simp add: lf_Count_def popcount_card lf_view_dom [OF assms] card_image)
qed

text \<open>Fields that neither the probe nor the view depends on.\<close>

lemma lf_view_cong:
  "lf_valid n' = lf_valid n \<Longrightarrow> lf_slots n' = lf_slots n \<Longrightarrow> lf_view n' = lf_view n"
  by (simp add: lf_view_def)

lemma lf_inv_cong:
  "lf_valid n' = lf_valid n \<Longrightarrow> lf_slots n' = lf_slots n \<Longrightarrow> lf_tags n' = lf_tags n \<Longrightarrow>
   length (lf_seqs n') = length (lf_seqs n) \<Longrightarrow> lf_inv env n' = lf_inv env n"
  by (simp add: lf_inv_def lf_shape_def)

lemma lf_new_fields [simp]:
  "lf_valid (lf_new raw) = 0" "lf_tags (lf_new raw) = lf_tags raw" "lf_slots (lf_new raw) = lf_slots raw"
  "lf_seqs (lf_new raw) = lf_seqs raw" "lf_cur_version (lf_new raw) = 1" "lf_sort_version (lf_new raw) = 0"
  "lf_prev (lf_new raw) = None" "lf_next (lf_new raw) = None"
  by (simp_all add: lf_new_def)

lemma lf_new_inv: "lf_shape raw \<Longrightarrow> lf_inv env (lf_new raw) \<and> lf_view (lf_new raw) = Map.empty"
  by (auto simp: lf_inv_def lf_shape_def lf_view_None slots_distinct_def fun_eq_iff)

section \<open>Writing a record\<close>

text \<open>
  \<open>lf_or P n\<close> is the leaf once the positions \<open>P\<close> have been validated; the batch operations are followed on
  it, with \<open>P\<close> the positions still to be validated.
\<close>

definition lf_or :: "u64 \<Rightarrow> leaf \<Rightarrow> leaf" where
  "lf_or P n = n\<lparr>lf_valid := lf_valid n OR P\<rparr>"

lemma lf_or_fields [simp]:
  "lf_tags (lf_or P n) = lf_tags n" "lf_slots (lf_or P n) = lf_slots n" "lf_seqs (lf_or P n) = lf_seqs n"
  "lf_valid (lf_or P n) = lf_valid n OR P"
  by (simp_all add: lf_or_def)

lemma lf_or_0 [simp]: "lf_or 0 n = n"
  by (simp add: lf_or_def)

definition lf_data_eq :: "leaf \<Rightarrow> leaf \<Rightarrow> bool" where
  "lf_data_eq n n' \<longleftrightarrow> n' = n\<lparr>lf_tags := lf_tags n', lf_slots := lf_slots n'\<rparr>"

lemma lf_data_eqD:
  "lf_data_eq n n' \<Longrightarrow> lf_valid n' = lf_valid n \<and> lf_lkey n' = lf_lkey n \<and> lf_hkey n' = lf_hkey n \<and>
     lf_prev n' = lf_prev n \<and> lf_next n' = lf_next n \<and> lf_cur_version n' = lf_cur_version n \<and>
     lf_sort_version n' = lf_sort_version n \<and> lf_seqs n' = lf_seqs n"
  unfolding lf_data_eq_def by (cases n, cases n') simp

lemma lf_data_eq_refl [simp]: "lf_data_eq n n"
  by (simp add: lf_data_eq_def)

lemma lf_data_eq_trans: "lf_data_eq a b \<Longrightarrow> lf_data_eq b c \<Longrightarrow> lf_data_eq a c"
  unfolding lf_data_eq_def by (cases a, cases b, cases c) simp

lemma lf_data_eq_store [simp]: "lf_data_eq n (lf_store env k v i n)"
  by (simp add: lf_data_eq_def lf_store_def)

lemma lf_data_eq_overwrite [simp]: "lf_data_eq n (lf_overwrite i v n)"
  by (simp add: lf_data_eq_def lf_overwrite_def)

lemma lf_write:
  assumes inv: "lf_inv env n" and p: "p < 64" and free: "lf_live n p \<Longrightarrow> lf_key n p = k"
    and uniq: "\<And>i. lf_live n i \<Longrightarrow> lf_key n i = k \<Longrightarrow> i = p"
    and f: "lf_tags n' = (lf_tags n)[p := sp_tag env k]" "lf_slots n' = (lf_slots n)[p := \<lparr>ls_key = k, ls_val = v\<rparr>]"
      "length (lf_seqs n') = 64"
    and b: "\<And>i. lf_live n' i \<longleftrightarrow> i = p \<or> lf_live n i"
  shows "lf_inv env n' \<and> lf_view n' = (lf_view n)(k \<mapsto> v)"
proof -
  note I = lf_invD [OF inv]
  have slot: "lf_slots n' ! i = (if i = p then \<lparr>ls_key = k, ls_val = v\<rparr> else lf_slots n ! i)" for i
    using p I(2) by (simp add: f slot_simps)
  have w: "slots_distinct 64 (lf_live n') (lf_key n') \<and>
      slot_view 64 (lf_live n') (lf_key n') (lf_val n') = (slot_view 64 (lf_live n) (lf_key n) (lf_val n))(k \<mapsto> lf_val n' p)"
  proof (rule slots_write [OF I(4) p])
    show "lf_live n' i \<longleftrightarrow> lf_live n i \<and> lf_key n i \<noteq> k" if "i \<noteq> p" for i
      using that uniq [of i] by (auto simp: b)
  qed (simp_all add: b slot free)
  have "lf_inv env n'"
  proof (rule lf_invI)
    show "lf_tags n' ! i = sp_tag env (lf_key n' i)" if "lf_live n' i" for i
      using that I(1,2) I(5) [of i] p by (auto simp: b f slot_simps split: if_splits)
    show "slots_distinct 64 (lf_live n') (lf_key n')" by (rule conjunct1 [OF w])
  qed (simp_all add: f I(1,2))
  with w show ?thesis by (simp add: lf_view_def slot)
qed

lemma lf_overwrite_inv:
  assumes inv: "lf_inv env n" and i: "lf_live n i" "lf_key n i = k"
  shows "lf_inv env (lf_overwrite i v n) \<and> lf_view (lf_overwrite i v n) = (lf_view n)(k \<mapsto> v)"
proof (rule lf_write [OF inv bit_u64_less [OF i(1)] i(2)])
  show "j = i" if "lf_live n j" "lf_key n j = k" for j using lf_live_eq [OF inv that(1) i(1)] that i by simp
  show "lf_tags (lf_overwrite i v n) = (lf_tags n)[i := sp_tag env k]"
    using lf_invD(5) [OF inv i(1)] i(2) list_update_id [of "lf_tags n" i] by (simp add: lf_overwrite_def)
  show "lf_slots (lf_overwrite i v n) = (lf_slots n)[i := \<lparr>ls_key = k, ls_val = v\<rparr>]"
    using i(2) by (cases "lf_slots n ! i") (simp add: lf_overwrite_def)
qed (use i lf_invD(3) [OF inv] in \<open>auto simp: lf_overwrite_def\<close>)

lemma lf_store_inv:
  assumes inv: "lf_inv env n" and p: "p < 64" "\<not> lf_live n p" and absent: "lf_view n k = None"
    and n': "lf_tags n' = lf_tags (lf_store env k v p n)" "lf_slots n' = lf_slots (lf_store env k v p n)"
      "length (lf_seqs n') = 64" "\<And>i. lf_live n' i \<longleftrightarrow> i = p \<or> lf_live n i"
  shows "lf_inv env n' \<and> lf_view n' = (lf_view n)(k \<mapsto> v)"
  by (rule lf_write [OF inv p(1)]) (use p absent n' in \<open>auto simp: lf_store_def lf_view_None\<close>)

lemma lf_Empty_deref:
  assumes "\<not> lf_Full n"
  shows "nbs_deref (lf_EmptyBitSet n) < 64 \<and> \<not> lf_live n (nbs_deref (lf_EmptyBitSet n))"
proof -
  have "lf_EmptyBitSet n \<noteq> 0"
  proof
    assume "lf_EmptyBitSet n = 0"
    then have "bit (NOT (lf_valid n)) i \<longleftrightarrow> False" for i by (simp add: lf_EmptyBitSet_def)
    then have "{i. lf_live n i} = {..<64}" by (auto simp: bitset_simps dest: bit_u64_less)
    then show False using assms by (simp add: lf_Full_def popcount_card)
  qed
  from bit_ctz [OF this] show ?thesis by (simp add: nbs_deref_def lf_EmptyBitSet_def bitset_simps)
qed

section \<open>The leaf as a bounded map\<close>

lemma lf_put_cases:
  assumes inv: "lf_inv env n"
  shows "case lf_put env k v n of (b, n') \<Rightarrow> lf_inv env n' \<and>
    (if b then lf_view n' = (lf_view n)(k \<mapsto> v) else n' = n \<and> lf_view n k = None \<and> lf_Full n)"
proof (cases "lf_probe env k n")
  case (Some i)
  from lf_probe_Some [OF inv Some] lf_overwrite_inv [OF inv, of i k v] Some
  show ?thesis by (simp add: lf_put_def lf_Insert_def)
next
  case None
  then have absent: "lf_view n k = None" by (simp add: lf_probe_None [OF inv])
  show ?thesis
  proof (cases "lf_Full n")
    case False
    let ?i = "nbs_deref (lf_EmptyBitSet n)"
    let ?n1 = "lf_store env k v ?i n"
    define n' where "n' = lf_SetValid ?i (?n1\<lparr>lf_cur_version := lf_cur_version ?n1 + 1\<rparr>)"
    note e = lf_Empty_deref [OF False]
    have f: "lf_tags n' = lf_tags ?n1" "lf_slots n' = lf_slots ?n1" "lf_seqs n' = lf_seqs n"
      "lf_valid n' = lf_valid n OR shl1 ?i"
      by (simp_all add: n'_def lf_SetValid_def lf_store_def)
    have "lf_inv env n' \<and> lf_view n' = (lf_view n)(k \<mapsto> v)"
    proof (rule lf_store_inv [OF inv conjunct1 [OF e] conjunct2 [OF e] absent f(1,2)])
      show "length (lf_seqs n') = 64" by (simp add: f lf_invD(3) [OF inv])
      show "lf_live n' i \<longleftrightarrow> i = ?i \<or> lf_live n i" for i
        using conjunct1 [OF e] by (simp only: f bit_or_iff bit_shl1) auto
    qed
    moreover have "lf_put env k v n = (True, n')"
      by (simp only: lf_put_def lf_Insert_def None option.case False Let_def if_True simp_thms prod.case n'_def)
    ultimately show ?thesis by simp
  qed (use None absent inv in \<open>simp add: lf_put_def lf_Insert_def\<close>)
qed

lemma lf_erase_inv:
  assumes inv: "lf_inv env n" and i: "lf_live n i" "lf_key n i = k"
    and n': "lf_slots n' = lf_slots n" "lf_tags n' = lf_tags n" "length (lf_seqs n') = 64"
      "lf_valid n' = lf_valid n AND NOT (shl1 i)"
  shows "lf_inv env n' \<and> lf_view n' = (lf_view n)(k := None)"
proof -
  note I = lf_invD [OF inv]
  have live: "lf_live n' j \<longleftrightarrow> lf_live n j \<and> lf_key n j \<noteq> k" for j
  proof -
    have "lf_live n' j \<longleftrightarrow> lf_live n j \<and> j \<noteq> i"
      using bit_u64_less [of "lf_valid n" j] bit_u64_less [OF i(1)]
      by (simp only: n'(4) bit_and_iff bit_not_word bit_shl1) auto
    then show ?thesis using lf_live_eq [OF inv _ i(1), of j] i by auto
  qed
  have w: "slots_distinct 64 (lf_live n') (lf_key n') \<and>
      slot_view 64 (lf_live n') (lf_key n') (lf_val n') = (slot_view 64 (lf_live n) (lf_key n) (lf_val n))(k := None)"
    by (rule slots_erase [OF I(4)]) (simp_all only: live n'(1))
  have "lf_inv env n'"
  proof (rule lf_invI)
    show "lf_tags n' ! j = sp_tag env (lf_key n' j)" if "lf_live n' j" for j
      using that I(5) [of j] by (simp only: live n'(1,2))
  qed (simp_all only: n'(1-3) I(1,2) conjunct1 [OF w, unfolded n'(1)])
  with w show ?thesis by (simp add: lf_view_def)
qed

lemma lf_Remove_cases:
  assumes inv: "lf_inv env n"
  shows "case lf_Remove env k n of (b, n') \<Rightarrow> lf_inv env n' \<and> lf_view n' = (lf_view n)(k := None) \<and>
    (b \<longleftrightarrow> lf_view n k \<noteq> None)"
proof (cases "lf_probe env k n")
  case (Some i)
  from lf_probe_Some [OF inv Some] have i: "lf_live n i" "lf_key n i = k" by auto
  moreover have "lf_view n k \<noteq> None" using lf_probe_None [OF inv, of k] Some by auto
  ultimately show ?thesis
    using lf_erase_inv [OF inv i, of "(lf_SetErase i n)\<lparr>lf_cur_version := lf_cur_version n + 1\<rparr>"] lf_invD(3) [OF inv]
    by (simp add: lf_Remove_def Some lf_SetErase_def)
next
  case None
  then have "lf_view n k = None" by (simp add: lf_probe_None [OF inv])
  with None inv show ?thesis by (simp add: lf_Remove_def fun_upd_idem)
qed

interpretation lf: kv_buffer "lf_inv env" lf_view "lf_put env" "lf_Lookup env" "lf_Remove env" for env
proof unfold_locales
  fix n n' :: leaf and b k v
  assume inv: "lf_inv env n"
  show "lf_inv env n'" if "lf_put env k v n = (b, n')"
    using lf_put_cases [OF inv, of k v] that by simp
  show "lf_view n' = (lf_view n)(k \<mapsto> v)" if "lf_put env k v n = (True, n')"
    using lf_put_cases [OF inv, of k v] that by simp
  show "n' = n \<and> lf_view n k = None" if "lf_put env k v n = (False, n')"
    using lf_put_cases [OF inv, of k v] that by simp
  show "lf_Lookup env k n = lf_view n k" by (rule lf_Lookup_view [OF inv])
  show "lf_inv env n'" if "lf_Remove env k n = (b, n')"
    using lf_Remove_cases [OF inv, of k] that by simp
  show "lf_view n' = (lf_view n)(k := None) \<and> (b \<longleftrightarrow> lf_view n k \<noteq> None)" if "lf_Remove env k n = (b, n')"
    using lf_Remove_cases [OF inv, of k] that by simp
qed

text \<open>
  C13: a leaf created in any memory and driven by any sequence of \<open>Insert\<close>, \<open>Lookup\<close> and \<open>Remove\<close> answers
  like a partial map of at most 64 records; an insertion is refused only for an absent key.
\<close>

theorem leaf_refines_map:
  assumes "lf_shape raw"
  shows "case kv_run (lf_put env) (lf_Lookup env) (lf_Remove env) cs (lf_new raw) of
    (tr, n) \<Rightarrow> map fst tr = cs \<and> kv_trace Map.empty tr (lf_view n) \<and> lf_inv env n \<and>
       lf_Count n = card (dom (lf_view n)) \<and> lf_Count n \<le> kLeafNodeCapacity"
proof -
  obtain tr n where run: "kv_run (lf_put env) (lf_Lookup env) (lf_Remove env) cs (lf_new raw) = (tr, n)" by fastforce
  note new = lf_new_inv [OF assms, of env]
  note t = lf.run_refines [OF conjunct1 [OF new] run]
  have "lf_Count n \<le> 64" using popcount_le [of "lf_valid n"] by (simp add: lf_Count_def)
  with t kv_run_ops [OF run] new lf_Count_card [of env n] show ?thesis
    by (simp add: run kLeafNodeCapacity_def)
qed

definition lf_raw_sample :: leaf where
  "lf_raw_sample = \<lparr>lf_lkey = 9, lf_hkey = 9, lf_prev = None, lf_next = None, lf_valid = 7, lf_cur_version = 9,
     lf_tags = replicate 64 5, lf_slots = replicate 64 \<lparr>ls_key = 5, ls_val = 9\<rparr>,
     lf_seqs = replicate 64 3, lf_sort_version = 9\<rparr>"

lemma lf_raw_sample_shape: "lf_shape lf_raw_sample"
  by (simp add: lf_raw_sample_def lf_shape_def)

theorem leaf_refines_map_witness:
  "case kv_run (lf_put sp_env_sample) (lf_Lookup sp_env_sample) (lf_Remove sp_env_sample) [Put 5 50, Get 5, Del 5, Get 5]
      (lf_new lf_raw_sample) of
     (tr, n) \<Rightarrow> map snd tr = [PutRes True, GetRes (Some 50), DelRes True, GetRes None] \<and>
       kv_trace Map.empty tr (lf_view n)"
proof -
  let ?cs = "[Put 5 50, Get 5, Del 5, Get 5]"
  let ?r = "kv_run (lf_put sp_env_sample) (lf_Lookup sp_env_sample) (lf_Remove sp_env_sample) ?cs (lf_new lf_raw_sample)"
  have "map snd (fst ?r) = [PutRes True, GetRes (Some 50), DelRes True, GetRes None]" by code_simp
  with leaf_refines_map [OF lf_raw_sample_shape, of ?cs sp_env_sample] show ?thesis by (simp only: case_prod_beta)
qed

section \<open>Sorting and seeking\<close>

definition lf_sorted_pos :: "leaf \<Rightarrow> nat list" where
  "lf_sorted_pos n = sort_key (lf_key n) (bits_of (lf_valid n))"

lemma lf_sorted_pos_simps [simp]:
  "set (lf_sorted_pos n) = {i. lf_live n i}" "length (lf_sorted_pos n) = lf_Count n" "distinct (lf_sorted_pos n)"
  "sorted (map (lf_key n) (lf_sorted_pos n))"
  by (simp_all add: lf_sorted_pos_def lf_Count_def popcount_def)

definition lf_sorted :: "leaf \<Rightarrow> bool" where
  "lf_sorted n \<longleftrightarrow> map unat (take (lf_Count n) (lf_seqs n)) = lf_sorted_pos n"

lemma lf_Count_le: "lf_Count n \<le> 64"
  using popcount_le [of "lf_valid n"] by (simp add: lf_Count_def)

lemma lf_Sort_eq:
  "lf_Sort n = n\<lparr>lf_seqs := map of_nat (lf_sorted_pos n) @ drop (lf_Count n) (lf_seqs n), lf_sort_version := lf_cur_version n\<rparr>"
proof -
  have "lf_Sort n = n\<lparr>lf_seqs := map of_nat (lf_sorted_pos n) @ drop (length (lf_sorted_pos n)) (lf_seqs n),
      lf_sort_version := lf_cur_version n\<rparr>"
    by (simp only: lf_Sort_def Let_def nbs.walk_bits_of lf_sorted_pos_def lf_ValidBitSet_def)
  then show ?thesis by simp
qed

lemma lf_Sort_fields [simp]:
  "lf_valid (lf_Sort n) = lf_valid n" "lf_slots (lf_Sort n) = lf_slots n" "lf_tags (lf_Sort n) = lf_tags n"
  "lf_lkey (lf_Sort n) = lf_lkey n" "lf_hkey (lf_Sort n) = lf_hkey n" "lf_prev (lf_Sort n) = lf_prev n"
  "lf_next (lf_Sort n) = lf_next n" "lf_Count (lf_Sort n) = lf_Count n" "lf_sorted_pos (lf_Sort n) = lf_sorted_pos n"
  by (simp_all add: lf_Sort_eq lf_Count_def lf_sorted_pos_def)

lemma lf_pos_byte: "lf_live n i \<Longrightarrow> unat (of_nat i :: u8) = i"
  using bit_u64_less [of "lf_valid n" i] by (simp add: unsigned_of_nat take_bit_nat_eq_self)

lemma lf_Sort_sorted: "lf_sorted (lf_Sort n)"
proof -
  have "map (unat \<circ> (of_nat :: nat \<Rightarrow> u8)) (lf_sorted_pos n) = map id (lf_sorted_pos n)"
    by (rule map_cong) (simp_all add: lf_pos_byte)
  then show ?thesis by (simp add: lf_sorted_def) (simp add: lf_Sort_eq)
qed

lemma lf_Sort_inv: "lf_inv env n \<Longrightarrow> lf_inv env (lf_Sort n) \<and> lf_view (lf_Sort n) = lf_view n"
proof
  assume inv: "lf_inv env n"
  have "length (lf_seqs (lf_Sort n)) = 64"
    using lf_Count_le [of n] lf_invD(3) [OF inv] by (simp add: lf_Sort_eq)
  then show "lf_inv env (lf_Sort n)" using inv lf_inv_cong [of "lf_Sort n" n env] lf_invD(3) [OF inv] by simp
qed (simp add: lf_view_def)

lemma lf_sorted_at:
  assumes "lf_sorted n" "lf_inv env n" "j < lf_Count n"
  shows "lf_at n j = lf_slots n ! (lf_sorted_pos n ! j)"
proof -
  have "length (lf_seqs n) = 64" using assms(2) by (rule lf_invD)
  then have "map unat (take (lf_Count n) (lf_seqs n)) ! j = unat (lf_seqs n ! j)"
    using assms(3) lf_Count_le [of n] by (subst nth_map) auto
  with assms(1) show ?thesis by (simp add: lf_at_def lf_sorted_def)
qed

lemma lf_sorted_begin:
  "lf_sorted n \<Longrightarrow> lf_inv env n \<Longrightarrow> lf_begin n = map (\<lambda>i. lf_slots n ! i) (lf_sorted_pos n)"
  by (rule nth_equalityI) (auto simp: lf_begin_def lf_iterate_def lf_sorted_at)

lemma lf_sorted_strict:
  assumes "lf_inv env n"
  shows "sorted_wrt (<) (map (lf_key n) (lf_sorted_pos n))"
proof -
  have "inj_on (lf_key n) {i. lf_live n i}" by (rule inj_onI) (auto intro: lf_live_eq [OF assms])
  then show ?thesis by (simp add: strict_sorted_iff distinct_map)
qed

lemma lf_bsearch_spec:
  assumes "l \<le> r" "r \<le> c" "sorted (map (\<lambda>j. ls_key (lf_at n j)) [0..<c])"
    "\<And>j. j < l \<Longrightarrow> ls_key (lf_at n j) < k" "\<And>j. r \<le> j \<Longrightarrow> j < c \<Longrightarrow> k \<le> ls_key (lf_at n j)"
  shows "lf_bsearch n k l r \<le> c \<and> (\<forall>j < c. ls_key (lf_at n j) < k \<longleftrightarrow> j < lf_bsearch n k l r)"
  using assms
proof (induction n k l r rule: lf_bsearch.induct)
  case (1 n k l r)
  let ?key = "\<lambda>j. ls_key (lf_at n j)"
  have mono: "?key i \<le> ?key j" if "i \<le> j" "j < c" for i j
    using sorted_nth_mono [OF 1(5), of i j] that by simp
  show ?case
  proof (cases "l < r")
    case False
    with 1(3) have "l = r" by simp
    moreover from False have "lf_bsearch n k l r = l" by (subst lf_bsearch.simps) simp
    ultimately have "lf_bsearch n k l r = l" "l = r" by simp_all
    with 1(4,6,7) show ?thesis by (auto simp: not_le not_less [symmetric] intro: leI)
  next
    case True
    let ?m = "l + (r - l) div 2"
    have m: "l \<le> ?m" "?m < r" using True by auto
    show ?thesis
    proof (cases "?key ?m < k")
      case lt: True
      have step: "lf_bsearch n k l r = lf_bsearch n k (?m + 1) r"
        using True lt by (subst lf_bsearch.simps) (simp add: Let_def)
      show ?thesis unfolding step
      proof (rule 1(1) [OF True refl lt])
        show "?m + 1 \<le> r" using m by simp
        show "?key j < k" if "j < ?m + 1" for j
          by (rule le_less_trans [OF mono [of j ?m] lt]) (use that m 1(4) in auto)
      qed (fact 1(4) 1(5) 1(7))+
    next
      case ge: False
      have step: "lf_bsearch n k l r = lf_bsearch n k l ?m"
        using True ge by (subst lf_bsearch.simps) (simp add: Let_def)
      show ?thesis unfolding step
      proof (rule 1(2) [OF True refl ge])
        show "k \<le> ?key j" if "?m \<le> j" "j < c" for j
          using mono [OF that] ge by simp
        show "?m \<le> c" using m 1(4) by simp
      qed (use m in \<open>simp_all add: 1(5,6)\<close>)
    qed
  qed
qed

lemma sorted_filter_ge:
  assumes "sorted (map f xs)" "p \<le> length xs" "\<And>j. j < length xs \<Longrightarrow> f (xs ! j) < (k :: 'a :: linorder) \<longleftrightarrow> j < p"
  shows "drop p xs = filter (\<lambda>x. k \<le> f x) xs"
proof -
  have "filter (\<lambda>x. k \<le> f x) (take p xs) = []"
    using assms(2,3) by (auto simp: filter_empty_conv in_set_conv_nth not_le)
  moreover have "filter (\<lambda>x. k \<le> f x) (drop p xs) = drop p xs"
  proof (rule filter_True, rule ballI)
    fix x assume "x \<in> set (drop p xs)"
    then obtain j where "j < length xs - p" "x = xs ! (p + j)" using assms(2) by (auto simp: in_set_conv_nth)
    with assms(3) [of "p + j"] show "k \<le> f x" by (simp add: not_less)
  qed
  ultimately show ?thesis by (metis append_Nil append_take_drop_id filter_append)
qed

lemma lf_beginAt_sorted:
  assumes inv: "lf_inv env n" and s: "lf_sorted n" and f: "\<not> lf_NeedSort n"
  shows "lf_beginAt k n = Some (filter (\<lambda>sl. k \<le> ls_key sl) (lf_begin n))"
proof -
  let ?p = "lf_bsearch n k 0 (lf_Count n)"
  have keys: "map (\<lambda>j. ls_key (lf_at n j)) [0..<lf_Count n] = map (lf_key n) (lf_sorted_pos n)"
    using arg_cong [OF lf_sorted_begin [OF s inv], of "map ls_key"]
    by (simp add: lf_begin_def lf_iterate_def comp_def)
  then have sorted: "sorted (map (\<lambda>j. ls_key (lf_at n j)) [0..<lf_Count n])" by simp
  have p: "?p \<le> lf_Count n \<and> (\<forall>j < lf_Count n. ls_key (lf_at n j) < k \<longleftrightarrow> j < ?p)"
    by (rule lf_bsearch_spec) (use sorted in auto)
  have "lf_iterate n ?p = drop ?p (lf_begin n)"
    by (simp add: lf_begin_def lf_iterate_def drop_map)
  also have "\<dots> = filter (\<lambda>sl. k \<le> ls_key sl) (lf_begin n)"
    by (rule sorted_filter_ge) (use sorted p in \<open>auto simp: lf_begin_def lf_iterate_def comp_def\<close>)
  finally show ?thesis using f by (simp add: lf_beginAt_def lf_SeekGE_def)
qed

text \<open>The freshness of the sequence array; \<open>cur_version\<close> counts the structural changes.\<close>

definition lf_fresh :: "leaf \<Rightarrow> bool" where
  "lf_fresh n \<longleftrightarrow> lf_sort_version n \<le> lf_cur_version n \<and> (\<not> lf_NeedSort n \<longrightarrow> lf_sorted n)"

lemma lf_new_fresh: "lf_fresh (lf_new raw)"
  by (simp add: lf_fresh_def lf_NeedSort_def)

lemma lf_Sort_fresh: "lf_fresh (lf_Sort n) \<and> \<not> lf_NeedSort (lf_Sort n)"
  using lf_Sort_sorted [of n] by (simp add: lf_fresh_def lf_NeedSort_def lf_Sort_eq)

lemma less_x_plus_1': "(x :: 'a::len word) < -1 \<Longrightarrow> x < x + 1"
  by (metis inc_less_eq_self_iff_eq less_irrefl not_le)

lemma lf_bump_fresh:
  "lf_fresh n \<Longrightarrow> lf_cur_version n < -1 \<Longrightarrow> lf_cur_version n' = lf_cur_version n + 1 \<Longrightarrow>
   lf_sort_version n' = lf_sort_version n \<Longrightarrow> lf_fresh n' \<and> lf_NeedSort n'"
proof -
  assume a: "lf_fresh n" "lf_cur_version n < -1" "lf_cur_version n' = lf_cur_version n + 1"
    "lf_sort_version n' = lf_sort_version n"
  have "lf_cur_version n < lf_cur_version n + 1" using a(2) by (rule less_x_plus_1')
  with a show ?thesis by (auto simp: lf_fresh_def lf_NeedSort_def)
qed

lemma insort_key_cong: "f x = g x \<Longrightarrow> (\<And>y. y \<in> set ys \<Longrightarrow> f y = g y) \<Longrightarrow> insort_key f x ys = insort_key g x ys"
  by (induction ys) auto

lemma sort_key_cong: "(\<And>y. y \<in> set ys \<Longrightarrow> f y = g y) \<Longrightarrow> sort_key f ys = sort_key g ys"
proof (induction ys)
  case (Cons y ys)
  then have "insort_key f y (sort_key g ys) = insort_key g y (sort_key g ys)" by (intro insort_key_cong) auto
  with Cons show ?case by simp
qed simp

lemma lf_keys_fresh:
  assumes "lf_fresh n" "lf_valid n' = lf_valid n" "\<And>i. lf_live n i \<Longrightarrow> lf_key n' i = lf_key n i"
    "lf_seqs n' = lf_seqs n" "lf_cur_version n' = lf_cur_version n" "lf_sort_version n' = lf_sort_version n"
  shows "lf_fresh n'"
proof -
  have "lf_sorted_pos n' = lf_sorted_pos n"
    unfolding lf_sorted_pos_def assms(2) by (rule sort_key_cong) (auto simp: assms(3))
  then show ?thesis using assms by (simp add: lf_fresh_def lf_NeedSort_def lf_sorted_def lf_Count_def)
qed

text \<open>
  C16: \<open>Sort\<close> leaves the contents unchanged; after it the iterator yields every record once in strictly
  ascending (unsigned) key order, and \<open>beginAt (k)\<close>, that is the binary search of \<open>SeekGE\<close>, starts at the first
  key not below \<open>k\<close>; an insertion of a new key or a removal makes the leaf need sorting again, unless the
  version counter wraps.
\<close>

theorem leaf_sort_seek:
  assumes inv: "lf_inv env n"
  shows "lf_inv env (lf_Sort n) \<and> lf_view (lf_Sort n) = lf_view n \<and> \<not> lf_NeedSort (lf_Sort n) \<and>
    sorted_wrt (<) (map ls_key (lf_begin (lf_Sort n))) \<and>
    (\<forall>k v. lf_view n k = Some v \<longleftrightarrow> \<lparr>ls_key = k, ls_val = v\<rparr> \<in> set (lf_begin (lf_Sort n))) \<and>
    lf_beginAt k (lf_Sort n) = Some (filter (\<lambda>sl. k \<le> ls_key sl) (lf_begin (lf_Sort n))) \<and>
    (\<forall>x v. lf_cur_version n < -1 \<longrightarrow> lf_view n x = None \<longrightarrow> \<not> lf_Full n \<longrightarrow> lf_NeedSort (snd (lf_Insert env x v (lf_Sort n)))) \<and>
    (\<forall>x. lf_cur_version n < -1 \<longrightarrow> lf_view n x \<noteq> None \<longrightarrow> lf_NeedSort (snd (lf_Remove env x (lf_Sort n))))"
proof -
  note S = lf_Sort_inv [OF inv] lf_Sort_sorted [of n] lf_Sort_fresh [of n]
  then have invS: "lf_inv env (lf_Sort n)" and fr: "lf_fresh (lf_Sort n)" "\<not> lf_NeedSort (lf_Sort n)" by auto
  have b: "lf_begin (lf_Sort n) = map (\<lambda>i. lf_slots n ! i) (lf_sorted_pos n)"
    using lf_sorted_begin [OF S(2) invS] by simp
  have cur: "lf_cur_version (lf_Sort n) = lf_cur_version n" by (simp add: lf_Sort_eq)
  have mem: "lf_view n x = Some v \<longleftrightarrow> \<lparr>ls_key = x, ls_val = v\<rparr> \<in> set (lf_begin (lf_Sort n))" for x v
  proof -
    have "\<lparr>ls_key = x, ls_val = v\<rparr> = lf_slots n ! i \<longleftrightarrow> lf_key n i = x \<and> lf_val n i = v" for i
      by (cases "lf_slots n ! i") auto
    then show ?thesis by (auto simp: lf_view_Some [OF inv] b image_iff)
  qed
  have ins: "lf_NeedSort (snd (lf_Insert env x v (lf_Sort n)))"
    if "lf_cur_version n < -1" "lf_view n x = None" "\<not> lf_Full n" for x v
  proof -
    have "lf_probe env x (lf_Sort n) = None" using that(2) lf_probe_None [OF invS, of x] S(1) by simp
    then have "lf_cur_version (snd (lf_Insert env x v (lf_Sort n))) = lf_cur_version n + 1 \<and>
        lf_sort_version (snd (lf_Insert env x v (lf_Sort n))) = lf_sort_version (lf_Sort n)"
      using that(3) by (simp add: lf_Insert_def lf_Full_def Let_def lf_SetValid_def lf_store_def cur)
    then show ?thesis using lf_bump_fresh [OF fr(1)] that(1) cur by simp
  qed
  have del: "lf_NeedSort (snd (lf_Remove env x (lf_Sort n)))"
    if cv: "lf_cur_version n < -1" and d: "lf_view n x \<noteq> None" for x
  proof -
    obtain i where "lf_probe env x (lf_Sort n) = Some i" using d lf_probe_None [OF invS, of x] S(1) by fastforce
    then have "lf_cur_version (snd (lf_Remove env x (lf_Sort n))) = lf_cur_version n + 1 \<and>
        lf_sort_version (snd (lf_Remove env x (lf_Sort n))) = lf_sort_version (lf_Sort n)"
      by (simp add: lf_Remove_def lf_SetErase_def cur)
    then show ?thesis using lf_bump_fresh [OF fr(1)] cv cur by simp
  qed
  have "sorted_wrt (<) (map ls_key (lf_begin (lf_Sort n)))"
    using lf_sorted_strict [OF inv] by (simp add: b comp_def)
  with S fr mem ins del lf_beginAt_sorted [OF invS S(2) fr(2)] show ?thesis by blast
qed

definition lf_sample :: leaf where
  "lf_sample = snd (lf_put sp_env_sample 5 50 (snd (lf_put sp_env_sample 9 90 (lf_new lf_raw_sample))))"

lemma lf_sample_inv: "lf_inv sp_env_sample lf_sample"
  unfolding lf_sample_def
  by (intro lf.put_inv [OF lf.put_inv [OF conjunct1 [OF lf_new_inv]], OF _ prod.collapse [symmetric] prod.collapse [symmetric]]
      lf_raw_sample_shape)

theorem leaf_sort_seek_witness:
  "map ls_key (lf_begin (lf_Sort lf_sample)) = [5, 9] \<and>
   map_option (map ls_key) (lf_beginAt 6 (lf_Sort lf_sample)) = Some [9] \<and> lf_view (lf_Sort lf_sample) = lf_view lf_sample"
proof -
  have b: "map ls_key (lf_begin (lf_Sort lf_sample)) = [5, 9]" by code_simp
  then have "map ls_key (filter (\<lambda>sl. 6 \<le> ls_key sl) (lf_begin (lf_Sort lf_sample))) = [9]"
    using filter_map [of "\<lambda>k. 6 \<le> k" ls_key "lf_begin (lf_Sort lf_sample)"] by (simp add: comp_def)
  with leaf_sort_seek [OF lf_sample_inv, of 6] b show ?thesis by simp
qed

end
