(* ===== verification/LeafBatch.thy ===== *)
theory LeafBatch
  imports LeafNode
begin

text \<open>
  The batch operations of the leaves (\<open>bottomLayer.cc\<close>): what \<open>Merge\<close> and \<open>Split\<close> do to the records of the
  leaves involved, to the links of the leaf list and to the Bloom filters they rebuild.
\<close>

section \<open>Placing records\<close>

text \<open>
  \<open>V\<close> are the positions written but not yet validated, \<open>E\<close> the positions still free.
\<close>

definition lf_batch :: "sp_env \<Rightarrow> leaf \<Rightarrow> u64 \<Rightarrow> u64 \<Rightarrow> bool" where
  "lf_batch env n E V \<longleftrightarrow> lf_inv env (lf_or V n) \<and> (\<forall>i. bit E i \<longrightarrow> \<not> lf_live n i \<and> \<not> bit V i) \<and>
     (\<forall>i. bit V i \<longrightarrow> \<not> lf_live n i)"

definition lf_pend :: "leaf \<Rightarrow> u64 \<Rightarrow> u64 set" where
  "lf_pend n V = lf_key n ` {i. bit V i}"

lemma lf_batch_start: "lf_inv env n \<Longrightarrow> lf_batch env n (lf_EmptyBitSet n) 0 \<and> lf_pend n 0 = {}"
  by (simp add: lf_batch_def lf_pend_def lf_EmptyBitSet_def bitset_simps)

lemma lf_pending_probe:
  assumes "lf_inv env (lf_or V n)"
  shows "lf_probe env k n = slot_find 64 (lf_live n) (lf_key n) k"
  by (rule lf_probe_find_raw)
    (use lf_invD(1) [OF assms] lf_invD(5) [OF assms] in \<open>auto simp: bit_or_iff\<close>)

lemma lf_pending_probe_Some:
  "lf_inv env (lf_or V n) \<Longrightarrow> lf_probe env k n = Some i \<Longrightarrow> lf_live n i \<and> lf_key n i = k"
  by (simp add: lf_pending_probe) (drule slot_find_SomeD, simp)

lemma lf_pending_probe_None: "lf_inv env (lf_or V n) \<Longrightarrow> lf_probe env k n = None \<longleftrightarrow> lf_view n k = None"
  by (simp add: lf_pending_probe lf_view_def slot_view_def)

lemma lf_place_step:
  assumes b: "lf_batch env n E V" and E: "E \<noteq> 0" and k: "k \<notin> lf_pend n V"
    and p: "lf_place env (k, v) (n, E, V) = (n', E', V')"
  shows "lf_batch env n' E' V' \<and> lf_view (lf_or V' n') = (lf_view (lf_or V n))(k \<mapsto> v) \<and> lf_data_eq n n' \<and>
     lf_pend n' V' \<subseteq> insert k (lf_pend n V) \<and> popcount E \<le> Suc (popcount E') \<and>
     (lf_view n k = None \<longrightarrow> lf_place_merge env (k, v) (n, E, V) = (n', E', V') \<and> lf_view n' = lf_view n)"
proof -
  have inv: "lf_inv env (lf_or V n)" and dE: "\<And>i. bit E i \<Longrightarrow> \<not> lf_live n i \<and> \<not> bit V i"
    and dV: "\<And>i. bit V i \<Longrightarrow> \<not> lf_live n i" using b by (auto simp: lf_batch_def)
  show ?thesis
  proof (cases "lf_probe env k n")
    case (Some i)
    then have r: "n' = lf_overwrite i v n" "E' = E" "V' = V"
      using p by (auto simp: lf_place_def lf_InsertiWithoutSetValidBitmap_def Let_def)
    have i: "lf_live n i" "lf_key n i = k" using lf_pending_probe_Some [OF inv Some] by auto
    have or: "lf_or V n' = lf_overwrite i v (lf_or V n)" by (simp add: r lf_or_def lf_overwrite_def)
    have w: "lf_inv env (lf_or V n') \<and> lf_view (lf_or V n') = (lf_view (lf_or V n))(k \<mapsto> v)"
      unfolding or by (rule lf_overwrite_inv [OF inv]) (simp_all add: i bit_or_iff)
    have key: "lf_key n' j = lf_key n j" for j
      using lf_invD(2) [OF inv] bit_u64_less [OF i(1)] by (auto simp: r lf_overwrite_def nth_list_update)
    have "lf_data_eq n n'" by (simp add: r)
    then have valid: "lf_valid n' = lf_valid n" by (simp add: lf_data_eqD)
    have present: "lf_view n k \<noteq> None" using lf_pending_probe_None [OF inv, of k] Some by simp
    have pend: "lf_pend n' V = lf_pend n V" by (simp only: lf_pend_def key)
    have batch: "lf_batch env n' E V" unfolding lf_batch_def valid using w dE dV by blast
    show ?thesis unfolding r(2,3) pend
      by (intro conjI impI batch conjunct2 [OF w] \<open>lf_data_eq n n'\<close>) (use present in auto)
  next
    case None
    let ?p = "nbs_deref E"
    have bp: "bit E ?p" using bit_ctz [OF E] by (simp add: nbs_deref_def)
    have p64: "?p < 64" by (rule bit_u64_less [OF bp])
    have r: "n' = lf_store env k v ?p n" "E' = nbs_advance E" "V' = nbs_set ?p V"
      using p None by (auto simp: lf_place_def lf_InsertiWithoutSetValidBitmap_def Let_def)
    have eq: "lf_data_eq n n'" by (simp add: r)
    have v: "lf_valid n' = lf_valid n" using lf_data_eqD [OF eq] by simp
    have bV: "bit V' i \<longleftrightarrow> bit V i \<or> i = ?p" for i using p64 by (auto simp: r bit_nbs_set)
    have bE: "bit E' i \<longleftrightarrow> bit E i \<and> i \<noteq> ?p" for i
      using bit_clear_lowest [OF E, of i] by (simp add: r nbs_advance_def nbs_deref_def)
    have absent: "lf_view n k = None" using lf_pending_probe_None [OF inv] None by simp
    have absent': "lf_view (lf_or V n) k = None"
      using absent k by (auto simp: lf_view_None bit_or_iff lf_pend_def)
    have free: "\<not> lf_live (lf_or V n) ?p" using dE [OF bp] by (simp add: bit_or_iff)
    have w: "lf_inv env (lf_or V' n') \<and> lf_view (lf_or V' n') = (lf_view (lf_or V n))(k \<mapsto> v)"
    proof (rule lf_store_inv [OF inv p64 free absent'])
      show "length (lf_seqs (lf_or V' n')) = 64"
        using lf_invD(3) [OF inv] lf_data_eqD [OF eq] by simp
      show "lf_live (lf_or V' n') i \<longleftrightarrow> i = ?p \<or> lf_live (lf_or V n) i" for i
        by (auto simp: bit_or_iff v bV)
    qed (simp_all add: r lf_store_def)
    have key: "lf_key n' j = (if j = ?p then k else lf_key n j)" for j
      using p64 lf_invD(2) [OF inv] by (simp add: r lf_store_def slot_simps)
    have val: "lf_val n' j = (if j = ?p then v else lf_val n j)" for j
      using p64 lf_invD(2) [OF inv] by (simp add: r lf_store_def slot_simps)
    have batch: "lf_batch env n' E' V'" unfolding lf_batch_def v bV bE using w dE dV bp by blast
    have pend: "lf_pend n' V' \<subseteq> insert k (lf_pend n V)"
      by (auto simp: lf_pend_def bV key)
    have pop: "popcount E \<le> Suc (popcount E')"
    proof -
      have "Suc (popcount E') = popcount E" by (rule popcount_remove_bit [OF _ bp]) (auto simp: bE)
      then show ?thesis by simp
    qed
    have same: "lf_view n' = lf_view n"
      unfolding lf_view_def by (rule slot_view_cong) (use dE [OF bp] in \<open>auto simp: v key val\<close>)
    have merge: "lf_place_merge env (k, v) (n, E, V) = (n', E', V')"
      using None by (simp add: lf_place_merge_def lf_InsertiWithoutSetValidBitmap_def Let_def r)
    show ?thesis by (intro conjI impI batch conjunct2 [OF w] eq pend pop merge same)
  qed
qed

lemma lf_place_fold:
  assumes "lf_batch env n E V" "distinct (map fst rs)" "lf_pend n V \<inter> fst ` set rs = {}" "length rs \<le> popcount E"
    and "fold (lf_place env) rs (n, E, V) = (n', E', V')"
  shows "lf_batch env n' E' V' \<and> lf_view (lf_or V' n') = lf_view (lf_or V n) ++ map_of rs \<and> lf_data_eq n n' \<and>
    lf_pend n' V' \<subseteq> lf_pend n V \<union> fst ` set rs \<and> popcount E \<le> popcount E' + length rs"
  using assms
proof (induction rs arbitrary: n E V)
  case (Cons r rs)
  obtain k v where kv: "r = (k, v)" by fastforce
  obtain n1 E1 V1 where st: "lf_place env (k, v) (n, E, V) = (n1, E1, V1)" by (cases "lf_place env (k, v) (n, E, V)")
  have "E \<noteq> 0" using Cons.prems(4) by auto
  from lf_place_step [OF Cons.prems(1) this _ st] Cons.prems(3) kv
  have s: "lf_batch env n1 E1 V1" "lf_view (lf_or V1 n1) = (lf_view (lf_or V n))(k \<mapsto> v)" "lf_data_eq n n1"
    "lf_pend n1 V1 \<subseteq> insert k (lf_pend n V)" "popcount E \<le> Suc (popcount E1)" by auto
  have "lf_pend n1 V1 \<inter> fst ` set rs = {}" using s(4) Cons.prems(2,3) kv by auto
  with Cons.IH [OF s(1)] Cons.prems s(5) st kv
  have IH: "lf_batch env n' E' V'" "lf_view (lf_or V' n') = lf_view (lf_or V1 n1) ++ map_of rs" "lf_data_eq n1 n'"
    "lf_pend n' V' \<subseteq> lf_pend n1 V1 \<union> fst ` set rs" "popcount E1 \<le> popcount E' + length rs" by auto
  have "k \<notin> dom (map_of rs)" using Cons.prems(2) kv by (auto simp: dom_map_of_conv_image_fst)
  then have "(lf_view (lf_or V n))(k \<mapsto> v) ++ map_of rs = lf_view (lf_or V n) ++ map_of (r # rs)"
    by (auto simp: fun_eq_iff map_add_def kv split: option.split)
  with IH(2) s(2) have view: "lf_view (lf_or V' n') = lf_view (lf_or V n) ++ map_of (r # rs)" by (simp only:)
  have "lf_pend n' V' \<subseteq> lf_pend n V \<union> fst ` set (r # rs)" using IH(4) s(4) kv by auto
  moreover have "popcount E \<le> popcount E' + length (r # rs)" using IH(5) s(5) by simp
  ultimately show ?case using IH(1) view lf_data_eq_trans [OF s(3) IH(3)] by blast
qed simp

lemma lf_place_merge_fold:
  assumes "lf_batch env n E V" "distinct (map fst rs)" "lf_pend n V \<inter> fst ` set rs = {}" "length rs \<le> popcount E"
    "dom (lf_view n) \<inter> fst ` set rs = {}"
  shows "fold (lf_place_merge env) rs (n, E, V) = fold (lf_place env) rs (n, E, V)"
  using assms
proof (induction rs arbitrary: n E V)
  case (Cons r rs)
  obtain k v where kv: "r = (k, v)" by fastforce
  obtain n1 E1 V1 where st: "lf_place env (k, v) (n, E, V) = (n1, E1, V1)" by (cases "lf_place env (k, v) (n, E, V)")
  have E: "E \<noteq> 0" using Cons.prems(4) by auto
  have a: "lf_view n k = None" using Cons.prems(5) kv by auto
  from lf_place_step [OF Cons.prems(1) E _ st] Cons.prems(3) kv a
  have s: "lf_batch env n1 E1 V1" "lf_pend n1 V1 \<subseteq> insert k (lf_pend n V)" "popcount E \<le> Suc (popcount E1)"
    "lf_place_merge env (k, v) (n, E, V) = (n1, E1, V1)" "lf_view n1 = lf_view n" by auto
  have "lf_pend n1 V1 \<inter> fst ` set rs = {}" using s(2) Cons.prems(2,3) kv by auto
  then have "fold (lf_place_merge env) rs (n1, E1, V1) = fold (lf_place env) rs (n1, E1, V1)"
    using Cons.prems s by (intro Cons.IH) auto
  then show ?case by (simp add: kv st s(4))
qed simp

section \<open>The records of a leaf\<close>

lemma map_of_find: "map_of (map (\<lambda>i. (f i, g i)) xs) k = map_option g (find (\<lambda>i. f i = k) xs)"
  by (induction xs) auto

lemma find_bits_slot: "find (\<lambda>i. lf_key n i = k) (bits_of (lf_valid n)) = slot_find 64 (lf_live n) (lf_key n) k"
  by (simp add: bits_of_def find_filter slot_find_def)

lemma lf_records_map_of: "map_of (lf_records n) = lf_view n"
  unfolding lf_records_def nbs.walk_bits_of lf_ValidBitSet_def
  by (simp add: fun_eq_iff map_of_find find_bits_slot lf_view_def slot_view_def)

lemma lf_records_length: "length (lf_records n) = lf_Count n"
  by (simp add: lf_records_def nbs.walk_bits_of lf_ValidBitSet_def lf_Count_def popcount_def)

lemma lf_records_distinct:
  assumes "lf_inv env n"
  shows "distinct (map fst (lf_records n))"
proof -
  have "inj_on (lf_key n) {i. lf_live n i}" by (rule inj_onI) (auto intro: lf_live_eq [OF assms])
  then show ?thesis
    by (simp add: lf_records_def nbs.walk_bits_of lf_ValidBitSet_def comp_def distinct_map)
qed

lemma lf_records_keys: "fst ` set (lf_records n) = dom (lf_view n)"
  by (simp add: lf_records_map_of [symmetric] dom_map_of_conv_image_fst)

lemma popcount_not: "popcount (NOT w :: u64) = 64 - popcount w"
proof -
  have "{i. bit (NOT w) i} = {..<64} - {i. bit w i}" by (auto simp: bitset_simps)
  moreover have "{i. bit w i} \<subseteq> {..<64}" using bit_u64_less by auto
  ultimately show ?thesis by (simp add: popcount_card card_Diff_subset)
qed

section \<open>Merge\<close>

definition bf_covers :: "sp_env \<Rightarrow> bloom \<Rightarrow> u64 set \<Rightarrow> bool" where
  "bf_covers env b K \<longleftrightarrow> length b = 32 \<and> (\<forall>k \<in> K. bf_couldExist env k b)"

lemma bf_covers_sets: "bf_covers env b K \<Longrightarrow> bf_covers env (fold (bf_set env) ks b) (K \<union> set ks)"
  using bf_sets [of b env ks] by (auto simp: bf_covers_def)

lemma bf_covers_reset: "bf_covers env (bf_reset b) {}"
  by (simp add: bf_covers_def bf_reset_def)

lemma bf_covers_set: "bf_covers env b K \<Longrightarrow> bf_covers env (bf_set env k b) (insert k K)"
  using bf_covers_sets [of env b K "[k]"] by simp

lemma bf_covers_mono: "bf_covers env b K \<Longrightarrow> K' \<subseteq> K \<Longrightarrow> bf_covers env b K'"
  by (auto simp: bf_covers_def)

lemma lf_or_V: "n\<lparr>lf_valid := lf_valid n OR V\<rparr> = lf_or V n"
  by (simp add: lf_or_def)

lemma lf_view_update [simp]:
  "lf_view (n\<lparr>lf_hkey := hk\<rparr>) = lf_view n" "lf_view (n\<lparr>lf_lkey := hk\<rparr>) = lf_view n"
  "lf_view (n\<lparr>lf_cur_version := c\<rparr>) = lf_view n" "lf_view (lf_SetNext p n) = lf_view n" "lf_view (lf_SetPrev p n) = lf_view n"
  by (simp_all add: lf_view_def lf_SetNext_def lf_SetPrev_def)

lemma lf_inv_update [simp]:
  "lf_inv env (n\<lparr>lf_hkey := hk\<rparr>) = lf_inv env n" "lf_inv env (n\<lparr>lf_lkey := hk\<rparr>) = lf_inv env n"
  "lf_inv env (n\<lparr>lf_cur_version := c\<rparr>) = lf_inv env n" "lf_inv env (lf_SetNext p n) = lf_inv env n"
  "lf_inv env (lf_SetPrev p n) = lf_inv env n"
  by (auto simp: lf_inv_def lf_shape_def lf_SetNext_def lf_SetPrev_def)

lemma lf_Merge_ok:
  assumes h: "h l = Some this" "lf_next this = Some nx" "h nx = Some nxt" "lf_next nxt = Some nn" "h nn = Some aft"
    and ne: "l \<noteq> nn"
    and inv: "lf_inv env this" "lf_inv env nxt" and disj: "dom (lf_view this) \<inter> dom (lf_view nxt) = {}"
    and fits: "lf_Count this + lf_Count nxt \<le> 64"
  shows "\<exists>b' this'. lf_Merge env b l h = Some (True, b', h(nn \<mapsto> lf_SetPrev (Some l) aft, l \<mapsto> this')) \<and>
    lf_inv env this' \<and> lf_view this' = lf_view this ++ lf_view nxt \<and> lf_lkey this' = lf_lkey this \<and>
    lf_hkey this' = lf_hkey nxt \<and> lf_prev this' = lf_prev this \<and> lf_next this' = Some nn \<and>
    lf_cur_version this' = lf_cur_version this + 1 \<and> lf_sort_version this' = lf_sort_version this \<and>
    bf_covers env b' (dom (lf_view this'))"
proof -
  obtain n1 E1 V1 where pl: "fold (lf_place env) (lf_records nxt) (this, lf_EmptyBitSet this, 0) = (n1, E1, V1)"
    by (metis prod_cases3)
  note st = lf_batch_start [OF inv(1)]
  have len: "length (lf_records nxt) \<le> popcount (lf_EmptyBitSet this)"
    using fits by (simp add: lf_records_length lf_EmptyBitSet_def popcount_not lf_Count_def)
  note pf = lf_place_fold [OF conjunct1 [OF st] lf_records_distinct [OF inv(2)] _ len pl]
  have m: "fold (lf_place_merge env) (lf_records nxt) (this, lf_EmptyBitSet this, 0) = (n1, E1, V1)"
    using lf_place_merge_fold [OF conjunct1 [OF st] lf_records_distinct [OF inv(2)] _ len] st disj pl
    by (simp add: lf_records_keys)
  from pf st have r: "lf_inv env (lf_or V1 n1)" "lf_view (lf_or V1 n1) = lf_view this ++ lf_view nxt" "lf_data_eq this n1"
    by (auto simp: lf_batch_def lf_records_map_of)
  let ?b = "fold (bf_set env) (map fst (lf_records nxt)) (fold (bf_set env) (map fst (lf_records this)) (bf_reset b))"
  let ?t = "lf_or V1 ((lf_SetNext (Some nn) n1)\<lparr>lf_hkey := lf_hkey nxt, lf_cur_version := lf_cur_version this + 1\<rparr>)"
  have t: "?t = (lf_SetNext (Some nn) (lf_or V1 n1))\<lparr>lf_hkey := lf_hkey nxt, lf_cur_version := lf_cur_version this + 1\<rparr>"
    by (simp add: lf_or_def lf_SetNext_def)
  have "bf_covers env ?b (dom (lf_view this) \<union> dom (lf_view nxt))"
    using bf_covers_sets [OF bf_covers_sets [OF bf_covers_reset [of env b], of "map fst (lf_records this)"],
        of "map fst (lf_records nxt)"] by (simp add: lf_records_keys)
  then have cov: "bf_covers env ?b (dom (lf_view ?t))" by (simp add: t r Un_commute)
  have run: "lf_Merge env b l h = Some (True, ?b, h(nn \<mapsto> lf_SetPrev (Some l) aft, l \<mapsto> ?t))"
    using h ne fits m lf_data_eqD [OF r(3)]
    by (simp add: lf_Merge_def lf_GetNext_def lf_SetNext_def Let_def lf_or_def fun_upd_twist)
  show ?thesis
    by (intro exI conjI, rule run) (use r lf_data_eqD [OF r(3)] cov in \<open>simp_all add: t lf_SetNext_def lf_or_def lf_inv_def lf_shape_def lf_view_def\<close>)
qed

lemma lf_Merge_full:
  "h l = Some this \<Longrightarrow> lf_next this = Some nx \<Longrightarrow> h nx = Some nxt \<Longrightarrow> lf_Count this + lf_Count nxt > 64 \<Longrightarrow>
   lf_Merge env b l h = Some (False, b, h)"
  by (simp add: lf_Merge_def lf_GetNext_def)

section \<open>Split: the new leaf\<close>

text \<open>
  The new leaf starts without valid slots, so no record placed in it is recognised as an overwrite: it
  holds the placed records one after the other, and a probe finds the first one of a key.
\<close>

definition lf_appended :: "sp_env \<Rightarrow> (u64 \<times> u64) list \<Rightarrow> leaf \<Rightarrow> u64 \<Rightarrow> u64 \<Rightarrow> bool" where
  "lf_appended env rs n E V \<longleftrightarrow> lf_shape n \<and> lf_valid n = 0 \<and> length rs \<le> 64 \<and> E = NOT (mask (length rs)) \<and>
     V = mask (length rs) \<and>
     (\<forall>i < length rs. lf_key n i = fst (rs ! i) \<and> lf_val n i = snd (rs ! i) \<and> lf_tags n ! i = sp_tag env (fst (rs ! i)))"

lemma lf_appended_new: "lf_shape raw \<Longrightarrow> lf_appended env [] (lf_new raw) (lf_EmptyBitSet (lf_new raw)) 0"
  by (simp add: lf_appended_def lf_EmptyBitSet_def lf_shape_def)

lemma bit_mask_u64: "bit (mask j :: u64) i \<longleftrightarrow> i < 64 \<and> i < j"
  by (simp add: bit_mask_iff)

lemma lf_next_free:
  assumes "j < 64"
  shows "nbs_deref (NOT (mask j)) = j" "nbs_advance (NOT (mask j)) = NOT (mask (Suc j))"
    "nbs_set j (mask j) = mask (Suc j)"
proof -
  define E where "E = (NOT (mask j) :: u64)"
  have b: "bit E i \<longleftrightarrow> i < 64 \<and> j \<le> i" for i by (auto simp: E_def bit_not_word bit_mask_u64)
  have bj: "bit E j" using b assms by simp
  then have nz: "E \<noteq> 0" by auto
  have "ctz E \<le> j" by (rule ctz_least [OF bj])
  moreover have "j \<le> ctz E" using bit_ctz [OF nz] b by blast
  ultimately have c: "ctz E = j" by simp
  then show "nbs_deref (NOT (mask j)) = j" by (simp only: nbs_deref_def E_def [symmetric])
  have "bit (nbs_advance E) i \<longleftrightarrow> bit (NOT (mask (Suc j)) :: u64) i" for i
    unfolding nbs_advance_def bit_clear_lowest [OF nz] c b bit_not_word bit_mask_u64 by auto
  then show "nbs_advance (NOT (mask j)) = NOT (mask (Suc j))"
    unfolding E_def by (intro bit_word_eqI) blast
  have "bit (nbs_set j (mask j)) i \<longleftrightarrow> bit (mask (Suc j) :: u64) i" for i
    unfolding bit_nbs_set bit_mask_u64 using assms by auto
  then show "nbs_set j (mask j) = mask (Suc j)" by (intro bit_word_eqI) blast
qed

lemma lf_appended_probe: "lf_valid n = 0 \<Longrightarrow> lf_probe env k n = None"
  by (simp add: lf_probe_def lf_MatchBitSet_def nbs.walk_bits_of)

lemma lf_appended_store:
  assumes a: "lf_appended env rs n E V" and l: "length rs < 64"
  shows "lf_InsertiWithoutSetValidBitmap env k v (nbs_deref E) n = (True, lf_store env k v (length rs) n) \<and>
    lf_appended env (rs @ [(k, v)]) (lf_store env k v (length rs) n) (nbs_advance E) (nbs_set (nbs_deref E) V)"
proof
  have E: "E = NOT (mask (length rs))" "V = mask (length rs)" "lf_valid n = 0" using a by (auto simp: lf_appended_def)
  show "lf_InsertiWithoutSetValidBitmap env k v (nbs_deref E) n = (True, lf_store env k v (length rs) n)"
    by (simp add: lf_InsertiWithoutSetValidBitmap_def lf_appended_probe E lf_next_free l)
  have sh: "length (lf_slots n) = 64" "length (lf_tags n) = 64" "length (lf_seqs n) = 64"
    using a by (auto simp: lf_appended_def lf_shape_def)
  let ?n = "lf_store env k v (length rs) n"
  have f: "lf_shape ?n" "lf_valid ?n = 0" using sh E by (simp_all add: lf_store_def lf_shape_def)
  have "lf_key ?n i = fst ((rs @ [(k, v)]) ! i) \<and> lf_val ?n i = snd ((rs @ [(k, v)]) ! i) \<and>
      lf_tags ?n ! i = sp_tag env (fst ((rs @ [(k, v)]) ! i))" if i: "i < Suc (length rs)" for i
  proof (cases "i = length rs")
    case True
    then show ?thesis using sh l by (simp add: lf_store_def)
  next
    case False
    then have "i < length rs" using i by simp
    then show ?thesis using a by (simp add: lf_store_def lf_appended_def nth_append)
  qed
  then show "lf_appended env (rs @ [(k, v)]) ?n (nbs_advance E) (nbs_set (nbs_deref E) V)"
    using f l by (simp add: lf_appended_def E(1,2) lf_next_free)
qed

lemma lf_appended_place_right:
  "lf_appended env rs n E V \<Longrightarrow> length rs < 64 \<Longrightarrow>
   \<exists>n' E' V'. lf_place_right env kv (n, E, V) = (n', E', V') \<and> lf_appended env (rs @ [kv]) n' E' V' \<and> lf_data_eq n n'"
  using lf_appended_store [of env rs n E V "fst kv" "snd kv"] by (simp add: lf_place_right_def Let_def)

lemma lf_appended_result:
  assumes a: "lf_appended env rs n E V"
  shows "lf_Lookup env k (lf_or V n) = map_of rs k" "lf_view (lf_or V n) = map_of rs"
    "distinct (map fst rs) \<Longrightarrow> lf_inv env (lf_or V n)" "lf_Count (lf_or V n) = length rs"
proof -
  have sh: "length (lf_slots n) = 64" "length (lf_tags n) = 64" "length (lf_seqs n) = 64" and v: "lf_valid n = 0"
    and le: "length rs \<le> 64" and V: "V = mask (length rs)"
    using a by (auto simp: lf_appended_def lf_shape_def)
  have slot: "lf_key n i = fst (rs ! i)" "lf_val n i = snd (rs ! i)" "lf_tags n ! i = sp_tag env (fst (rs ! i))"
    if "i < length rs" for i using a that by (auto simp: lf_appended_def)
  have live: "bit (lf_valid n OR V) i \<longleftrightarrow> i < length rs" for i using le by (auto simp: v V bit_mask_u64)
  have "slot_find 64 (lf_live (lf_or V n)) (lf_key (lf_or V n)) k = find (\<lambda>i. fst (rs ! i) = k) [0..<length rs]" for k
  proof -
    have "slot_find 64 (lf_live (lf_or V n)) (lf_key (lf_or V n)) k =
        find (\<lambda>i. i < length rs \<and> fst (rs ! i) = k) [0..<64]"
      unfolding slot_find_def by (rule find_cong) (auto simp: live slot)
    also have "\<dots> = find (\<lambda>i. i < length rs \<and> fst (rs ! i) = k) [0..<length rs]"
      by (rule find_upt_prefix [OF le]) simp
    also have "\<dots> = find (\<lambda>i. fst (rs ! i) = k) [0..<length rs]" by (rule find_cong) auto
    finally show ?thesis .
  qed
  moreover have "map_option (lf_val (lf_or V n)) (find (\<lambda>i. fst (rs ! i) = k) [0..<length rs]) = map_of rs k" for k
  proof -
    have "map_option (lf_val (lf_or V n)) (find (\<lambda>i. fst (rs ! i) = k) [0..<length rs]) =
        map_option (\<lambda>i. snd (rs ! i)) (find (\<lambda>i. fst (rs ! i) = k) [0..<length rs])"
      by (cases "find (\<lambda>i. fst (rs ! i) = k) [0..<length rs]") (auto dest: find_SomeD simp: slot)
    also have "\<dots> = map_of (map (\<lambda>i. (fst (rs ! i), snd (rs ! i))) [0..<length rs]) k" by (simp only: map_of_find)
    also have "map (\<lambda>i. (fst (rs ! i), snd (rs ! i))) [0..<length rs] = rs" by (rule nth_equalityI) auto
    finally show ?thesis .
  qed
  ultimately show view: "lf_view (lf_or V n) = map_of rs" by (simp add: lf_view_def slot_view_def)
  have "lf_probe env k (lf_or V n) = slot_find 64 (lf_live (lf_or V n)) (lf_key (lf_or V n)) k"
    by (rule lf_probe_find_raw) (use sh live slot in auto)
  then have "lf_Lookup env k (lf_or V n) = lf_view (lf_or V n) k"
    by (simp add: lf_Lookup_def lf_view_def slot_view_def)
  then show "lf_Lookup env k (lf_or V n) = map_of rs k" by (simp add: view)
  show "lf_inv env (lf_or V n)" if d: "distinct (map fst rs)"
  proof (rule lf_invI)
    show "slots_distinct 64 (lf_live (lf_or V n)) (lf_key (lf_or V n))"
      using d slot by (auto simp: slots_distinct_def live distinct_conv_nth)
    show "lf_tags (lf_or V n) ! i = sp_tag env (lf_key (lf_or V n) i)" if "lf_live (lf_or V n) i" for i
      using that by (simp add: live slot)
  qed (use sh in auto)
  have "{i. lf_live (lf_or V n) i} = {..<length rs}" by (auto simp: live)
  then show "lf_Count (lf_or V n) = length rs" by (simp only: lf_Count_def popcount_card card_lessThan)
qed

section \<open>Split: shifting the upper half\<close>

definition kv2 :: "u64 \<times> u64 \<times> nat \<Rightarrow> u64 \<times> u64" where
  "kv2 = (\<lambda>(k, v, _). (k, v))"

definition pos3 :: "u64 \<times> u64 \<times> nat \<Rightarrow> nat" where
  "pos3 = (\<lambda>(_, _, i). i)"

lemma lf_shift_spec:
  assumes "lf_appended env rs (sp_right s) (sp_rightE s) (sp_rightV s)"
    "length rs + length (filter (\<lambda>x. m \<le> fst x) kvs) \<le> 64"
  shows "\<exists>s'. lf_shift env m kvs s = Some s' \<and>
    lf_appended env (rs @ map kv2 (filter (\<lambda>x. m \<le> fst x) kvs)) (sp_right s') (sp_rightE s') (sp_rightV s') \<and>
    lf_data_eq (sp_right s) (sp_right s') \<and>
    (\<exists>w. sp_left s' = (sp_left s)\<lparr>lf_valid := w\<rparr> \<and>
       (\<forall>i. bit w i \<longleftrightarrow> bit (lf_valid (sp_left s)) i \<and> i \<notin> pos3 ` set (filter (\<lambda>x. m \<le> fst x) kvs))) \<and>
    sp_leftV s' = sp_leftV s \<and>
    sp_bleft s' = fold (bf_set env) (map fst (filter (\<lambda>x. fst x < m) kvs)) (sp_bleft s) \<and>
    sp_bright s' = fold (bf_set env) (map fst (filter (\<lambda>x. m \<le> fst x) kvs)) (sp_bright s)"
  using assms
proof (induction kvs arbitrary: rs s)
  case Nil
  have "\<exists>w. sp_left s = (sp_left s)\<lparr>lf_valid := w\<rparr> \<and> (\<forall>i. bit w i = lf_live (sp_left s) i)"
    by (rule exI [of _ "lf_valid (sp_left s)"]) simp
  with Nil show ?case by simp
next
  case (Cons x kvs)
  obtain k v si where x: "x = (k, v, si)" by (metis prod_cases3)
  show ?case
  proof (cases "k < m")
    case True
    then have "\<not> m \<le> k" by simp
    with True Cons.IH [of rs "s\<lparr>sp_bleft := bf_set env k (sp_bleft s)\<rparr>"] Cons.prems show ?thesis by (simp add: x)
  next
    case False
    then have ge: "m \<le> k" by simp
    let ?right = "lf_store env k v (length rs) (sp_right s)"
    have l: "length rs < 64" using Cons.prems(2) x ge by simp
    note st = lf_appended_store [OF Cons.prems(1) l, of k v]
    define s1 where "s1 = s\<lparr>sp_left := lf_SetErase si (sp_left s), sp_right := ?right,
      sp_rightV := nbs_set (nbs_deref (sp_rightE s)) (sp_rightV s), sp_rightE := nbs_advance (sp_rightE s),
      sp_bright := bf_set env k (sp_bright s)\<rparr>"
    have run: "lf_shift env m (x # kvs) s = lf_shift env m kvs s1"
      using False st by (simp add: x Let_def s1_def)
    have ap: "lf_appended env (rs @ [(k, v)]) (sp_right s1) (sp_rightE s1) (sp_rightV s1)"
      using st by (simp add: s1_def)
    have len: "length (rs @ [(k, v)]) + length (filter (\<lambda>x. m \<le> fst x) kvs) \<le> 64"
      using Cons.prems(2) x ge by simp
    obtain s' w where IH: "lf_shift env m kvs s1 = Some s'"
      "lf_appended env ((rs @ [(k, v)]) @ map kv2 (filter (\<lambda>x. m \<le> fst x) kvs)) (sp_right s') (sp_rightE s') (sp_rightV s')"
      "lf_data_eq (sp_right s1) (sp_right s')" "sp_left s' = (sp_left s1)\<lparr>lf_valid := w\<rparr>"
      "\<And>i. bit w i \<longleftrightarrow> bit (lf_valid (sp_left s1)) i \<and> i \<notin> pos3 ` set (filter (\<lambda>x. m \<le> fst x) kvs)"
      "sp_leftV s' = sp_leftV s1"
      "sp_bleft s' = fold (bf_set env) (map fst (filter (\<lambda>x. fst x < m) kvs)) (sp_bleft s1)"
      "sp_bright s' = fold (bf_set env) (map fst (filter (\<lambda>x. m \<le> fst x) kvs)) (sp_bright s1)"
      using Cons.IH [OF ap len] by blast
    have eq: "lf_data_eq (sp_right s) (sp_right s')"
      by (rule lf_data_eq_trans [OF _ IH(3)]) (simp add: s1_def)
    have bits: "bit w i \<longleftrightarrow> bit (lf_valid (sp_left s)) i \<and> i \<notin> pos3 ` set (filter (\<lambda>x. m \<le> fst x) (x # kvs))" for i
      using IH(5) [of i] ge bit_u64_less [of "lf_valid (sp_left s)" i]
      by (auto simp: s1_def lf_SetErase_def bit_and_iff bit_not_word bit_shl1 pos3_def x)
    have left: "sp_left s' = (sp_left s)\<lparr>lf_valid := w\<rparr>" by (simp add: IH(4) s1_def lf_SetErase_def)
    show ?thesis
      unfolding run
      by (rule exI [of _ s'], intro conjI exI [of _ w] allI, fact IH(1))
        (use IH(2,6-8) eq left bits ge False in \<open>simp_all add: x kv2_def s1_def\<close>)
  qed
qed

section \<open>Split: merging the pending records\<close>

lemma lf_split_merge_fold:
  fixes s :: split_state and env :: sp_env and m :: u64 and recs :: "(u64 \<times> u64) list"
  defines "s' \<equiv> fold (lf_split_merge1 env m) recs s"
  shows "(sp_left s', sp_leftE s', sp_leftV s') =
       fold (lf_place env) (filter (\<lambda>kv. fst kv < m) recs) (sp_left s, sp_leftE s, sp_leftV s) \<and>
    (sp_right s', sp_rightE s', sp_rightV s') =
       fold (lf_place_right env) (filter (\<lambda>kv. m \<le> fst kv) recs) (sp_right s, sp_rightE s, sp_rightV s) \<and>
    sp_bleft s' = fold (bf_set env) (map fst (filter (\<lambda>kv. fst kv < m) recs)) (sp_bleft s) \<and>
    sp_bright s' = fold (bf_set env) (map fst (filter (\<lambda>kv. m \<le> fst kv) recs)) (sp_bright s)"
  unfolding s'_def
proof (induction recs arbitrary: s)
  case (Cons kv recs)
  show ?case
  proof (cases "fst kv < m")
    case True
    then have nge: "\<not> m \<le> fst kv" by simp
    obtain n e v where st: "lf_place env kv (sp_left s, sp_leftE s, sp_leftV s) = (n, e, v)" by (metis prod_cases3)
    with True have "lf_split_merge1 env m kv s =
        s\<lparr>sp_left := n, sp_leftE := e, sp_leftV := v, sp_bleft := bf_set env (fst kv) (sp_bleft s)\<rparr>"
      by (simp add: lf_split_merge1_def)
    with Cons.IH [of "lf_split_merge1 env m kv s"] True nge st show ?thesis by simp
  next
    case False
    then have ge: "m \<le> fst kv" by simp
    obtain n e v where st: "lf_place_right env kv (sp_right s, sp_rightE s, sp_rightV s) = (n, e, v)" by (metis prod_cases3)
    with False have "lf_split_merge1 env m kv s =
        s\<lparr>sp_right := n, sp_rightE := e, sp_rightV := v, sp_bright := bf_set env (fst kv) (sp_bright s)\<rparr>"
      by (simp add: lf_split_merge1_def)
    with Cons.IH [of "lf_split_merge1 env m kv s"] False ge st show ?thesis by simp
  qed
qed simp

lemma lf_place_right_fold:
  assumes "lf_appended env rs n E V" "length rs + length xs \<le> 64"
    and "fold (lf_place_right env) xs (n, E, V) = (n', E', V')"
  shows "lf_appended env (rs @ xs) n' E' V' \<and> lf_data_eq n n'"
  using assms
proof (induction xs arbitrary: rs n E V)
  case (Cons x xs)
  have l: "length rs < 64" using Cons.prems(2) by simp
  obtain n1 E1 V1 where st: "lf_place_right env x (n, E, V) = (n1, E1, V1)" "lf_appended env (rs @ [x]) n1 E1 V1" "lf_data_eq n n1"
    using lf_appended_place_right [OF Cons.prems(1) l] by blast
  have "lf_appended env ((rs @ [x]) @ xs) n' E' V' \<and> lf_data_eq n1 n'"
    by (rule Cons.IH [OF st(2)]) (use Cons.prems st in auto)
  with lf_data_eq_trans [OF st(3)] show ?case by auto
qed simp

section \<open>Split: the sorted records\<close>

lemma option_eqI: "(\<And>v. x = Some v \<longleftrightarrow> y = Some v) \<Longrightarrow> x = y"
  by (metis not_Some_eq)

lemma lf_split_sorted_props:
  assumes inv: "lf_inv env n"
  shows "length (lf_split_sorted n) = lf_Count n" "set (lf_split_sorted n) = (\<lambda>i. (lf_key n i, lf_val n i, i)) ` {i. lf_live n i}"
    "sorted_wrt (<) (map fst (lf_split_sorted n))"
proof -
  let ?ts = "map (\<lambda>i. (lf_key n i, lf_val n i, i)) (bits_of (lf_valid n))"
  have ts: "lf_split_sorted n = sort_key fst ?ts" by (simp add: lf_split_sorted_def nbs.walk_bits_of lf_ValidBitSet_def)
  show "length (lf_split_sorted n) = lf_Count n" by (simp add: ts lf_Count_def popcount_def)
  show "set (lf_split_sorted n) = (\<lambda>i. (lf_key n i, lf_val n i, i)) ` {i. lf_live n i}" by (simp add: ts)
  have "inj_on (lf_key n) {i. lf_live n i}" by (rule inj_onI) (auto intro: lf_live_eq [OF inv])
  then have "distinct (map fst ?ts)" by (simp add: comp_def distinct_map)
  then have "distinct ?ts \<and> inj_on fst (set ?ts)" by (simp only: distinct_map)
  then have "distinct (map fst (sort_key fst ?ts))" by (simp only: distinct_map distinct_sort set_sort simp_thms)
  then show "sorted_wrt (<) (map fst (lf_split_sorted n))" by (simp only: ts strict_sorted_iff sorted_sort_key)
qed

lemma lf_split_halves:
  assumes inv: "lf_inv env n" and c: "0 < lf_Count n"
  defines "m \<equiv> fst (lf_split_sorted n ! (lf_Count n div 2))"
  shows "filter (\<lambda>x. m \<le> fst x) (lf_split_sorted n) = drop (lf_Count n div 2) (lf_split_sorted n)"
    "m \<in> dom (lf_view n)" "1 < lf_Count n \<Longrightarrow> \<exists>k \<in> dom (lf_view n). k < m"
proof -
  let ?ts = "lf_split_sorted n" and ?p = "lf_Count n div 2"
  note S = lf_split_sorted_props [OF inv]
  have p: "?p < length ?ts" using c S(1) by simp
  have lt: "fst (?ts ! i) < fst (?ts ! j)" if "i < j" "j < length ?ts" for i j
    using sorted_wrt_nth_less [OF S(3), of i j] that by simp
  show "filter (\<lambda>x. m \<le> fst x) ?ts = drop ?p ?ts"
  proof (rule sorted_filter_ge [symmetric])
    show "sorted (map fst ?ts)" using S(3) by (simp only: strict_sorted_iff)
    show "fst (?ts ! j) < m \<longleftrightarrow> j < ?p" if "j < length ?ts" for j
      using lt [of j ?p] lt [of ?p j] that p by (cases j ?p rule: linorder_cases) (auto simp: m_def)
  qed (use p in simp)
  have key: "fst (?ts ! j) \<in> dom (lf_view n)" if "j < length ?ts" for j
    using nth_mem [OF that] by (auto simp: S(2) lf_view_dom [OF inv])
  then show "m \<in> dom (lf_view n)" using p by (simp add: m_def)
  show "\<exists>k \<in> dom (lf_view n). k < m" if "1 < lf_Count n"
  proof (rule bexI)
    show "fst (?ts ! 0) < m" using lt [of 0 ?p] p that by (simp add: m_def)
    show "fst (?ts ! 0) \<in> dom (lf_view n)" by (rule key) (use p in linarith)
  qed
qed

lemma lf_split_upper:
  assumes inv: "lf_inv env n"
  shows "map_of (map kv2 (filter (\<lambda>x. m \<le> fst x) (lf_split_sorted n))) = (\<lambda>k. if m \<le> k then lf_view n k else None)"
    "distinct (map fst (map kv2 (filter (\<lambda>x. m \<le> fst x) (lf_split_sorted n))))"
    "pos3 ` set (filter (\<lambda>x. m \<le> fst x) (lf_split_sorted n)) = {i. lf_live n i \<and> m \<le> lf_key n i}"
proof -
  let ?ge = "filter (\<lambda>x. m \<le> fst x) (lf_split_sorted n)"
  note S = lf_split_sorted_props [OF inv]
  have "fst \<circ> kv2 = fst" by (auto simp: kv2_def)
  moreover have "distinct (map fst (lf_split_sorted n))" using S(3) by (simp only: strict_sorted_iff)
  ultimately show d: "distinct (map fst (map kv2 ?ge))" by (simp add: distinct_map_filter)
  have ge: "set ?ge = (\<lambda>i. (lf_key n i, lf_val n i, i)) ` {i. lf_live n i \<and> m \<le> lf_key n i}"
    by (auto simp: S(2))
  have kv: "set (map kv2 ?ge) = (\<lambda>i. (lf_key n i, lf_val n i)) ` {i. lf_live n i \<and> m \<le> lf_key n i}"
    by (simp only: set_map ge image_image) (simp add: kv2_def)
  have mem: "(k, v) \<in> set (map kv2 ?ge) \<longleftrightarrow> m \<le> k \<and> lf_view n k = Some v" for k v
    unfolding kv lf_view_Some [OF inv] by (auto simp: image_iff)
  show "map_of (map kv2 ?ge) = (\<lambda>k. if m \<le> k then lf_view n k else None)"
  proof
    fix k
    show "map_of (map kv2 ?ge) k = (if m \<le> k then lf_view n k else None)"
      by (rule option_eqI) (simp add: map_of_eq_Some_iff [OF d] mem del: set_map set_filter)
  qed
  show "pos3 ` set ?ge = {i. lf_live n i \<and> m \<le> lf_key n i}"
    by (simp only: ge image_image) (simp add: pos3_def)
qed

lemma lf_restrict:
  assumes inv: "lf_inv env n" and w: "\<And>i. bit w i \<longleftrightarrow> lf_live n i \<and> \<not> m \<le> lf_key n i"
  shows "lf_inv env (n\<lparr>lf_valid := w\<rparr>) \<and> lf_view (n\<lparr>lf_valid := w\<rparr>) = (\<lambda>k. if k < m then lf_view n k else None)"
proof
  note I = lf_invD [OF inv]
  show inv': "lf_inv env (n\<lparr>lf_valid := w\<rparr>)"
  proof (rule lf_invI)
    show "slots_distinct 64 (lf_live (n\<lparr>lf_valid := w\<rparr>)) (lf_key (n\<lparr>lf_valid := w\<rparr>))"
      using I(4) by (simp add: slots_distinct_def w)
  qed (use I in \<open>simp_all add: w\<close>)
  show "lf_view (n\<lparr>lf_valid := w\<rparr>) = (\<lambda>k. if k < m then lf_view n k else None)"
  proof
    fix k
    have "lf_view (n\<lparr>lf_valid := w\<rparr>) k = Some v \<longleftrightarrow> k < m \<and> lf_view n k = Some v" for v
      unfolding lf_view_Some [OF inv'] lf_view_Some [OF inv] by (auto simp: w)
    then show "lf_view (n\<lparr>lf_valid := w\<rparr>) k = (if k < m then lf_view n k else None)"
      by (intro option_eqI) simp
  qed
qed

section \<open>Split\<close>

text \<open>The state after the shift: the lower half is left, the upper half is in the new leaf.\<close>

lemma lf_Split_shift:
  fixes this raw :: leaf and env :: sp_env and bl br :: bloom
  assumes inv: "lf_inv env this" and raw: "lf_shape raw" and c: "0 < lf_Count this"
  defines "m \<equiv> fst (lf_split_sorted this ! (lf_Count this div 2))"
  shows "\<exists>s. lf_shift env m (lf_split_sorted this)
       \<lparr>sp_left = this, sp_right = lf_new raw, sp_leftE = 0, sp_leftV = 0, sp_rightE = lf_EmptyBitSet (lf_new raw),
        sp_rightV = 0, sp_bleft = bf_reset bl, sp_bright = bf_reset br\<rparr> = Some s \<and>
     sp_leftV s = 0 \<and> (\<exists>w. sp_left s = this\<lparr>lf_valid := w\<rparr> \<and> popcount w \<le> lf_Count this div 2) \<and>
     lf_inv env (sp_left s) \<and> lf_view (sp_left s) = (\<lambda>k. if k < m then lf_view this k else None) \<and>
     lf_data_eq (lf_new raw) (sp_right s) \<and>
     (\<exists>rs. lf_appended env rs (sp_right s) (sp_rightE s) (sp_rightV s) \<and> length rs = lf_Count this - lf_Count this div 2 \<and>
        map_of rs = (\<lambda>k. if m \<le> k then lf_view this k else None) \<and> distinct (map fst rs)) \<and>
     bf_covers env (sp_bleft s) (dom (lf_view this) \<inter> {k. k < m}) \<and> bf_covers env (sp_bright s) (dom (lf_view this) \<inter> {k. m \<le> k})"
proof -
  let ?ts = "lf_split_sorted this" let ?ge = "filter (\<lambda>x. m \<le> fst x) ?ts" let ?lt = "filter (\<lambda>x. fst x < m) ?ts"
  let ?s0 = "\<lparr>sp_left = this, sp_right = lf_new raw, sp_leftE = 0, sp_leftV = 0, sp_rightE = lf_EmptyBitSet (lf_new raw),
        sp_rightV = 0, sp_bleft = bf_reset bl, sp_bright = bf_reset br\<rparr>"
  note S = lf_split_sorted_props [OF inv]
  have ge: "?ge = drop (lf_Count this div 2) ?ts" unfolding m_def by (rule lf_split_halves(1) [OF inv c])
  have len: "length ?ge = lf_Count this - lf_Count this div 2" by (simp add: ge S(1))
  have "\<exists>s'. lf_shift env m ?ts ?s0 = Some s' \<and>
    lf_appended env ([] @ map kv2 ?ge) (sp_right s') (sp_rightE s') (sp_rightV s') \<and>
    lf_data_eq (sp_right ?s0) (sp_right s') \<and>
    (\<exists>w. sp_left s' = (sp_left ?s0)\<lparr>lf_valid := w\<rparr> \<and>
       (\<forall>i. bit w i \<longleftrightarrow> bit (lf_valid (sp_left ?s0)) i \<and> i \<notin> pos3 ` set ?ge)) \<and>
    sp_leftV s' = sp_leftV ?s0 \<and>
    sp_bleft s' = fold (bf_set env) (map fst ?lt) (sp_bleft ?s0) \<and>
    sp_bright s' = fold (bf_set env) (map fst ?ge) (sp_bright ?s0)"
    by (rule lf_shift_spec) (use lf_appended_new [OF raw] len lf_Count_le [of this] in simp_all)
  then obtain s w where run: "lf_shift env m ?ts ?s0 = Some s"
    and ap: "lf_appended env (map kv2 ?ge) (sp_right s) (sp_rightE s) (sp_rightV s)"
    and right: "lf_data_eq (lf_new raw) (sp_right s)"
    and left: "sp_left s = this\<lparr>lf_valid := w\<rparr>"
    and w: "\<And>i. bit w i \<longleftrightarrow> lf_live this i \<and> i \<notin> pos3 ` set ?ge"
    and V: "sp_leftV s = 0"
    and bloom: "sp_bleft s = fold (bf_set env) (map fst ?lt) (bf_reset bl)"
      "sp_bright s = fold (bf_set env) (map fst ?ge) (bf_reset br)"
    unfolding split_state.select_convs append_Nil by blast
  have bits: "bit w i \<longleftrightarrow> lf_live this i \<and> \<not> m \<le> lf_key this i" for i
    using w [of i] unfolding lf_split_upper(3) [OF inv] by blast
  have "{i. bit w i} \<subseteq> pos3 ` set (take (lf_Count this div 2) ?ts)"
  proof
    fix i assume "i \<in> {i. bit w i}"
    then have i: "lf_live this i" "\<not> m \<le> lf_key this i" by (auto simp: bits)
    let ?x = "(lf_key this i, lf_val this i, i)"
    have "?x \<in> set ?ts" using i(1) by (simp add: S(2))
    moreover have "?x \<notin> set (drop (lf_Count this div 2) ?ts)" using i(2) unfolding ge [symmetric] by simp
    moreover have "set ?ts = set (take (lf_Count this div 2) ?ts) \<union> set (drop (lf_Count this div 2) ?ts)"
      by (metis append_take_drop_id set_append)
    ultimately have "?x \<in> set (take (lf_Count this div 2) ?ts)" by blast
    then show "i \<in> pos3 ` set (take (lf_Count this div 2) ?ts)" by (force simp: pos3_def)
  qed
  then have "popcount w \<le> card (pos3 ` set (take (lf_Count this div 2) ?ts))"
    unfolding popcount_card by (intro card_mono) auto
  also have "\<dots> \<le> length (take (lf_Count this div 2) ?ts)" by (metis List.finite_set card_image_le card_length le_trans)
  finally have pop: "popcount w \<le> lf_Count this div 2" by (simp add: S(1))
  note R = lf_restrict [OF inv bits]
  have keys: "set (map fst ?ts) = dom (lf_view this)" by (simp add: S(2) lf_view_dom [OF inv] image_image)
  then have sub: "set (map fst ?lt) = dom (lf_view this) \<inter> {k. k < m}" "set (map fst ?ge) = dom (lf_view this) \<inter> {k. m \<le> k}"
    by auto
  have cov: "bf_covers env (sp_bleft s) (dom (lf_view this) \<inter> {k. k < m})"
      "bf_covers env (sp_bright s) (dom (lf_view this) \<inter> {k. m \<le> k})"
    using bf_covers_sets [OF bf_covers_reset [of env bl], of "map fst ?lt"]
      bf_covers_sets [OF bf_covers_reset [of env br], of "map fst ?ge"]
    unfolding bloom sub Un_empty_left by blast+
  have rs: "lf_appended env (map kv2 ?ge) (sp_right s) (sp_rightE s) (sp_rightV s) \<and>
      length (map kv2 ?ge) = lf_Count this - lf_Count this div 2 \<and>
      map_of (map kv2 ?ge) = (\<lambda>k. if m \<le> k then lf_view this k else None) \<and> distinct (map fst (map kv2 ?ge))"
    using ap len lf_split_upper(1,2) [OF inv, of m] by (intro conjI) (simp_all only: length_map)
  show ?thesis
    by (intro exI [of _ s] conjI run V exI [of _ w] left pop right exI [of _ "map kv2 ?ge"] cov rs [THEN conjunct1]
        rs [THEN conjunct2, THEN conjunct1] rs [THEN conjunct2, THEN conjunct2, THEN conjunct1]
        rs [THEN conjunct2, THEN conjunct2, THEN conjunct2]) (simp_all only: left R)
qed

lemma lf_or_meta:
  "lf_inv env (lf_or V n) \<Longrightarrow> lf_inv env ((n\<lparr>lf_cur_version := c\<rparr>)\<lparr>lf_valid := lf_valid (n\<lparr>lf_cur_version := c\<rparr>) OR V\<rparr>)"
  "lf_view ((n\<lparr>lf_cur_version := c\<rparr>)\<lparr>lf_valid := lf_valid (n\<lparr>lf_cur_version := c\<rparr>) OR V\<rparr>) = lf_view (lf_or V n)"
  by (simp_all add: lf_inv_def lf_shape_def lf_or_def lf_view_def)

definition lf_split_post :: "sp_env \<Rightarrow> (u64 \<times> u64) list \<Rightarrow> nat \<Rightarrow> nat \<Rightarrow> leaf \<Rightarrow> u64 \<Rightarrow> bloom \<Rightarrow> bloom \<Rightarrow> leaf \<Rightarrow> leaf \<Rightarrow> bool" where
  "lf_split_post env recs l a this m bl' br' left right \<longleftrightarrow>
     lf_inv env left \<and> lf_view left = (\<lambda>k. if k < m then (lf_view this ++ map_of recs) k else None) \<and>
     lf_view right = (\<lambda>k. if m \<le> k then (map_of recs ++ lf_view this) k else None) \<and>
     (\<forall>k. lf_Lookup env k right = lf_view right k) \<and>
     ((\<forall>k \<in> fst ` set recs. m \<le> k \<longrightarrow> lf_view this k = None) \<longrightarrow> lf_inv env right) \<and>
     lf_lkey left = lf_lkey this \<and> lf_hkey left = m \<and> lf_prev left = lf_prev this \<and> lf_next left = Some a \<and>
     lf_cur_version left = lf_cur_version this + 1 \<and> lf_sort_version left = lf_sort_version this \<and>
     lf_lkey right = m \<and> lf_hkey right = lf_hkey this \<and> lf_prev right = Some l \<and> lf_next right = lf_next this \<and>
     lf_cur_version right = 1 \<and> lf_sort_version right = 0 \<and>
     bf_covers env bl' (dom (lf_view left)) \<and> bf_covers env br' (dom (lf_view right))"

lemma lf_appended_cong:
  "lf_valid n' = lf_valid n \<Longrightarrow> lf_slots n' = lf_slots n \<Longrightarrow> lf_tags n' = lf_tags n \<Longrightarrow> lf_seqs n' = lf_seqs n \<Longrightarrow>
   lf_appended env rs n' E V = lf_appended env rs n E V"
  by (simp add: lf_appended_def lf_shape_def)

lemma map_of_filter_keys: "map_of (filter (\<lambda>kv. P (fst kv)) xs) k = (if P k then map_of xs k else None)"
  by (induction xs) auto

lemma dom_restricted:
  assumes "dom g \<subseteq> dom f \<union> fst ` set recs"
  shows "dom (\<lambda>k. if P k then g k else None) \<subseteq> dom f \<inter> {k. P k} \<union> set (map fst (filter (\<lambda>kv. P (fst kv)) recs))"
proof
  fix k assume "k \<in> dom (\<lambda>k. if P k then g k else None)"
  then have k: "P k" "k \<in> dom g" by (auto split: if_splits)
  with assms have "k \<in> dom f \<or> k \<in> fst ` set recs" by blast
  with k(1) show "k \<in> dom f \<inter> {k. P k} \<union> set (map fst (filter (\<lambda>kv. P (fst kv)) recs))" by auto
qed

lemma lf_split_left_half:
  fixes left3 :: leaf and V c :: u64
  assumes inv: "lf_inv env left3" and view: "lf_view left3 = (\<lambda>k. if k < m then f k else None)"
    and pop: "popcount (lf_valid left3) + length recs \<le> 64" and d: "distinct (map fst recs)"
    and run: "fold (lf_place env) (filter (\<lambda>kv. fst kv < m) recs) (left3, lf_EmptyBitSet left3, 0) = (n, E, V)"
  shows "lf_inv env (lf_or V n) \<and> lf_view (lf_or V n) = (\<lambda>k. if k < m then (f ++ map_of recs) k else None) \<and> lf_data_eq left3 n"
proof -
  let ?rL = "filter (\<lambda>kv. fst kv < m) recs"
  note st = lf_batch_start [OF inv]
  have "length ?rL \<le> popcount (lf_EmptyBitSet left3)"
    using pop length_filter_le [of "\<lambda>kv. fst kv < m" recs] unfolding lf_EmptyBitSet_def popcount_not by linarith
  moreover have "distinct (map fst ?rL)" using d by (simp add: distinct_map_filter)
  ultimately have "lf_batch env n E V" "lf_view (lf_or V n) = lf_view left3 ++ map_of ?rL" "lf_data_eq left3 n"
    using lf_place_fold [OF conjunct1 [OF st] _ _ _ run] st by auto
  moreover have "lf_view left3 ++ map_of ?rL = (\<lambda>k. if k < m then (f ++ map_of recs) k else None)"
    by (auto simp: fun_eq_iff map_add_def map_of_filter_keys [of "\<lambda>k. k < m"] view split: option.split)
  ultimately show ?thesis by (simp add: lf_batch_def)
qed

lemma lf_split_right_half:
  assumes ap: "lf_appended env rs right1 E V" and rs: "map_of rs = (\<lambda>k. if m \<le> k then f k else None)" "distinct (map fst rs)"
    and len: "length rs + length recs \<le> 64" and d: "distinct (map fst recs)"
    and run: "fold (lf_place_right env) (filter (\<lambda>kv. m \<le> fst kv) recs) (right1, E, V) = (n, E', V')"
  shows "lf_view (lf_or V' n) = (\<lambda>k. if m \<le> k then (map_of recs ++ f) k else None) \<and>
    (\<forall>k. lf_Lookup env k (lf_or V' n) = lf_view (lf_or V' n) k) \<and> lf_data_eq right1 n \<and>
    ((\<forall>k \<in> fst ` set recs. m \<le> k \<longrightarrow> f k = None) \<longrightarrow> lf_inv env (lf_or V' n))"
proof -
  let ?rR = "filter (\<lambda>kv. m \<le> fst kv) recs"
  have l: "length rs + length ?rR \<le> 64" using len length_filter_le [of "\<lambda>kv. m \<le> fst kv" recs] by linarith
  from lf_place_right_fold [OF ap l run] have ap': "lf_appended env (rs @ ?rR) n E' V'" and eq: "lf_data_eq right1 n" by auto
  have "map_of (rs @ ?rR) = (\<lambda>k. if m \<le> k then (map_of recs ++ f) k else None)"
    by (auto simp: fun_eq_iff map_add_def map_of_filter_keys [of "\<lambda>k. m \<le> k"] rs(1) split: option.split)
  moreover have "distinct (map fst (rs @ ?rR))" if "\<forall>k \<in> fst ` set recs. m \<le> k \<longrightarrow> f k = None"
  proof -
    have "fst ` set rs = {k. m \<le> k \<and> f k \<noteq> None}"
      using rs(1) by (auto simp: dom_map_of_conv_image_fst [symmetric] split: if_splits)
    then show ?thesis using that rs(2) d by (auto simp: distinct_map_filter)
  qed
  ultimately show ?thesis using lf_appended_result [OF ap'] eq by simp
qed

lemma lf_Split_ok:
  assumes h: "h l = Some this" "lf_next this = Some nx" "h nx = Some nxt" and ne: "nx \<noteq> l" "nx \<noteq> a" "l \<noteq> a"
    and inv: "lf_inv env this" and raw: "lf_shape raw" and c: "0 < lf_Count this"
    and d: "distinct (map fst recs)" and fits: "lf_Count this - lf_Count this div 2 + length recs \<le> 64"
  defines "m \<equiv> fst (lf_split_sorted this ! (lf_Count this div 2))"
  shows "\<exists>bl' br' left right.
     lf_Split env recs a raw bl br l h = Some ((a, m), bl', br', h(nx \<mapsto> lf_SetPrev (Some a) nxt, l \<mapsto> left, a \<mapsto> right)) \<and>
     lf_split_post env recs l a this m bl' br' left right"
proof -
  obtain s w rs where sh: "lf_shift env m (lf_split_sorted this)
       \<lparr>sp_left = this, sp_right = lf_new raw, sp_leftE = 0, sp_leftV = 0, sp_rightE = lf_EmptyBitSet (lf_new raw),
        sp_rightV = 0, sp_bleft = bf_reset bl, sp_bright = bf_reset br\<rparr> = Some s"
    and V: "sp_leftV s = 0" and left: "sp_left s = this\<lparr>lf_valid := w\<rparr>" and pop: "popcount w \<le> lf_Count this div 2"
    and invL: "lf_inv env (sp_left s)" and viewL: "lf_view (sp_left s) = (\<lambda>k. if k < m then lf_view this k else None)"
    and right: "lf_data_eq (lf_new raw) (sp_right s)"
    and ap: "lf_appended env rs (sp_right s) (sp_rightE s) (sp_rightV s)" "length rs = lf_Count this - lf_Count this div 2"
      "map_of rs = (\<lambda>k. if m \<le> k then lf_view this k else None)" "distinct (map fst rs)"
    and cov: "bf_covers env (sp_bleft s) (dom (lf_view this) \<inter> {k. k < m})" "bf_covers env (sp_bright s) (dom (lf_view this) \<inter> {k. m \<le> k})"
    using lf_Split_shift [OF inv raw c, of bl br] unfolding m_def by blast
  define right1 where "right1 = lf_SetNext (Some nx) (lf_SetPrev (Some l) ((sp_right s)\<lparr>lf_lkey := m, lf_hkey := lf_hkey this\<rparr>))"
  define left3 where "left3 = (lf_SetNext (Some a) (sp_left s))\<lparr>lf_hkey := m\<rparr>"
  define s1 where "s1 = s\<lparr>sp_left := left3, sp_right := right1, sp_leftE := lf_EmptyBitSet (sp_left s)\<rparr>"
  define s2 where "s2 = fold (lf_split_merge1 env m) recs s1"
  note F = lf_split_merge_fold [of env m recs s1, folded s2_def]
  have E: "lf_EmptyBitSet left3 = lf_EmptyBitSet (sp_left s)" by (simp add: left3_def lf_EmptyBitSet_def lf_SetNext_def)
  have L: "lf_inv env (lf_or (sp_leftV s2) (sp_left s2)) \<and>
      lf_view (lf_or (sp_leftV s2) (sp_left s2)) = (\<lambda>k. if k < m then (lf_view this ++ map_of recs) k else None) \<and>
      lf_data_eq left3 (sp_left s2)"
  proof (rule lf_split_left_half [OF _ _ _ d])
    show "lf_inv env left3" using invL by (simp add: left3_def)
    show "lf_view left3 = (\<lambda>k. if k < m then lf_view this k else None)" using viewL by (simp add: left3_def)
    show "popcount (lf_valid left3) + length recs \<le> 64"
      using pop fits by (simp add: left3_def left lf_SetNext_def)
    show "fold (lf_place env) (filter (\<lambda>kv. fst kv < m) recs) (left3, lf_EmptyBitSet left3, 0) =
        (sp_left s2, sp_leftE s2, sp_leftV s2)"
      using F by (simp add: s1_def V E)
  qed
  have R: "lf_view (lf_or (sp_rightV s2) (sp_right s2)) = (\<lambda>k. if m \<le> k then (map_of recs ++ lf_view this) k else None) \<and>
    (\<forall>k. lf_Lookup env k (lf_or (sp_rightV s2) (sp_right s2)) = lf_view (lf_or (sp_rightV s2) (sp_right s2)) k) \<and>
    lf_data_eq right1 (sp_right s2) \<and>
    ((\<forall>k \<in> fst ` set recs. m \<le> k \<longrightarrow> lf_view this k = None) \<longrightarrow> lf_inv env (lf_or (sp_rightV s2) (sp_right s2)))"
  proof (rule lf_split_right_half [OF _ ap(3,4) _ d])
    show "lf_appended env rs right1 (sp_rightE s1) (sp_rightV s1)"
      using ap(1) lf_appended_cong [of right1 "sp_right s"]
      by (simp add: right1_def s1_def lf_SetNext_def lf_SetPrev_def)
    show "length rs + length recs \<le> 64" using ap(2) fits by simp
    show "fold (lf_place_right env) (filter (\<lambda>kv. m \<le> fst kv) recs) (right1, sp_rightE s1, sp_rightV s1) =
        (sp_right s2, sp_rightE s2, sp_rightV s2)"
      using F by (simp add: s1_def)
  qed
  have m_ok: "\<not> length (lf_split_sorted this) \<le> lf_Count this div 2"
    using c lf_split_sorted_props(1) [OF inv] by simp
  let ?left5 = "(sp_left s2)\<lparr>lf_cur_version := lf_cur_version (sp_left s2) + 1, lf_valid := lf_valid (sp_left s2) OR sp_leftV s2\<rparr>"
  let ?right5 = "lf_or (sp_rightV s2) (sp_right s2)"
  have nextL: "lf_next (sp_left s) = Some nx" "lf_hkey (sp_left s) = lf_hkey this" using h(2) by (simp_all add: left)
  have run: "lf_Split env recs a raw bl br l h =
      Some ((a, m), sp_bleft s2, sp_bright s2, h(nx \<mapsto> lf_SetPrev (Some a) nxt, l \<mapsto> ?left5, a \<mapsto> ?right5))"
    using h ne m_ok sh nextL
    by (simp add: lf_Split_def Let_def m_def [symmetric] lf_GetNext_def lf_or_def s2_def s1_def left3_def right1_def fun_upd_twist)
  have l5: "lf_inv env ?left5" "lf_view ?left5 = (\<lambda>k. if k < m then (lf_view this ++ map_of recs) k else None)"
    using L lf_or_meta [where V = "sp_leftV s2" and n = "sp_left s2"] by simp_all
  have bl: "bf_covers env (sp_bleft s2) (dom (lf_view ?left5))"
  proof (rule bf_covers_mono)
    show "bf_covers env (sp_bleft s2) (dom (lf_view this) \<inter> {k. k < m} \<union> set (map fst (filter (\<lambda>kv. fst kv < m) recs)))"
      using bf_covers_sets [OF cov(1), of "map fst (filter (\<lambda>kv. fst kv < m) recs)"] F by (simp add: s1_def)
    show "dom (lf_view ?left5) \<subseteq> dom (lf_view this) \<inter> {k. k < m} \<union> set (map fst (filter (\<lambda>kv. fst kv < m) recs))"
      unfolding l5 by (rule dom_restricted) (simp add: dom_map_of_conv_image_fst Un_commute)
  qed
  have br: "bf_covers env (sp_bright s2) (dom (lf_view ?right5))"
  proof (rule bf_covers_mono)
    show "bf_covers env (sp_bright s2) (dom (lf_view this) \<inter> {k. m \<le> k} \<union> set (map fst (filter (\<lambda>kv. m \<le> fst kv) recs)))"
      using bf_covers_sets [OF cov(2), of "map fst (filter (\<lambda>kv. m \<le> fst kv) recs)"] F by (simp add: s1_def)
    show "dom (lf_view ?right5) \<subseteq> dom (lf_view this) \<inter> {k. m \<le> k} \<union> set (map fst (filter (\<lambda>kv. m \<le> fst kv) recs))"
      unfolding R [THEN conjunct1] by (rule dom_restricted) (simp add: dom_map_of_conv_image_fst Un_commute)
  qed
  have eqL: "lf_data_eq left3 (sp_left s2)" and eqR: "lf_data_eq right1 (sp_right s2)" using L R by auto
  have "lf_split_post env recs l a this m (sp_bleft s2) (sp_bright s2) ?left5 ?right5"
    unfolding lf_split_post_def
    using l5 R bl br lf_data_eqD [OF eqL] lf_data_eqD [OF eqR] lf_data_eqD [OF right] h(2)
    by (simp add: left3_def right1_def lf_SetNext_def lf_SetPrev_def left lf_or_def)
  with run show ?thesis by blast
qed

section \<open>Properties\<close>

text \<open>
  C17: \<open>Merge\<close> with the next sibling. If the records of both leaves fit into one, the leaf afterwards holds the
  union, its key range and its link extend over the merged sibling, the sibling behind it links back, the
  rebuilt Bloom filter covers every key, and nothing else changes; otherwise nothing changes at all.
\<close>

theorem leaf_merge:
  assumes h: "h l = Some this" "lf_next this = Some nx" "h nx = Some nxt" "lf_next nxt = Some nn" "h nn = Some aft" "l \<noteq> nn"
    and inv: "lf_inv env this" "lf_inv env nxt" and disj: "dom (lf_view this) \<inter> dom (lf_view nxt) = {}"
  shows "if lf_Count this + lf_Count nxt \<le> kLeafNodeCapacity
    then \<exists>b' this'. lf_Merge env b l h = Some (True, b', h(nn \<mapsto> lf_SetPrev (Some l) aft, l \<mapsto> this')) \<and>
      lf_inv env this' \<and> lf_view this' = lf_view this ++ lf_view nxt \<and> lf_lkey this' = lf_lkey this \<and>
      lf_hkey this' = lf_hkey nxt \<and> lf_prev this' = lf_prev this \<and> lf_next this' = Some nn \<and>
      bf_covers env b' (dom (lf_view this'))
    else lf_Merge env b l h = Some (False, b, h)"
proof (cases "lf_Count this + lf_Count nxt \<le> 64")
  case True
  with lf_Merge_ok [OF h inv disj True, of b] show ?thesis by (simp only: kLeafNodeCapacity_def if_True) blast
next
  case False
  with lf_Merge_full [OF h(1-3), of env b] show ?thesis by (simp add: kLeafNodeCapacity_def)
qed

lemma lf_sample_facts:
  "lf_Count lf_sample = 2" "fst (lf_split_sorted lf_sample ! 1) = 9"
  "lf_view lf_sample 5 = Some 50" "lf_view lf_sample 9 = Some 90" "dom (lf_view lf_sample) = {5, 9}"
proof -
  show "lf_Count lf_sample = 2" by code_simp
  have s: "map fst (lf_split_sorted lf_sample) = [5, 9]" by code_simp
  have "length (lf_split_sorted lf_sample) = 2" using arg_cong [OF s, of length] by simp
  then have "fst (lf_split_sorted lf_sample ! 1) = map fst (lf_split_sorted lf_sample) ! 1" by simp
  then show "fst (lf_split_sorted lf_sample ! 1) = 9" unfolding s by simp
  have "lf_Lookup sp_env_sample 5 lf_sample = Some 50" "lf_Lookup sp_env_sample 9 lf_sample = Some 90" by code_simp+
  then show "lf_view lf_sample 5 = Some 50" "lf_view lf_sample 9 = Some 90"
    by (simp_all add: lf_Lookup_view [OF lf_sample_inv])
  have "dom (lf_view lf_sample) = set (map fst (lf_split_sorted lf_sample))"
    by (simp add: lf_split_sorted_props(2) [OF lf_sample_inv] lf_view_dom [OF lf_sample_inv] image_image)
  then show "dom (lf_view lf_sample) = {5, 9}" by (simp add: s)
qed

definition lf_sample_heap :: leaf_heap where
  "lf_sample_heap = [1 \<mapsto> lf_SetNext (Some 2) lf_sample, 2 \<mapsto> lf_SetNext (Some 3) (lf_new lf_raw_sample), 3 \<mapsto> lf_new lf_raw_sample]"

theorem leaf_merge_witness:
  "\<exists>b' this' h'. lf_Merge sp_env_sample [] 1 lf_sample_heap = Some (True, b', h') \<and> h' 1 = Some this' \<and>
     lf_view this' 5 = Some 50 \<and> lf_next this' = Some 3"
proof -
  have e: "lf_view (lf_SetNext (Some 3) (lf_new lf_raw_sample)) = Map.empty"
    using lf_new_inv [OF lf_raw_sample_shape] by simp
  moreover have "lf_Count (lf_SetNext (Some 2) lf_sample) + lf_Count (lf_SetNext (Some 3) (lf_new lf_raw_sample)) \<le> kLeafNodeCapacity"
    using lf_sample_facts(1) by (simp add: lf_Count_def lf_SetNext_def kLeafNodeCapacity_def)
  ultimately have "\<exists>b' this'. lf_Merge sp_env_sample [] 1 lf_sample_heap =
        Some (True, b', lf_sample_heap(3 \<mapsto> lf_SetPrev (Some 1) (lf_new lf_raw_sample), 1 \<mapsto> this')) \<and>
      lf_view this' = lf_view lf_sample \<and> lf_next this' = Some 3"
    using leaf_merge [of lf_sample_heap 1 "lf_SetNext (Some 2) lf_sample" 2 "lf_SetNext (Some 3) (lf_new lf_raw_sample)" 3
        "lf_new lf_raw_sample" sp_env_sample "[]"] lf_sample_inv lf_new_inv [OF lf_raw_sample_shape, of sp_env_sample]
    by (simp add: lf_sample_heap_def) (simp add: lf_SetNext_def, blast)
  then show ?thesis using lf_sample_facts(3) by auto
qed

text \<open>
  C5: \<open>Split\<close> of a leaf together with pending records. The median \<open>m\<close> is the key in the middle of the sorted
  records. Afterwards the leaf holds the records below \<open>m\<close> with the pending ones taking precedence, the new
  leaf answers for the keys from \<open>m\<close> on, ranges and links are spliced, and both Bloom filters cover the keys of
  their leaf. In the new leaf an older record of the same key takes precedence over the pending one.
\<close>

theorem leaf_split:
  assumes "h l = Some this" "lf_next this = Some nx" "h nx = Some nxt" "nx \<noteq> l" "nx \<noteq> a" "l \<noteq> a"
    and "lf_inv env this" "lf_shape raw" "0 < lf_Count this"
    and "distinct (map fst recs)" "lf_Count this - lf_Count this div 2 + length recs \<le> kLeafNodeCapacity"
  shows "\<exists>m bl' br' left right.
     lf_Split env recs a raw bl br l h = Some ((a, m), bl', br', h(nx \<mapsto> lf_SetPrev (Some a) nxt, l \<mapsto> left, a \<mapsto> right)) \<and>
     m = fst (lf_split_sorted this ! (lf_Count this div 2)) \<and> m \<in> dom (lf_view this) \<and>
     lf_inv env left \<and> lf_view left = (\<lambda>k. if k < m then (lf_view this ++ map_of recs) k else None) \<and>
     (\<forall>k. lf_Lookup env k right = (if m \<le> k then (map_of recs ++ lf_view this) k else None)) \<and>
     ((\<forall>k \<in> fst ` set recs. m \<le> k \<longrightarrow> lf_view this k = None) \<longrightarrow> lf_inv env right) \<and>
     lf_lkey left = lf_lkey this \<and> lf_hkey left = m \<and> lf_prev left = lf_prev this \<and> lf_next left = Some a \<and>
     lf_lkey right = m \<and> lf_hkey right = lf_hkey this \<and> lf_prev right = Some l \<and> lf_next right = Some nx \<and>
     bf_covers env bl' (dom (lf_view left)) \<and> bf_covers env br' (dom (lf_view right))"
proof -
  let ?m = "fst (lf_split_sorted this ! (lf_Count this div 2))"
  obtain bl' br' left right where
    run: "lf_Split env recs a raw bl br l h = Some ((a, ?m), bl', br', h(nx \<mapsto> lf_SetPrev (Some a) nxt, l \<mapsto> left, a \<mapsto> right))"
    and post: "lf_split_post env recs l a this ?m bl' br' left right"
    using lf_Split_ok [OF assms(1-10) assms(11) [unfolded kLeafNodeCapacity_def], of bl br] by blast
  have cov: "bf_covers env bl' (dom (lf_view left))" "bf_covers env br' (dom (lf_view right))"
    using post unfolding lf_split_post_def by blast+
  show ?thesis
    by (rule exI [of _ ?m], rule exI [of _ bl'], rule exI [of _ br'], rule exI [of _ left], rule exI [of _ right],
        intro conjI run refl lf_split_halves(2) [OF assms(7,9)] cov)
      (use post assms(2) in \<open>simp_all add: lf_split_post_def\<close>)
qed

theorem leaf_split_witness:
  "\<exists>bl' br' h' left right. lf_Split sp_env_sample [(5, 51), (9, 91)] 7 lf_raw_sample [] [] 1 lf_sample_heap =
       Some ((7, 9), bl', br', h') \<and> h' 1 = Some left \<and> h' 7 = Some right \<and>
     lf_view left 5 = Some 51 \<and> lf_Lookup sp_env_sample 9 right = Some 90 \<and> lf_prev right = Some 1"
proof -
  let ?lf = "lf_SetNext (Some 2) lf_sample"
  have c: "lf_Count ?lf = 2" using lf_sample_facts(1) by (simp add: lf_Count_def lf_SetNext_def)
  have s: "lf_split_sorted ?lf = lf_split_sorted lf_sample"
    by (simp add: lf_split_sorted_def lf_SetNext_def lf_ValidBitSet_def)
  let ?recs = "[(5, 51), (9, 91)] :: (u64 \<times> u64) list"
  have "\<exists>m bl' br' left right.
     lf_Split sp_env_sample ?recs 7 lf_raw_sample [] [] 1 lf_sample_heap =
       Some ((7, m), bl', br', lf_sample_heap(2 \<mapsto> lf_SetPrev (Some 7) (lf_SetNext (Some 3) (lf_new lf_raw_sample)), 1 \<mapsto> left, 7 \<mapsto> right)) \<and>
     m = fst (lf_split_sorted ?lf ! (lf_Count ?lf div 2)) \<and> m \<in> dom (lf_view ?lf) \<and>
     lf_inv sp_env_sample left \<and> lf_view left = (\<lambda>k. if k < m then (lf_view ?lf ++ map_of ?recs) k else None) \<and>
     (\<forall>k. lf_Lookup sp_env_sample k right = (if m \<le> k then (map_of ?recs ++ lf_view ?lf) k else None)) \<and>
     ((\<forall>k \<in> fst ` set ?recs. m \<le> k \<longrightarrow> lf_view ?lf k = None) \<longrightarrow> lf_inv sp_env_sample right) \<and>
     lf_lkey left = lf_lkey ?lf \<and> lf_hkey left = m \<and> lf_prev left = lf_prev ?lf \<and> lf_next left = Some 7 \<and>
     lf_lkey right = m \<and> lf_hkey right = lf_hkey ?lf \<and> lf_prev right = Some 1 \<and> lf_next right = Some 2 \<and>
     bf_covers sp_env_sample bl' (dom (lf_view left)) \<and> bf_covers sp_env_sample br' (dom (lf_view right))"
    by (rule leaf_split)
      (use lf_sample_inv c lf_raw_sample_shape in \<open>simp_all add: lf_sample_heap_def kLeafNodeCapacity_def, simp_all add: lf_SetNext_def\<close>)
  moreover have m: "fst (lf_split_sorted lf_sample ! (2 div 2)) = 9" using lf_sample_facts(2) by simp
  ultimately show ?thesis
    unfolding c s m lf_view_update
  proof (elim exE conjE)
    fix m bl' br' left right
    assume r: "lf_Split sp_env_sample ?recs 7 lf_raw_sample [] [] 1 lf_sample_heap =
       Some ((7, m), bl', br', lf_sample_heap(2 \<mapsto> lf_SetPrev (Some 7) (lf_SetNext (Some 3) (lf_new lf_raw_sample)), 1 \<mapsto> left, 7 \<mapsto> right))"
      "m = 9" "lf_view left = (\<lambda>k. if k < m then (lf_view lf_sample ++ map_of ?recs) k else None)"
      "\<forall>k. lf_Lookup sp_env_sample k right = (if m \<le> k then (map_of ?recs ++ lf_view lf_sample) k else None)" "lf_prev right = Some 1"
    have 5: "lf_view left 5 = Some 51" by (simp only: r(2,3)) (simp add: map_add_def)
    have 9: "lf_Lookup sp_env_sample 9 right = Some 90"
      using r(4) lf_sample_facts(4) by (simp add: r(2) map_add_def)
    show ?thesis
      by (rule exI [of _ bl'], rule exI [of _ br'], rule exI, rule exI [of _ left], rule exI [of _ right],
          intro conjI, rule r(1) [unfolded r(2)]) (simp_all add: 5 9 r(5))
  qed
qed

end
