(* ===== verification/MiddleLayer.thy ===== *)
theory MiddleLayer
  imports LeafBatch
begin

text \<open>
  The middle layer of the SPTree (\<open>spoton-tree/middleLayer.h\<close>, \<open>middleLayer.cc\<close>): the nodes \<open>MLNode\<close>, kept
  at addresses, and the walk of \<open>FindTargetMLNode\<close> from any node to the one that covers a key. An
  \<open>exit (1)\<close> is \<open>None\<close>.
\<close>

section \<open>MLNode\<close>

datatype MLNodeType = MLNodeTypeNoBuffer | MLNodeTypeWithBuffer | MLNodeTypeEnd

record mlnode =
  ml_lkey :: u64
  ml_hkey :: u64
  ml_prev :: "nat option"
  ml_next :: "nat option"
  ml_lock :: u64
  ml_headptr :: u64
  ml_bloom :: bloom
  ml_leafNode :: "nat option"
  ml_type :: MLNodeType
  ml_isDisabled :: bool
  ml_writeBuffer :: nodebuf

type_synonym ml_heap = "nat \<rightharpoonup> mlnode"

text \<open>The Bloom filter and the write buffer keep what the allocated memory held; the buffer is only reset.\<close>

definition ml_new :: "bool \<Rightarrow> bloom \<Rightarrow> nodebuf \<Rightarrow> mlnode" where
  "ml_new withBuffer rawbloom rawbuf =
     \<lparr>ml_lkey = 0, ml_hkey = 0, ml_prev = None, ml_next = None, ml_lock = rvl_init, ml_headptr = 0,
      ml_bloom = rawbloom, ml_leafNode = None,
      ml_type = (if withBuffer then MLNodeTypeWithBuffer else MLNodeTypeNoBuffer), ml_isDisabled = True,
      ml_writeBuffer = (if withBuffer then nb_Reset rawbuf else rawbuf)\<rparr>"

text \<open>The sizes are those of the structures on a 64-bit machine.\<close>

definition ml_Size :: "mlnode \<Rightarrow> nat option" where
  "ml_Size n = (case ml_type n of
     MLNodeTypeNoBuffer \<Rightarrow> Some 128 | MLNodeTypeWithBuffer \<Rightarrow> Some (128 + 248) | MLNodeTypeEnd \<Rightarrow> None)"

definition ml_EnableBloomFilter :: "mlnode \<Rightarrow> mlnode" where
  "ml_EnableBloomFilter n = n\<lparr>ml_isDisabled := False\<rparr>"

definition ml_SetBloomFilter :: "sp_env \<Rightarrow> u64 \<Rightarrow> mlnode \<Rightarrow> mlnode" where
  "ml_SetBloomFilter env key n = (if ml_isDisabled n then n else n\<lparr>ml_bloom := bf_set env key (ml_bloom n)\<rparr>)"

definition ml_CouldExist :: "sp_env \<Rightarrow> u64 \<Rightarrow> mlnode \<Rightarrow> bool" where
  "ml_CouldExist env key n \<longleftrightarrow> (if ml_isDisabled n then True else bf_couldExist env key (ml_bloom n))"

definition ml_insert :: "sp_env \<Rightarrow> u64 \<Rightarrow> u64 \<Rightarrow> mlnode \<Rightarrow> (bool \<times> mlnode) option" where
  "ml_insert env key val n =
     (if ml_type n = MLNodeTypeNoBuffer then None
      else (case nb_insert env key val (ml_writeBuffer n) of (b, nb) \<Rightarrow> Some (b, n\<lparr>ml_writeBuffer := nb\<rparr>)))"

definition ml_lookup :: "sp_env \<Rightarrow> u64 \<Rightarrow> mlnode \<Rightarrow> u64 option" where
  "ml_lookup env key n =
     (if ml_type n = MLNodeTypeNoBuffer then None else Some (nb_lookup env key (ml_writeBuffer n)))"

definition ml_remove :: "sp_env \<Rightarrow> u64 \<Rightarrow> mlnode \<Rightarrow> (bool \<times> mlnode) option" where
  "ml_remove env key n =
     (if ml_type n = MLNodeTypeNoBuffer then None
      else (case nb_remove env key (ml_writeBuffer n) of (b, nb) \<Rightarrow> Some (b, n\<lparr>ml_writeBuffer := nb\<rparr>)))"

definition ml_recordCount :: "mlnode \<Rightarrow> nat" where
  "ml_recordCount n = nb_Count (ml_writeBuffer n)"

definition ml_resetBuffer :: "mlnode \<Rightarrow> mlnode" where
  "ml_resetBuffer n = n\<lparr>ml_writeBuffer := nb_Reset (ml_writeBuffer n)\<rparr>"

section \<open>MiddleLayer\<close>

text \<open>The constructor builds the head at \<open>h\<close> and the dummy tail at \<open>t\<close>, both without a write buffer.\<close>

definition mid_new :: "nat \<Rightarrow> nat \<Rightarrow> bloom \<Rightarrow> nodebuf \<Rightarrow> ml_heap" where
  "mid_new h t rawbloom rawbuf =
     (let head = (ml_EnableBloomFilter (ml_new False rawbloom rawbuf))
            \<lparr>ml_lkey := kSPTreeMinKey, ml_hkey := -1, ml_prev := None, ml_next := Some t\<rparr>;
          dummyTail = (ml_EnableBloomFilter (ml_new False rawbloom rawbuf))
            \<lparr>ml_lkey := -1, ml_hkey := -1, ml_prev := Some h, ml_next := None\<rparr>
      in [h \<mapsto> head, t \<mapsto> dummyTail])"

text \<open>
  The two loops of \<open>FindTargetMLNode\<close>; \<open>None\<close> is the \<open>exit (1)\<close> at the end of the list (and a walk that
  never ends in a cyclic list).
\<close>

partial_function (option) mid_backward :: "ml_heap \<Rightarrow> u64 \<Rightarrow> nat \<Rightarrow> nat option" where
  "mid_backward H key m =
     Option.bind (H m) (\<lambda>n. if ml_lkey n > key then Option.bind (ml_prev n) (mid_backward H key) else Some m)"

partial_function (option) mid_forward :: "ml_heap \<Rightarrow> u64 \<Rightarrow> nat \<Rightarrow> nat option" where
  "mid_forward H key m =
     Option.bind (H m) (\<lambda>n. if key \<ge> ml_hkey n then Option.bind (ml_next n) (mid_forward H key) else Some m)"

definition mid_FindTargetMLNode :: "u64 \<Rightarrow> nat \<Rightarrow> ml_heap \<Rightarrow> nat option" where
  "mid_FindTargetMLNode key m H = Option.bind (mid_backward H key m) (mid_forward H key)"

end
