(* ===== verification/SPTree.thy ===== *)
theory SPTree
  imports MiddleLayer Wal
begin

text \<open>
  The SPTree (\<open>spoton-tree/sptree.h\<close>, \<open>sptree.cc\<close>) with the bottom layer object of \<open>bottomLayer.cc\<close> and the
  top layers of \<open>topLayer.cc\<close> and \<open>topLayerPmem.cc\<close>, as one thread runs it. The two top layers are kept as the
  maps their calls build; \<open>seek\<close> is what the search of the volatile top layer returns for such a map. Jobs for the
  persistent top layer are queued and applied in their order. Addresses returned by the allocators and the
  contents of fresh memory are arguments. \<open>None\<close> is an \<open>exit (1)\<close>, a null dereference or a retry loop that
  no other thread will ever let end.
\<close>

section \<open>State\<close>

datatype pmem_job = PmemInsert u64 nat | PmemRemove u64

record sptree =
  st_ml :: ml_heap
  st_leaf :: leaf_heap
  st_head :: nat
  st_dummyTail :: nat
  st_bothead :: nat
  st_top :: "u64 \<rightharpoonup> nat"
  st_topPmem :: "(u64 \<rightharpoonup> nat) option"
  st_jobs :: "pmem_job list"
  st_wal :: "(WALNodeType \<times> u64 \<times> u64 \<times> u64) list"
  st_isDram :: bool
  st_enableWriteBuffer :: bool
  st_enableLog :: bool

text \<open>What the allocators return for one operation, and what the memory holds.\<close>

record sp_alloc =
  al_ml :: nat
  al_leaf :: nat
  al_rawleaf :: leaf
  al_rawbloom :: bloom
  al_rawbuf :: nodebuf

type_synonym sp_seek = "(u64 \<rightharpoonup> nat) \<Rightarrow> u64 \<Rightarrow> nat option"

section \<open>Top layers\<close>

definition top_insert :: "u64 \<Rightarrow> nat \<Rightarrow> sptree \<Rightarrow> sptree" where
  "top_insert minkey mlptr st = st\<lparr>st_top := (st_top st)(minkey \<mapsto> mlptr)\<rparr>"

definition top_seekLE :: "sp_seek \<Rightarrow> u64 \<Rightarrow> sptree \<Rightarrow> nat option" where
  "top_seekLE seek key st = seek (st_top st) key"

definition top_remove :: "u64 \<Rightarrow> nat \<Rightarrow> sptree \<Rightarrow> sptree" where
  "top_remove key p st = st\<lparr>st_top := (st_top st)(key := None)\<rparr>"

definition pmem_Exist :: "sptree \<Rightarrow> bool" where
  "pmem_Exist st \<longleftrightarrow> st_topPmem st \<noteq> None"

definition pmem_Initialize :: "sptree \<Rightarrow> sptree" where
  "pmem_Initialize st = st\<lparr>st_topPmem := (if st_isDram st then None else Some Map.empty)\<rparr>"

definition pmem_insert :: "u64 \<Rightarrow> nat \<Rightarrow> sptree \<Rightarrow> sptree" where
  "pmem_insert minKey pmem_leaf st = st\<lparr>st_topPmem := map_option (\<lambda>T. T(minKey \<mapsto> pmem_leaf)) (st_topPmem st)\<rparr>"

definition pmem_remove :: "u64 \<Rightarrow> sptree \<Rightarrow> sptree" where
  "pmem_remove key st = st\<lparr>st_topPmem := map_option (\<lambda>T. T(key := None)) (st_topPmem st)\<rparr>"

definition sp_submit :: "pmem_job \<Rightarrow> sptree \<Rightarrow> sptree" where
  "sp_submit j st = (if pmem_Exist st then st\<lparr>st_jobs := st_jobs st @ [j]\<rparr> else st)"

primrec sp_run_job :: "pmem_job \<Rightarrow> sptree \<Rightarrow> sptree" where
  "sp_run_job (PmemInsert k l) st = pmem_insert k l st"
| "sp_run_job (PmemRemove k) st = pmem_remove k st"

definition sp_WaitAllJobs :: "sptree \<Rightarrow> sptree" where
  "sp_WaitAllJobs st = (fold sp_run_job (st_jobs st) st)\<lparr>st_jobs := []\<rparr>"

section \<open>Construction\<close>

text \<open>\<open>BottomLayer::Initialize\<close> with the head leaf at \<open>h\<close> and the dummy tail at \<open>t\<close>.\<close>

definition bot_Initialize :: "nat \<Rightarrow> leaf \<Rightarrow> nat \<Rightarrow> leaf \<Rightarrow> leaf_heap" where
  "bot_Initialize h rawh t rawt =
     (let head = lf_SetNext (Some t) (lf_SetPrev None ((lf_new rawh)\<lparr>lf_lkey := kSPTreeMinKey, lf_hkey := -1\<rparr>));
          dummyTail = lf_SetNext None (lf_SetPrev (Some h) ((lf_new rawt)\<lparr>lf_lkey := -1, lf_hkey := -1\<rparr>))
      in [h \<mapsto> head, t \<mapsto> dummyTail])"

text \<open>\<open>CreateSPTree\<close>: the constructor, with the middle layer at \<open>mh, mt\<close>, then \<open>Initialize\<close>.\<close>

definition sp_Create :: "bool \<Rightarrow> bool \<Rightarrow> bool \<Rightarrow> nat \<Rightarrow> nat \<Rightarrow> bloom \<Rightarrow> nodebuf \<Rightarrow> nat \<Rightarrow> leaf \<Rightarrow> nat \<Rightarrow> leaf \<Rightarrow> sptree option" where
  "sp_Create isDram withWriteBuffer withLog mh mt rawbloom rawbuf lh rawh lt rawt =
     (if isDram \<and> withLog then None
      else
        (let st0 = \<lparr>st_ml = mid_new mh mt rawbloom rawbuf, st_leaf = bot_Initialize lh rawh lt rawt,
                    st_head = mh, st_dummyTail = mt, st_bothead = lh, st_top = Map.empty, st_topPmem = None,
                    st_jobs = [], st_wal = [], st_isDram = isDram, st_enableWriteBuffer = withWriteBuffer,
                    st_enableLog = (if isDram then False else withLog)\<rparr>;
             st1 = pmem_Initialize st0;
             st2 = (if \<not> isDram then pmem_insert kSPTreeMinKey (st_bothead st1) st1 else st1)
         in Option.bind (st_ml st2 (st_head st2)) (\<lambda>head.
            Option.bind (ml_next head) (\<lambda>t.
            Option.bind (st_leaf st2 (st_bothead st2)) (\<lambda>bhead.
              let st3 = st2\<lparr>st_ml := (st_ml st2)(st_head st2 \<mapsto> head\<lparr>ml_leafNode := Some (st_bothead st2)\<rparr>)\<rparr>
              in Option.bind (st_ml st3 t) (\<lambda>tail.
                 let st4 = st3\<lparr>st_ml := (st_ml st3)(t \<mapsto> tail\<lparr>ml_leafNode := lf_GetNext bhead\<rparr>)\<rparr>
                 in Some (top_insert kSPTreeMinKey (st_head st4) st4)))))))"

section \<open>Recovery\<close>

text \<open>
  \<open>Recover\<close> rebuilds the volatile layers from what \<open>ScanAllRecord\<close> reports of the persistent top layer: one
  middle-layer node per record, its key range read from the leaf, and the top layer; then the nodes are
  linked in order. \<open>ms\<close> are the addresses of the new nodes.
\<close>

fun sp_recover_units :: "(u64 \<times> nat) list \<Rightarrow> nat list \<Rightarrow> bloom \<Rightarrow> nodebuf \<Rightarrow> sptree \<Rightarrow> sptree option" where
  "sp_recover_units ((minKey, leafnode) # units) (m # ms) rawbloom rawbuf st =
     Option.bind (st_leaf st leafnode) (\<lambda>lf.
       let mnode = (ml_new False rawbloom rawbuf)\<lparr>ml_lkey := lf_lkey lf, ml_hkey := lf_hkey lf, ml_leafNode := Some leafnode\<rparr>
       in sp_recover_units units ms rawbloom rawbuf (top_insert minKey m (st\<lparr>st_ml := (st_ml st)(m \<mapsto> mnode)\<rparr>)))"
| "sp_recover_units [] [] rawbloom rawbuf st = Some st"
| "sp_recover_units _ _ rawbloom rawbuf st = None"

fun sp_recover_link :: "nat option \<Rightarrow> nat list \<Rightarrow> ml_heap \<Rightarrow> (nat option \<times> ml_heap) option" where
  "sp_recover_link prev [] H = Some (prev, H)"
| "sp_recover_link prev (m # ms) H =
     Option.bind (H m) (\<lambda>n.
       let H1 = H(m \<mapsto> n\<lparr>ml_prev := prev\<rparr>)
       in case prev of
            None \<Rightarrow> sp_recover_link (Some m) ms H1
          | Some p \<Rightarrow> Option.bind (H1 p) (\<lambda>pn. sp_recover_link (Some m) ms (H1(p \<mapsto> pn\<lparr>ml_next := Some m\<rparr>))))"

definition sp_Recover :: "bool \<Rightarrow> bool \<Rightarrow> nat \<Rightarrow> nat \<Rightarrow> bloom \<Rightarrow> nodebuf \<Rightarrow> (u64 \<times> nat) list \<Rightarrow> nat list \<Rightarrow>
    (u64 \<rightharpoonup> nat) \<Rightarrow> nat \<Rightarrow> leaf_heap \<Rightarrow> sptree option" where
  "sp_Recover withWriteBuffer withLog mh mt rawbloom rawbuf units ms pmem lhead leaves =
     (let st0 = \<lparr>st_ml = mid_new mh mt rawbloom rawbuf, st_leaf = leaves, st_head = mh, st_dummyTail = mt,
                 st_bothead = lhead, st_top = Map.empty, st_topPmem = Some pmem, st_jobs = [], st_wal = [],
                 st_isDram = False, st_enableWriteBuffer = withWriteBuffer, st_enableLog = withLog\<rparr>
      in Option.bind (sp_recover_units units ms rawbloom rawbuf st0) (\<lambda>st1.
         Option.bind (sp_recover_link None ms (st_ml st1)) (\<lambda>(prev, H).
         Option.bind prev (\<lambda>p.
         Option.bind (H p) (\<lambda>pn.
           let H1 = H(p \<mapsto> pn\<lparr>ml_next := Some mt\<rparr>)
           in Option.bind (H1 mt) (\<lambda>tail.
              Some (st1\<lparr>st_ml := H1(mt \<mapsto> tail\<lparr>ml_prev := Some p\<rparr>), st_head := hd ms\<rparr>)))))))"

section \<open>Locating a node\<close>

definition sp_jumpToMiddleLayer :: "sp_seek \<Rightarrow> u64 \<Rightarrow> sptree \<Rightarrow> (nat \<times> u64) option" where
  "sp_jumpToMiddleLayer seek key st =
     Option.bind (top_seekLE seek key st) (\<lambda>m0.
     Option.bind (mid_FindTargetMLNode key m0 (st_ml st)) (\<lambda>m.
     Option.bind (st_ml st m) (\<lambda>n.
       case rvl_readLockOrRestart (ml_lock n) False of (v, needRestart) \<Rightarrow>
         if rvl_isObsolete v then None
         else if needRestart then None
         else if key < ml_lkey n \<or> ml_hkey n \<le> key then None
         else Some (m, v))))"

section \<open>Flush and split\<close>

definition nb_records :: "nodebuf \<Rightarrow> (u64 \<times> u64) list" where
  "nb_records n = map (\<lambda>i. (ns_key (nb_slots n ! i), ns_val (nb_slots n ! i))) (nbs_walk (nb_ValidBitSet n))"

text \<open>The records of the write buffer and, unless the key is \<open>kKeyEmpty\<close>, one more go to the leaf.\<close>

definition sp_flush_leaf :: "sp_env \<Rightarrow> nodebuf \<Rightarrow> u64 \<Rightarrow> u64 \<Rightarrow> leaf \<Rightarrow> leaf" where
  "sp_flush_leaf env buffer key val lf =
     (case fold (lf_place env) (nb_records buffer) (lf, lf_EmptyBitSet lf, 0) of
        (lf1, emptyBitSet, toAddedBits) \<Rightarrow>
          (case (if key \<noteq> kKeyEmpty then
                   (let si = nbs_deref emptyBitSet
                    in case lf_InsertiWithoutSetValidBitmap env key val si lf1 of
                         (res, lf2) \<Rightarrow> (lf2, if res then nbs_set si toAddedBits else toAddedBits))
                 else (lf1, toAddedBits)) of
             (lf2, added) \<Rightarrow> lf2\<lparr>lf_valid := lf_valid lf2 OR added\<rparr>))"

definition sp_FlushMLNodeBuffer :: "sp_env \<Rightarrow> nat \<Rightarrow> u64 \<Rightarrow> u64 \<Rightarrow> sptree \<Rightarrow> sptree option" where
  "sp_FlushMLNodeBuffer env m key val st =
     Option.bind (st_ml st m) (\<lambda>n.
     Option.bind (ml_leafNode n) (\<lambda>l.
     Option.bind (st_leaf st l) (\<lambda>lf.
       Some (st\<lparr>st_leaf := (st_leaf st)(l \<mapsto> sp_flush_leaf env (ml_writeBuffer n) key val lf),
                st_ml := (st_ml st)(m \<mapsto> ml_SetBloomFilter env key n)\<rparr>))))"

text \<open>The lock of the next node is taken first; without another thread a locked word stays locked.\<close>

definition sp_SplitMLNodeAndUnlock :: "sp_env \<Rightarrow> sp_alloc \<Rightarrow> nat \<Rightarrow> (u64 \<times> u64) list \<Rightarrow> sptree \<Rightarrow> sptree option" where
  "sp_SplitMLNodeAndUnlock env al m toMergedRecords st =
     Option.bind (st_ml st m) (\<lambda>n0.
     Option.bind (ml_next n0) (\<lambda>old_next.
     Option.bind (st_ml st old_next) (\<lambda>nx0.
       case rvl_writeLockOrRestart False (ml_lock nx0) of (needRestart, w) \<Rightarrow>
         if needRestart then None
         else
           (let H1 = (st_ml st)(old_next \<mapsto> nx0\<lparr>ml_lock := w\<rparr>);
                new0 = ml_new (st_enableWriteBuffer st) (al_rawbloom al) (al_rawbuf al)
            in Option.bind (H1 m) (\<lambda>n1.
               Option.bind (ml_leafNode n1) (\<lambda>l.
               Option.bind (lf_Split env toMergedRecords (al_leaf al) (al_rawleaf al) (ml_bloom n1) (ml_bloom new0) l (st_leaf st))
                 (\<lambda>((newLeafNode, newlkey), bl, br, leaves).
                   let n2 = ml_EnableBloomFilter (n1\<lparr>ml_bloom := bl\<rparr>);
                       new1 = (ml_EnableBloomFilter (new0\<lparr>ml_bloom := br\<rparr>))
                         \<lparr>ml_lkey := newlkey, ml_hkey := ml_hkey n2, ml_prev := Some m, ml_next := ml_next n2,
                          ml_leafNode := Some newLeafNode\<rparr>;
                       H2 = H1(m \<mapsto> n2, al_ml al \<mapsto> new1)
                   in Option.bind (ml_next n2) (\<lambda>nx.
                      Option.bind (H2 nx) (\<lambda>nxn.
                        let H3 = H2(nx \<mapsto> nxn\<lparr>ml_prev := Some (al_ml al)\<rparr>)
                        in Option.bind (H3 m) (\<lambda>n3.
                           let H4 = H3(m \<mapsto> n3\<lparr>ml_next := Some (al_ml al), ml_hkey := newlkey\<rparr>);
                               st1 = st\<lparr>st_ml := H4, st_leaf := leaves\<rparr>;
                               st2 = top_insert newlkey (al_ml al) st1;
                               st3 = sp_submit (PmemInsert newlkey newLeafNode) st2
                           in Option.bind (st_ml st3 m) (\<lambda>n4.
                              let H5 = (st_ml st3)(m \<mapsto> n4\<lparr>ml_lock := rvl_writeUnlock (ml_lock n4)\<rparr>)
                              in Option.bind (H5 old_next) (\<lambda>nx5.
                                 Some (st3\<lparr>st_ml := H5(old_next \<mapsto> nx5\<lparr>ml_lock := rvl_writeUnlock (ml_lock nx5)\<rparr>)\<rparr>)))))))))))))"

definition sp_with_node :: "nat \<Rightarrow> (mlnode \<Rightarrow> mlnode) \<Rightarrow> sptree \<Rightarrow> sptree option" where
  "sp_with_node m f st = Option.bind (st_ml st m) (\<lambda>n. Some (st\<lparr>st_ml := (st_ml st)(m \<mapsto> f n)\<rparr>))"

definition sp_writeUnlock :: "nat \<Rightarrow> sptree \<Rightarrow> sptree option" where
  "sp_writeUnlock m = sp_with_node m (\<lambda>n. n\<lparr>ml_lock := rvl_writeUnlock (ml_lock n)\<rparr>)"

definition sp_FlushOrSplitAndUnlock :: "sp_env \<Rightarrow> sp_alloc \<Rightarrow> nat \<Rightarrow> u64 \<Rightarrow> u64 \<Rightarrow> sptree \<Rightarrow> sptree option" where
  "sp_FlushOrSplitAndUnlock env al m key val st =
     Option.bind (st_ml st m) (\<lambda>n.
     Option.bind (ml_leafNode n) (\<lambda>l.
     Option.bind (st_leaf st l) (\<lambda>lf.
       if ml_recordCount n + lf_Count lf \<le> kLeafNodeCapacity - 1 then
         Option.bind (sp_FlushMLNodeBuffer env m key val st) (\<lambda>st1.
         Option.bind (sp_with_node m ml_resetBuffer st1) (sp_writeUnlock m))
       else
         (let toMerge = nb_records (ml_writeBuffer n) @ (if key \<noteq> kKeyEmpty then [(key, val)] else [])
          in Option.bind (sp_SplitMLNodeAndUnlock env al m toMerge st) (sp_with_node m ml_resetBuffer)))))"

section \<open>Insert, lookup and remove\<close>

text \<open>The shared steps: locate the node, and take its lock at the version read.\<close>

definition sp_lock_node :: "nat \<Rightarrow> u64 \<Rightarrow> sptree \<Rightarrow> sptree option" where
  "sp_lock_node m v st =
     Option.bind (st_ml st m) (\<lambda>n.
       case rvl_upgradeToWriteLockOrRestart v False (ml_lock n) of (needRestart, _, w) \<Rightarrow>
         if needRestart then None else Some (st\<lparr>st_ml := (st_ml st)(m \<mapsto> n\<lparr>ml_lock := w\<rparr>)\<rparr>))"

definition sp_log :: "WALNodeType \<Rightarrow> u64 \<Rightarrow> u64 \<Rightarrow> mlnode \<Rightarrow> sptree \<Rightarrow> sptree" where
  "sp_log type key val n st =
     (if st_enableLog st then st\<lparr>st_wal := st_wal st @ [(type, key, val, ml_headptr n)]\<rparr> else st)"

definition sp_lookup :: "sp_env \<Rightarrow> sp_seek \<Rightarrow> u64 \<Rightarrow> sptree \<Rightarrow> u64 option" where
  "sp_lookup env seek key st =
     Option.bind (sp_jumpToMiddleLayer seek key st) (\<lambda>(m, v).
     Option.bind (st_ml st m) (\<lambda>n.
       if rvl_checkOrRestart v (ml_lock n) then None
       else if \<not> ml_CouldExist env key n then Some 0
       else
         (let buffered = (if ml_type n = MLNodeTypeWithBuffer then ml_lookup env key n else Some 0)
          in Option.bind buffered (\<lambda>val.
             if val \<noteq> 0 then Some val
             else
               Option.bind (ml_leafNode n) (\<lambda>l.
               Option.bind (st_leaf st l) (\<lambda>lf.
                 Some (case lf_Lookup env key lf of Some val \<Rightarrow> val | None \<Rightarrow> 0)))))))"

definition sp_insert :: "sp_env \<Rightarrow> sp_seek \<Rightarrow> sp_alloc \<Rightarrow> u64 \<Rightarrow> u64 \<Rightarrow> sptree \<Rightarrow> (bool \<times> sptree) option" where
  "sp_insert env seek al key val st =
     Option.bind (sp_jumpToMiddleLayer seek key st) (\<lambda>(m, v).
     Option.bind (sp_lock_node m v st) (\<lambda>st1.
     Option.bind (st_ml st1 m) (\<lambda>n.
       if ml_type n = MLNodeTypeWithBuffer then
         Option.bind (ml_insert env key val n) (\<lambda>(succ, n1).
           if succ then
             (let n2 = ml_SetBloomFilter env key n1;
                  st2 = sp_log kWALNodeInsert key val n2 (st1\<lparr>st_ml := (st_ml st1)(m \<mapsto> n2)\<rparr>)
              in Option.bind (sp_writeUnlock m st2) (\<lambda>st3. Some (True, st3)))
           else Option.bind (sp_FlushOrSplitAndUnlock env al m key val st1) (\<lambda>st2. Some (True, st2)))
       else
         Option.bind (ml_leafNode n) (\<lambda>l.
         Option.bind (st_leaf st1 l) (\<lambda>lf.
           case lf_Insert env key val lf of ((succ, _), lf1) \<Rightarrow>
             if \<not> succ then Option.bind (sp_SplitMLNodeAndUnlock env al m [(key, val)] st1) (\<lambda>st2. Some (True, st2))
             else
               (let st2 = st1\<lparr>st_leaf := (st_leaf st1)(l \<mapsto> lf1), st_ml := (st_ml st1)(m \<mapsto> ml_SetBloomFilter env key n)\<rparr>
                in Option.bind (sp_writeUnlock m st2) (\<lambda>st3. Some (True, st3))))))))"

text \<open>
  \<open>needRestart\<close> is passed by value, so the caller's retry loop runs the body once. When \<open>Merge\<close> reports that
  the records do not fit, the next node stays locked.
\<close>

definition sp_MaybeMergeMLnode :: "sp_env \<Rightarrow> nat \<Rightarrow> sptree \<Rightarrow> sptree option" where
  "sp_MaybeMergeMLnode env m st =
     Option.bind (st_ml st m) (\<lambda>n.
     Option.bind (ml_leafNode n) (\<lambda>l.
     Option.bind (st_leaf st l) (\<lambda>lf.
       if \<not> lf_Count lf < 2 then Some st
       else if ml_hkey n = -1 then Some st
       else
         Option.bind (ml_next n) (\<lambda>nx.
         Option.bind (st_ml st nx) (\<lambda>nxt0.
         Option.bind (ml_leafNode nxt0) (\<lambda>nl.
         Option.bind (st_leaf st nl) (\<lambda>nlf.
           if \<not> lf_Count nlf < 32 then Some st
           else
             (case rvl_writeLockOrRestart False (ml_lock nxt0) of (needRestart, w) \<Rightarrow>
                if needRestart then Some st
                else
                  (let nextMnode = nxt0\<lparr>ml_lock := w\<rparr>; H1 = (st_ml st)(nx \<mapsto> nextMnode)
                   in Option.bind (lf_Merge env (ml_bloom n) l (st_leaf st)) (\<lambda>(mergeSucc, b, leaves).
                      if \<not> mergeSucc then Some (st\<lparr>st_ml := H1(m \<mapsto> n\<lparr>ml_bloom := b\<rparr>), st_leaf := leaves\<rparr>)
                      else
                        (let n1 = (ml_EnableBloomFilter (n\<lparr>ml_bloom := b\<rparr>))\<lparr>ml_hkey := ml_hkey nextMnode\<rparr>;
                             H2 = H1(m \<mapsto> n1)
                         in Option.bind (ml_next nextMnode) (\<lambda>nn.
                            Option.bind (H2 nn) (\<lambda>after.
                              let H3 = H2(nn \<mapsto> after\<lparr>ml_prev := Some m\<rparr>)
                              in Option.bind (H3 m) (\<lambda>n2.
                                 let H4 = H3(m \<mapsto> n2\<lparr>ml_next := Some nn\<rparr>);
                                     st1 = st\<lparr>st_ml := H4, st_leaf := leaves\<rparr>;
                                     st2 = top_remove (ml_lkey nextMnode) nx st1;
                                     st3 = sp_submit (PmemRemove (ml_lkey nextMnode)) st2
                                 in sp_with_node nx (\<lambda>x. x\<lparr>ml_lock := rvl_writeUnlockObsolete (ml_lock x)\<rparr>) st3))))))))))))))"

definition sp_remove :: "sp_env \<Rightarrow> sp_seek \<Rightarrow> u64 \<Rightarrow> sptree \<Rightarrow> (bool \<times> sptree) option" where
  "sp_remove env seek key st =
     Option.bind (sp_jumpToMiddleLayer seek key st) (\<lambda>(m, v).
     Option.bind (st_ml st m) (\<lambda>n0.
       if rvl_checkOrRestart v (ml_lock n0) then None
       else if \<not> ml_CouldExist env key n0 then Some (False, st)
       else
         Option.bind (sp_lock_node m v st) (\<lambda>st1.
         Option.bind (st_ml st1 m) (\<lambda>n.
         Option.bind (if ml_type n = MLNodeTypeWithBuffer then ml_remove env key n else Some (False, n)) (\<lambda>(inBuffer, n1).
           let st2 = st1\<lparr>st_ml := (st_ml st1)(m \<mapsto> n1)\<rparr>
           in Option.bind (ml_leafNode n1) (\<lambda>l.
              Option.bind (st_leaf st2 l) (\<lambda>lf.
                case lf_Remove env key lf of (inLeaf, lf1) \<Rightarrow>
                  Option.bind (sp_MaybeMergeMLnode env m (st2\<lparr>st_leaf := (st_leaf st2)(l \<mapsto> lf1)\<rparr>)) (\<lambda>st3.
                    let st4 = (if inBuffer then sp_log kWALNodeRemove key 0 n1 st3 else st3)
                    in Option.bind (sp_writeUnlock m st4) (\<lambda>st5. Some (inBuffer \<or> inLeaf, st5))))))))))"

section \<open>Scan\<close>

text \<open>
  One step of \<open>SortLeafNode\<close>: the leaf is sorted under the lock, and the new version is read.
\<close>

definition sp_SortLeafNode :: "nat \<Rightarrow> u64 \<Rightarrow> sptree \<Rightarrow> (u64 \<times> sptree) option" where
  "sp_SortLeafNode m version st =
     Option.bind (st_ml st m) (\<lambda>n.
     Option.bind (ml_leafNode n) (\<lambda>l.
     Option.bind (st_leaf st l) (\<lambda>lf.
       if lf_NeedSort lf then
         Option.bind (sp_lock_node m version st) (\<lambda>st1.
         Option.bind (sp_writeUnlock m (st1\<lparr>st_leaf := (st_leaf st1)(l \<mapsto> lf_Sort lf)\<rparr>)) (\<lambda>st2.
         Option.bind (st_ml st2 m) (\<lambda>n2.
           case rvl_readLockOrRestart (ml_lock n2) False of (v, needRestart) \<Rightarrow>
             if needRestart then None else Some (v, st2))))
       else Some (version, st))))"

text \<open>The inner loop over one node: the values of keys from \<open>startKey\<close> on, until the result is full.\<close>

fun sp_scan_node :: "u64 \<Rightarrow> nat \<Rightarrow> leafslot list \<Rightarrow> u64 list" where
  "sp_scan_node startKey 0 sls = []"
| "sp_scan_node startKey (Suc n) [] = []"
| "sp_scan_node startKey (Suc n) (sl # sls) =
     (if startKey \<le> ls_key sl then ls_val sl # sp_scan_node startKey n sls else sp_scan_node startKey (Suc n) sls)"

text \<open>
  The outer loop. \<open>None\<close> also when the fuel, one unit per node visited or buffer flushed, runs out;
  \<open>als\<close> are the allocations of the splits that flushing may need.
\<close>

fun sp_scan_loop :: "nat \<Rightarrow> sp_env \<Rightarrow> sp_seek \<Rightarrow> sp_alloc list \<Rightarrow> u64 \<Rightarrow> nat \<Rightarrow> nat \<Rightarrow> u64 list \<Rightarrow> sptree \<Rightarrow> (u64 list \<times> sptree) option" where
  "sp_scan_loop 0 env seek als startKey resultSize m acc st = None"
| "sp_scan_loop (Suc fuel) env seek als startKey resultSize m acc st =
     Option.bind (st_ml st m) (\<lambda>n.
       case rvl_readLockOrRestart (ml_lock n) False of (v, needRestart) \<Rightarrow>
         if needRestart then None
         else if \<not> (ml_lkey n \<noteq> ml_hkey n \<and> length acc < resultSize) then Some (acc, st)
         else if ml_type n = MLNodeTypeWithBuffer \<and> ml_recordCount n \<noteq> 0 then
           (case als of [] \<Rightarrow> None
            | al # als' \<Rightarrow>
                Option.bind (sp_lock_node m v st) (\<lambda>st1.
                Option.bind (sp_FlushOrSplitAndUnlock env al m kKeyEmpty 0 st1) (\<lambda>st2.
                Option.bind (sp_jumpToMiddleLayer seek startKey st2) (\<lambda>(m', _).
                  sp_scan_loop fuel env seek als' startKey resultSize m' [] st2))))
         else
           Option.bind (sp_SortLeafNode m v st) (\<lambda>(v1, st1).
           Option.bind (ml_leafNode n) (\<lambda>l.
           Option.bind (st_leaf st1 l) (\<lambda>lf.
           Option.bind (if ml_lkey n \<ge> startKey then Some (lf_begin lf) else lf_beginAt startKey lf) (\<lambda>sls.
             let got = sp_scan_node startKey (resultSize - length acc) sls
             in if length acc + length got < resultSize
                then Option.bind (ml_next n) (\<lambda>nx. sp_scan_loop fuel env seek als startKey resultSize nx (acc @ got) st1)
                else Some (acc @ got, st1))))))"

definition sp_scan :: "nat \<Rightarrow> sp_env \<Rightarrow> sp_seek \<Rightarrow> sp_alloc list \<Rightarrow> u64 \<Rightarrow> nat \<Rightarrow> sptree \<Rightarrow> (u64 list \<times> sptree) option" where
  "sp_scan fuel env seek als startKey resultSize st =
     Option.bind (sp_jumpToMiddleLayer seek startKey st) (\<lambda>(m, _).
       sp_scan_loop fuel env seek als startKey resultSize m [] st)"

end
