(* ===== verification/SPTreeInv.thy ===== *)
theory SPTreeInv
  imports SPTree
begin

text \<open>
  The invariant of the SPTree: the middle-layer nodes and the leaves form two parallel doubly linked lists
  whose key ranges follow each other without gaps, every record lies in the range of its node, enabled Bloom
  filters cover the records, and the volatile top layer maps the lower key of every node to it. The list is
  described by the addresses of its nodes, \<open>(mnode, leaf)\<close>, with the dummy tail last.
\<close>

type_synonym entry = "nat \<times> nat"

section \<open>Nodes\<close>

definition ml_view :: "mlnode \<Rightarrow> leaf \<Rightarrow> u64 \<rightharpoonup> u64" where
  "ml_view n lf = lf_view lf ++ (if ml_type n = MLNodeTypeWithBuffer then nb_view (ml_writeBuffer n) else Map.empty)"

definition lock_free :: "u64 \<Rightarrow> bool" where
  "lock_free w \<longleftrightarrow> \<not> rvl_isLocked w \<and> \<not> rvl_isObsolete w"

definition buf_ok :: "sp_env \<Rightarrow> mlnode \<Rightarrow> bool" where
  "buf_ok env n \<longleftrightarrow> ml_type n = MLNodeTypeNoBuffer \<or> ml_type n = MLNodeTypeWithBuffer \<and> nb_inv env (ml_writeBuffer n)"

definition data_ok :: "sp_env \<Rightarrow> mlnode \<Rightarrow> leaf \<Rightarrow> bool" where
  "data_ok env n lf \<longleftrightarrow> ml_lkey n = lf_lkey lf \<and> ml_hkey n = lf_hkey lf \<and> ml_lkey n < ml_hkey n \<and>
     lf_inv env lf \<and> buf_ok env n \<and> dom (ml_view n lf) \<subseteq> {ml_lkey n ..< ml_hkey n} \<and>
     (\<not> ml_isDisabled n \<longrightarrow> bf_covers env (ml_bloom n) (dom (ml_view n lf)))"

definition nd_ok :: "sp_env \<Rightarrow> entry \<Rightarrow> mlnode \<Rightarrow> leaf \<Rightarrow> entry option \<Rightarrow> entry \<Rightarrow> bool" where
  "nd_ok env c n lf p d \<longleftrightarrow> ml_leafNode n = Some (snd c) \<and> ml_prev n = map_option fst p \<and> ml_next n = Some (fst d) \<and>
     lf_prev lf = map_option snd p \<and> lf_next lf = Some (snd d) \<and> lock_free (ml_lock n) \<and> data_ok env n lf"

definition lkey_at :: "sptree \<Rightarrow> entry \<Rightarrow> u64" where
  "lkey_at st c = (case st_ml st (fst c) of Some n \<Rightarrow> ml_lkey n | None \<Rightarrow> 0)"

definition nd_view :: "sptree \<Rightarrow> entry \<Rightarrow> u64 \<rightharpoonup> u64" where
  "nd_view st c = (case (st_ml st (fst c), st_leaf st (snd c)) of (Some n, Some lf) \<Rightarrow> ml_view n lf | _ \<Rightarrow> Map.empty)"

definition ent_ok :: "sp_env \<Rightarrow> sptree \<Rightarrow> entry option \<Rightarrow> entry \<Rightarrow> entry \<Rightarrow> bool" where
  "ent_ok env st p c d \<longleftrightarrow> (\<exists>n lf. st_ml st (fst c) = Some n \<and> st_leaf st (snd c) = Some lf \<and> nd_ok env c n lf p d \<and>
     ml_hkey n = lkey_at st d)"

definition tail_ok :: "sptree \<Rightarrow> entry option \<Rightarrow> entry \<Rightarrow> bool" where
  "tail_ok st p t \<longleftrightarrow> (\<exists>n lf. st_ml st (fst t) = Some n \<and> st_leaf st (snd t) = Some lf \<and> ml_lkey n = -1 \<and> ml_hkey n = -1 \<and>
     ml_type n = MLNodeTypeNoBuffer \<and>
     ml_prev n = map_option fst p \<and> ml_next n = None \<and> lf_prev lf = map_option snd p \<and> lf_next lf = None \<and> lock_free (ml_lock n))"

section \<open>Chains\<close>

fun chain_ok :: "sp_env \<Rightarrow> sptree \<Rightarrow> entry option \<Rightarrow> entry list \<Rightarrow> bool" where
  "chain_ok env st p [] \<longleftrightarrow> False"
| "chain_ok env st p [t] \<longleftrightarrow> tail_ok st p t"
| "chain_ok env st p (c # d # cs) \<longleftrightarrow> ent_ok env st p c d \<and> chain_ok env st (Some c) (d # cs)"

fun pre_ok :: "sp_env \<Rightarrow> sptree \<Rightarrow> entry option \<Rightarrow> entry list \<Rightarrow> entry \<Rightarrow> bool" where
  "pre_ok env st p [] c \<longleftrightarrow> True"
| "pre_ok env st p (x # xs) c \<longleftrightarrow> ent_ok env st p x (hd (xs @ [c])) \<and> pre_ok env st (Some x) xs c"

definition last_opt :: "entry option \<Rightarrow> entry list \<Rightarrow> entry option" where
  "last_opt p xs = (if xs = [] then p else Some (last xs))"

lemma last_opt_simps [simp]: "last_opt p [] = p" "last_opt p (x # xs) = last_opt (Some x) xs"
  by (simp_all add: last_opt_def)

lemma chain_ok_append:
  "chain_ok env st p (xs @ c # ys) \<longleftrightarrow> pre_ok env st p xs c \<and> chain_ok env st (last_opt p xs) (c # ys)"
proof (induction xs arbitrary: p)
  case (Cons x xs)
  then show ?case by (cases xs) auto
qed simp

definition same_at :: "sptree \<Rightarrow> sptree \<Rightarrow> entry \<Rightarrow> bool" where
  "same_at st st' c \<longleftrightarrow> st_ml st' (fst c) = st_ml st (fst c) \<and> st_leaf st' (snd c) = st_leaf st (snd c)"

lemma lkey_same: "same_at st st' c \<Longrightarrow> lkey_at st' c = lkey_at st c"
  by (simp add: same_at_def lkey_at_def)

lemma nd_view_same: "same_at st st' c \<Longrightarrow> nd_view st' c = nd_view st c"
  by (simp add: same_at_def nd_view_def)

lemma ent_ok_frame: "same_at st st' c \<Longrightarrow> lkey_at st' d = lkey_at st d \<Longrightarrow> ent_ok env st' p c d = ent_ok env st p c d"
  by (simp add: same_at_def ent_ok_def)

lemma pre_ok_frame:
  "(\<And>x. x \<in> set xs \<Longrightarrow> same_at st st' x) \<Longrightarrow> lkey_at st' c = lkey_at st c \<Longrightarrow> pre_ok env st' p xs c = pre_ok env st p xs c"
proof (induction xs arbitrary: p)
  case (Cons x xs)
  have "lkey_at st' (hd (xs @ [c])) = lkey_at st (hd (xs @ [c]))"
    using Cons.prems lkey_same by (cases xs) auto
  then have "ent_ok env st' p x (hd (xs @ [c])) = ent_ok env st p x (hd (xs @ [c]))"
    using Cons.prems(1) by (intro ent_ok_frame) auto
  with Cons show ?case by simp
qed simp

lemma tail_ok_frame: "same_at st st' t \<Longrightarrow> tail_ok st' p t = tail_ok st p t"
  by (simp add: same_at_def tail_ok_def)

lemma chain_ok_frame:
  "(\<And>x. x \<in> set cs \<Longrightarrow> same_at st st' x) \<Longrightarrow> chain_ok env st' p cs = chain_ok env st p cs"
proof (induction cs arbitrary: p rule: induct_list012)
  case (2 t)
  then show ?case by (simp add: tail_ok_frame)
next
  case (3 c d cs)
  have "ent_ok env st' p c d = ent_ok env st p c d"
    using 3(3) by (intro ent_ok_frame lkey_same) auto
  with 3 show ?case by simp
qed simp

lemma lf_prev_irrelevant [simp]: "lf_inv env (lf\<lparr>lf_prev := q\<rparr>) = lf_inv env lf" "lf_view (lf\<lparr>lf_prev := q\<rparr>) = lf_view lf"
  by (simp_all add: lf_inv_def lf_shape_def lf_view_def)

lemma data_ok_link:
  "data_ok env (n\<lparr>ml_prev := a, ml_lock := w\<rparr>) (lf\<lparr>lf_prev := b\<rparr>) = data_ok env n lf"
  by (simp add: data_ok_def buf_ok_def ml_view_def)

text \<open>The first node of a chain gets another predecessor and another lock word.\<close>

lemma chain_ok_relink:
  assumes "chain_ok env st p (d # ys)" and same: "\<And>x. x \<in> set ys \<Longrightarrow> same_at st st' x"
    and n: "st_ml st (fst d) = Some n" "st_leaf st (snd d) = Some lf"
    and n': "st_ml st' (fst d) = Some (n\<lparr>ml_prev := map_option fst p', ml_lock := w\<rparr>)"
      "st_leaf st' (snd d) = Some (lf\<lparr>lf_prev := map_option snd p'\<rparr>)" "lock_free w"
  shows "chain_ok env st' p' (d # ys)"
proof (cases ys)
  case Nil
  with assms show ?thesis by (simp add: tail_ok_def)
next
  case (Cons e zs)
  have "chain_ok env st' (Some d) ys = chain_ok env st (Some d) ys" using same by (rule chain_ok_frame)
  moreover have "lkey_at st' e = lkey_at st e" using same Cons by (intro lkey_same) simp
  ultimately show ?thesis
    using assms(1) n n' Cons
    by (simp add: ent_ok_def nd_ok_def data_ok_link)
qed

lemma chain_ok_nonempty: "chain_ok env st p cs \<Longrightarrow> cs \<noteq> []"
  by auto

lemma chain_ok_head:
  assumes "chain_ok env st p (d # ys)"
  shows "\<exists>n lf. st_ml st (fst d) = Some n \<and> st_leaf st (snd d) = Some lf \<and> lock_free (ml_lock n) \<and>
    ml_prev n = map_option fst p \<and> lf_prev lf = map_option snd p"
  using assms by (cases ys) (auto simp: tail_ok_def ent_ok_def nd_ok_def)

section \<open>Order\<close>

lemma ent_ok_lkey:
  "ent_ok env st p c d \<Longrightarrow> lkey_at st c < lkey_at st d"
  by (auto simp: ent_ok_def nd_ok_def data_ok_def lkey_at_def)

lemma chain_sorted: "chain_ok env st p cs \<Longrightarrow> sorted_wrt (<) (map (lkey_at st) cs) \<and> lkey_at st (last cs) = -1"
proof (induction cs arbitrary: p rule: induct_list012)
  case (2 t)
  then show ?case by (auto simp: tail_ok_def lkey_at_def)
next
  case (3 c d cs)
  then have ent: "ent_ok env st p c d" and ch: "chain_ok env st (Some c) (d # cs)" by auto
  from 3(2) [OF ch] ent_ok_lkey [OF ent] show ?case by auto
qed simp

lemma chain_order:
  assumes "chain_ok env st p (xs @ c # ys)" "x \<in> set xs" "y \<in> set ys"
  shows "lkey_at st x < lkey_at st c" "lkey_at st c < lkey_at st y" "lkey_at st x < lkey_at st y"
  using chain_sorted [OF assms(1)] assms(2,3) by (auto simp: sorted_wrt_append)

lemma chain_locate:
  "chain_ok env st p cs \<Longrightarrow> lkey_at st (hd cs) \<le> k \<Longrightarrow> k < -1 \<Longrightarrow>
   \<exists>xs c d ys. cs = xs @ c # d # ys \<and> lkey_at st c \<le> k \<and> k < lkey_at st d"
proof (induction cs arbitrary: p rule: induct_list012)
  case (2 t)
  then show ?case by (auto simp: tail_ok_def lkey_at_def)
next
  case (3 c d cs)
  show ?case
  proof (cases "k < lkey_at st d")
    case True
    with 3(4) show ?thesis by (intro exI [of _ "[]"] exI [of _ c] exI [of _ d] exI [of _ cs]) simp
  next
    case False
    with 3 obtain xs c' d' ys where "d # cs = xs @ c' # d' # ys" "lkey_at st c' \<le> k" "k < lkey_at st d'"
      by (metis chain_ok.simps(3) list.sel(1) not_less)
    then show ?thesis by (intro exI [of _ "c # xs"] exI [of _ c'] exI [of _ d'] exI [of _ ys]) simp
  qed
qed simp

section \<open>Finding the target node\<close>

declare mid_backward.simps [simp del] mid_forward.simps [simp del]

lemma mid_backward_chain:
  assumes "chain_ok env st (Some c) (zs @ x # ws)" "\<And>z. z \<in> set (zs @ [x]) \<Longrightarrow> k < lkey_at st z"
  shows "mid_backward (st_ml st) k (fst x) = mid_backward (st_ml st) k (fst c)"
  using assms
proof (induction zs arbitrary: x ws rule: rev_induct)
  case Nil
  then obtain n lf where "st_ml st (fst x) = Some n" "ml_prev n = Some (fst c)"
    using chain_ok_head [of env st "Some c" x ws] by auto
  moreover from this Nil have "k < ml_lkey n" by (simp add: lkey_at_def)
  ultimately show ?case by (subst mid_backward.simps) simp
next
  case (snoc y zs)
  have "chain_ok env st (last_opt (Some c) (zs @ [y])) (x # ws)"
    using snoc.prems(1) by (simp only: chain_ok_append)
  then have "chain_ok env st (Some y) (x # ws)" by (simp add: last_opt_def)
  then obtain n lf where n: "st_ml st (fst x) = Some n" "ml_prev n = Some (fst y)"
    using chain_ok_head [of env st "Some y" x ws] by auto
  from this snoc.prems(2) [of x] have "k < ml_lkey n" by (simp add: lkey_at_def)
  with n have "mid_backward (st_ml st) k (fst x) = mid_backward (st_ml st) k (fst y)"
    by (subst mid_backward.simps) simp
  also have "\<dots> = mid_backward (st_ml st) k (fst c)"
    by (rule snoc.IH [of y "x # ws"]) (use snoc.prems in auto)
  finally show ?case .
qed

lemma mid_backward_stop:
  "st_ml st (fst x) = Some n \<Longrightarrow> ml_lkey n \<le> k \<Longrightarrow> mid_backward (st_ml st) k (fst x) = Some (fst x)"
  by (subst mid_backward.simps) (simp add: not_less [symmetric])

lemma mid_forward_chain:
  assumes "pre_ok env st p xs c" "\<And>x. x \<in> set xs \<Longrightarrow> lkey_at st x \<le> k" "lkey_at st c \<le> k" "x \<in> set xs"
  shows "mid_forward (st_ml st) k (fst x) = mid_forward (st_ml st) k (fst c)"
  using assms
proof (induction xs arbitrary: p x)
  case (Cons y xs)
  let ?z = "hd (xs @ [c])"
  have le: "lkey_at st ?z \<le> k" using Cons.prems(2,3) by (cases xs) auto
  from Cons.prems(1) obtain n where n: "st_ml st (fst y) = Some n" "ml_next n = Some (fst ?z)" "ml_hkey n = lkey_at st ?z"
    by (auto simp: ent_ok_def nd_ok_def)
  then have y: "mid_forward (st_ml st) k (fst y) = mid_forward (st_ml st) k (fst ?z)"
    using le by (subst mid_forward.simps) simp
  have rest: "mid_forward (st_ml st) k (fst x) = mid_forward (st_ml st) k (fst c)" if "x \<in> set xs" for x
    by (rule Cons.IH [of "Some y"]) (use Cons.prems that in auto)
  show ?case
  proof (cases "x = y")
    case True
    with y rest show ?thesis by (cases xs) auto
  next
    case False
    with Cons.prems(4) rest show ?thesis by simp
  qed
qed simp

lemma pre_ok_node: "pre_ok env st p xs c \<Longrightarrow> x \<in> set xs \<Longrightarrow> \<exists>n. st_ml st (fst x) = Some n"
proof (induction xs arbitrary: p)
  case (Cons y xs)
  then have "ent_ok env st p y (hd (xs @ [c]))" "pre_ok env st (Some y) xs c" by auto
  with Cons.IH Cons.prems(2) show ?case by (cases "x = y") (auto simp: ent_ok_def)
qed simp

lemma mid_find_chain:
  assumes ch: "chain_ok env st None (xs @ c # d # ys)" and k: "lkey_at st c \<le> k" "k < lkey_at st d"
    and x: "x \<in> set (xs @ c # d # ys)"
  shows "mid_FindTargetMLNode k (fst x) (st_ml st) = Some (fst c)"
proof -
  have pre: "pre_ok env st None xs c" and ent: "ent_ok env st (last_opt None xs) c d"
    and post: "chain_ok env st (Some c) (d # ys)"
    using ch by (auto simp: chain_ok_append)
  obtain n where n: "st_ml st (fst c) = Some n" "ml_hkey n = lkey_at st d" "ml_lkey n = lkey_at st c"
    using ent by (auto simp: ent_ok_def lkey_at_def)
  have low: "lkey_at st z \<le> k" if "z \<in> set xs" for z
    using chain_order(1) [of env st None xs c "d # ys" z d] ch k that by auto
  have high: "k < lkey_at st z" if "z \<in> set (d # ys)" for z
  proof -
    have "sorted_wrt (<) (map (lkey_at st) (d # ys))" using chain_sorted [OF post] by simp
    then have "lkey_at st d \<le> lkey_at st z" using that by (auto simp: less_imp_le)
    with k show ?thesis by simp
  qed
  have fc: "mid_forward (st_ml st) k (fst c) = Some (fst c)"
    using n(1,2) k(2) by (subst mid_forward.simps) (simp add: not_le [symmetric])
  have bc: "mid_backward (st_ml st) k (fst c) = Some (fst c)"
    by (rule mid_backward_stop [OF n(1)]) (simp add: n k)
  consider "x \<in> set xs" | "x = c" | "x \<in> set (d # ys)" using x by auto
  then show ?thesis
  proof cases
    case 1
    have "\<exists>nx. st_ml st (fst x) = Some nx" by (rule pre_ok_node [OF pre 1])
    then obtain nx where nx: "st_ml st (fst x) = Some nx" by blast
    then have "mid_backward (st_ml st) k (fst x) = Some (fst x)"
      using low [OF 1] by (intro mid_backward_stop) (auto simp: lkey_at_def)
    with mid_forward_chain [OF pre low k(1) 1] fc show ?thesis by (simp add: mid_FindTargetMLNode_def)
  next
    case 2
    with bc fc show ?thesis by (simp add: mid_FindTargetMLNode_def)
  next
    case 3
    then obtain zs ws where s: "d # ys = zs @ x # ws" by (metis split_list)
    then have "mid_backward (st_ml st) k (fst x) = mid_backward (st_ml st) k (fst c)"
      using mid_backward_chain [of env st c zs x ws k] post high by auto
    with bc fc show ?thesis by (simp add: mid_FindTargetMLNode_def)
  qed
qed

section \<open>The map a chain stands for\<close>

definition chain_view :: "sptree \<Rightarrow> entry list \<Rightarrow> u64 \<rightharpoonup> u64" where
  "chain_view st cs = foldr (\<lambda>c m. m ++ nd_view st c) (butlast cs) Map.empty"

lemma chain_view_simps [simp]:
  "chain_view st [t] = Map.empty" "chain_view st (c # d # cs) = chain_view st (d # cs) ++ nd_view st c"
  by (simp_all add: chain_view_def)

lemma data_ok_range: "data_ok env n lf \<Longrightarrow> ml_view n lf x = Some v \<Longrightarrow> ml_lkey n \<le> x \<and> x < ml_hkey n"
  unfolding data_ok_def by (meson atLeastLessThan_iff domI subsetD)

lemma ent_view:
  "ent_ok env st p c d \<Longrightarrow> nd_view st c x = Some v \<Longrightarrow> lkey_at st c \<le> x \<and> x < lkey_at st d"
proof -
  assume "ent_ok env st p c d" and v: "nd_view st c x = Some v"
  then obtain n lf where n: "st_ml st (fst c) = Some n" "st_leaf st (snd c) = Some lf" "data_ok env n lf" "ml_hkey n = lkey_at st d"
    by (auto simp: ent_ok_def nd_ok_def)
  then have "ml_view n lf x = Some v" "ml_lkey n = lkey_at st c" using v by (simp_all add: nd_view_def lkey_at_def)
  with data_ok_range [OF n(3)] n(4) show ?thesis by simp
qed

lemma chain_view_low:
  "chain_ok env st p cs \<Longrightarrow> x < lkey_at st (hd cs) \<Longrightarrow> chain_view st cs x = None"
proof (induction cs arbitrary: p rule: induct_list012)
  case (3 c d cs)
  then have ent: "ent_ok env st p c d" by simp
  have "x < lkey_at st d" using ent_ok_lkey [OF ent] 3(4) by simp
  then have "chain_view st (d # cs) x = None" using 3(2) [of "Some c"] 3(3) by simp
  moreover have "nd_view st c x = None"
  proof (cases "nd_view st c x")
    case (Some v)
    from ent_view [OF ent Some] 3(4) show ?thesis by (auto dest: leD)
  qed
  ultimately show ?case by (simp add: map_add_def)
qed (simp_all add: chain_view_def)

lemma chain_view_cases:
  assumes "chain_ok env st p (c # d # cs)"
  shows "chain_view st (c # d # cs) x = (if x < lkey_at st d then nd_view st c x else chain_view st (d # cs) x)"
proof (cases "x < lkey_at st d")
  case True
  then have "chain_view st (d # cs) x = None" using chain_view_low [of env st "Some c" "d # cs" x] assms by simp
  with True show ?thesis by (simp add: map_add_def split: option.split)
next
  case False
  have ent: "ent_ok env st p c d" using assms by simp
  have "nd_view st c x = None"
  proof (cases "nd_view st c x")
    case (Some v)
    from ent_view [OF ent Some] False show ?thesis by blast
  qed
  with False show ?thesis by (simp add: map_add_def)
qed

text \<open>The part of a chain that covers a key decides the value of the key.\<close>

lemma chain_view_append:
  assumes "chain_ok env st p (xs @ c # zs)" "lkey_at st c \<le> x"
  shows "chain_view st (xs @ c # zs) x = chain_view st (c # zs) x"
  using assms
proof (induction xs arbitrary: p)
  case (Cons y xs)
  obtain z zs' where z: "xs @ c # zs = z # zs'" by (cases "xs @ c # zs") auto
  have ch: "chain_ok env st p (y # z # zs')" using Cons.prems(1) z by simp
  have "lkey_at st z \<le> x"
  proof (cases xs)
    case Nil
    with z Cons.prems(2) show ?thesis by simp
  next
    case (Cons a list)
    with z have "z = a" by simp
    moreover have "lkey_at st a < lkey_at st c"
      using chain_sorted [OF \<open>chain_ok env st p ((y # xs) @ c # zs)\<close>] Cons by auto
    ultimately show ?thesis using \<open>lkey_at st c \<le> x\<close> by simp
  qed
  then have "chain_view st (y # z # zs') x = chain_view st (z # zs') x"
    using chain_view_cases [OF ch, of x] by (simp add: leD)
  moreover have "chain_ok env st (Some y) (xs @ c # zs)" using ch z by simp
  ultimately show ?case using Cons.IH Cons.prems(2) z by simp
qed simp

lemma chain_view_at:
  assumes "chain_ok env st p (xs @ c # d # ys)" "lkey_at st c \<le> x" "x < lkey_at st d"
  shows "chain_view st (xs @ c # d # ys) x = nd_view st c x"
proof -
  have "chain_ok env st (last_opt p xs) (c # d # ys)" using assms(1) by (simp only: chain_ok_append)
  then show ?thesis
    using chain_view_append [OF assms(1,2)] chain_view_cases [of env st "last_opt p xs" c d ys x] assms(3) by simp
qed

text \<open>Two chains that agree outside a segment have the same values for keys outside its range.\<close>

lemma chain_view_low_part:
  assumes "chain_ok env st p (xs @ c # ys)" "chain_ok env st' p (xs @ c # zs)" "x < lkey_at st c"
    and same: "\<And>y. y \<in> set xs \<Longrightarrow> same_at st st' y" "lkey_at st' c = lkey_at st c"
  shows "chain_view st' (xs @ c # zs) x = chain_view st (xs @ c # ys) x"
  using assms
proof (induction xs arbitrary: p)
  case Nil
  then show ?case
    using chain_view_low [of env st p "c # ys" x] chain_view_low [of env st' p "c # zs" x] by simp
next
  case (Cons y xs)
  show ?case
  proof (cases xs)
    case Nil
    with Cons.prems chain_view_cases [of env st p y c ys x] chain_view_cases [of env st' p y c zs x]
      nd_view_same [of st st' y] show ?thesis by simp
  next
    case (Cons z xs')
    have ch: "chain_ok env st p (y # z # xs' @ c # ys)" "chain_ok env st' p (y # z # xs' @ c # zs)"
      using Cons.prems(1,2) Cons by auto
    have "same_at st st' y" "same_at st st' z" using Cons.prems(4) Cons by auto
    moreover have "chain_view st' (z # xs' @ c # zs) x = chain_view st (z # xs' @ c # ys) x"
      using Cons.IH [of "Some y"] Cons.prems ch Cons by simp
    ultimately show ?thesis
      using chain_view_cases [OF ch(1)] chain_view_cases [OF ch(2)] nd_view_same lkey_same Cons by simp
  qed
qed

lemma chain_view_frame:
  "(\<And>y. y \<in> set cs \<Longrightarrow> same_at st st' y) \<Longrightarrow> chain_view st' cs = chain_view st cs"
proof (induction cs rule: induct_list012)
  case (3 c d cs)
  then show ?case using nd_view_same [of st st' c] by simp
qed (simp_all add: chain_view_def)

section \<open>The invariant\<close>

primrec job_apply :: "pmem_job \<Rightarrow> (u64 \<rightharpoonup> nat) \<Rightarrow> u64 \<rightharpoonup> nat" where
  "job_apply (PmemInsert k l) T = T(k \<mapsto> l)"
| "job_apply (PmemRemove k) T = T(k := None)"

lemma sp_WaitAllJobs_pmem: "st_topPmem (sp_WaitAllJobs st) = map_option (fold job_apply (st_jobs st)) (st_topPmem st)"
proof -
  have "st_topPmem (fold sp_run_job js st) = map_option (fold job_apply js) (st_topPmem st)" for js and st :: sptree
  proof (induction js arbitrary: st)
    case (Cons j js)
    then show ?case by (cases j) (simp_all add: pmem_insert_def pmem_remove_def option.map_comp comp_def)
  qed (simp add: option.map_id)
  then show ?thesis by (simp add: sp_WaitAllJobs_def)
qed

definition top_of :: "sptree \<Rightarrow> entry list \<Rightarrow> u64 \<rightharpoonup> nat" where
  "top_of st cs = map_of (map (\<lambda>c. (lkey_at st c, fst c)) (butlast cs))"

definition pmem_of :: "sptree \<Rightarrow> entry list \<Rightarrow> u64 \<rightharpoonup> nat" where
  "pmem_of st cs = map_of (map (\<lambda>c. (lkey_at st c, snd c)) (butlast cs))"

definition st_inv :: "sp_env \<Rightarrow> sptree \<Rightarrow> entry list \<Rightarrow> bool" where
  "st_inv env st cs \<longleftrightarrow> chain_ok env st None cs \<and> distinct (map fst cs) \<and> distinct (map snd cs) \<and> 1 < length cs \<and>
     lkey_at st (hd cs) = kSPTreeMinKey \<and> st_head st = fst (hd cs) \<and> st_dummyTail st = fst (last cs) \<and>
     st_bothead st = snd (hd cs) \<and> st_top st = top_of st cs \<and>
     (st_topPmem st \<noteq> None \<longrightarrow> st_topPmem (sp_WaitAllJobs st) = Some (pmem_of st cs))"

definition seek_ok :: "sp_seek \<Rightarrow> bool" where
  "seek_ok seek \<longleftrightarrow> (\<forall>T k. T kSPTreeMinKey \<noteq> None \<longrightarrow> (\<exists>a \<in> ran T. seek T k = Some a))"

lemma st_locate:
  assumes inv: "st_inv env st cs" and seek: "seek_ok seek" and k: "kSPTreeMinKey \<le> k" "k < -1"
  shows "\<exists>xs c d ys n lf. cs = xs @ c # d # ys \<and> st_ml st (fst c) = Some n \<and> st_leaf st (snd c) = Some lf \<and>
    nd_ok env c n lf (last_opt None xs) d \<and> ml_hkey n = lkey_at st d \<and> ml_lkey n = lkey_at st c \<and>
    ml_lkey n \<le> k \<and> k < ml_hkey n \<and> sp_jumpToMiddleLayer seek k st = Some (fst c, ml_lock n)"
proof -
  have ch: "chain_ok env st None cs" and hd: "lkey_at st (hd cs) = kSPTreeMinKey" and top: "st_top st = top_of st cs"
    and len: "1 < length cs"
    using inv by (auto simp: st_inv_def)
  obtain xs c d ys where cs: "cs = xs @ c # d # ys" and r: "lkey_at st c \<le> k" "k < lkey_at st d"
    using chain_locate [OF ch] hd k by metis
  have "ent_ok env st (last_opt None xs) c d" using ch by (simp add: cs chain_ok_append)
  then obtain n lf where n: "st_ml st (fst c) = Some n" "st_leaf st (snd c) = Some lf"
    "nd_ok env c n lf (last_opt None xs) d" "ml_hkey n = lkey_at st d"
    by (auto simp: ent_ok_def)
  then have lk: "ml_lkey n = lkey_at st c" by (simp add: lkey_at_def)
  have "butlast cs \<noteq> []" using len by (cases cs) auto
  then obtain b bs where b: "butlast cs = b # bs" by (cases "butlast cs") auto
  then have "hd cs = b" by (cases cs) (auto split: if_splits)
  then have "st_top st kSPTreeMinKey \<noteq> None" using hd by (simp add: top top_of_def b)
  then obtain a where a: "a \<in> ran (st_top st)" "seek (st_top st) k = Some a"
    using seek by (auto simp: seek_ok_def)
  from a(1) obtain x where x: "x \<in> set (butlast cs)" "a = fst x"
    by (auto simp: top top_of_def ran_def dest!: map_of_SomeD)
  then have "mid_FindTargetMLNode k a (st_ml st) = Some (fst c)"
    using mid_find_chain [OF ch [unfolded cs] r, of x] cs in_set_butlastD [of x cs] by simp
  moreover have "lock_free (ml_lock n)" using n(3) by (simp add: nd_ok_def)
  ultimately have "sp_jumpToMiddleLayer seek k st = Some (fst c, ml_lock n)"
    using a(2) n r lk
    by (simp add: sp_jumpToMiddleLayer_def top_seekLE_def rvl_readLockOrRestart_def lock_free_def leD)
  with cs n lk r show ?thesis by (intro exI conjI) auto
qed

lemma st_inv_chain: "st_inv env st cs \<Longrightarrow> chain_ok env st None cs"
  by (simp add: st_inv_def)

lemma st_view_at:
  assumes "st_inv env st (xs @ c # d # ys)" "st_ml st (fst c) = Some n" "st_leaf st (snd c) = Some lf"
    "ml_hkey n = lkey_at st d" "ml_lkey n \<le> x" "x < ml_hkey n"
  shows "chain_view st (xs @ c # d # ys) x = ml_view n lf x"
  using chain_view_at [OF st_inv_chain [OF assms(1)], of x] assms(2-6) by (simp add: lkey_at_def nd_view_def)

end
