(* ===== verification/SPTreeOps.thy ===== *)
theory SPTreeOps
  imports SPTreeInv
begin

text \<open>
  The operations of the SPTree against the invariant: lookup reads the map of the chain, insertion and removal
  update it at one key, through the leaf, through the write buffer and through a split.
\<close>

section \<open>Lock words\<close>

lemma take_bit_add_4: "take_bit 2 (w + 4 :: u64) = take_bit 2 w"
  by transfer (simp add: take_bit_eq_mod)

lemma bit_low: "i < 2 \<Longrightarrow> bit (take_bit 2 w :: u64) i \<longleftrightarrow> bit w i"
  by (simp add: bit_take_bit_iff)

lemma lock_free_add_4: "lock_free w \<Longrightarrow> lock_free (w + 4)"
  using bit_low [of 0 "w + 4"] bit_low [of 1 "w + 4"] bit_low [of 0 w] bit_low [of 1 w]
  by (simp add: lock_free_def rvl_isLocked_bit rvl_isObsolete_bit take_bit_add_4)

lemma rvl_unlock_add: "rvl_writeUnlock (w + 2) = w + 4"
  by (simp add: rvl_writeUnlock_def)

section \<open>Replacing the data of one node\<close>

definition same_top :: "sptree \<Rightarrow> sptree \<Rightarrow> bool" where
  "same_top st st' \<longleftrightarrow> st_head st' = st_head st \<and> st_dummyTail st' = st_dummyTail st \<and> st_bothead st' = st_bothead st \<and>
     st_top st' = st_top st \<and> st_topPmem st' = st_topPmem st \<and> st_jobs st' = st_jobs st"

definition same_links :: "mlnode \<Rightarrow> leaf \<Rightarrow> mlnode \<Rightarrow> leaf \<Rightarrow> bool" where
  "same_links n lf n' lf' \<longleftrightarrow> ml_leafNode n' = ml_leafNode n \<and> ml_prev n' = ml_prev n \<and> ml_next n' = ml_next n \<and>
     ml_lkey n' = ml_lkey n \<and> ml_hkey n' = ml_hkey n \<and> lf_prev lf' = lf_prev lf \<and> lf_next lf' = lf_next lf \<and>
     lf_lkey lf' = lf_lkey lf \<and> lf_hkey lf' = lf_hkey lf"

lemma top_of_cong:
  "(\<And>x. x \<in> set cs \<Longrightarrow> lkey_at st' x = lkey_at st x) \<Longrightarrow> top_of st' cs = top_of st cs \<and> pmem_of st' cs = pmem_of st cs"
proof -
  assume lk: "\<And>x. x \<in> set cs \<Longrightarrow> lkey_at st' x = lkey_at st x"
  have "map (\<lambda>c. (lkey_at st' c, f c)) (butlast cs) = map (\<lambda>c. (lkey_at st c, f c)) (butlast cs)" for f :: "entry \<Rightarrow> nat"
    by (rule map_cong [OF refl]) (use lk in_set_butlastD in fast)
  then show ?thesis by (simp only: top_of_def pmem_of_def)
qed

lemma other_at:
  assumes "distinct (map fst (xs @ c # ys))" "distinct (map snd (xs @ c # ys))" "x \<in> set xs \<union> set ys"
  shows "fst x \<noteq> fst c" "snd x \<noteq> snd c"
proof -
  have "fst c \<notin> fst ` (set xs \<union> set ys)" "snd c \<notin> snd ` (set xs \<union> set ys)" using assms(1,2) by auto
  with assms(3) show "fst x \<noteq> fst c" "snd x \<noteq> snd c" by (metis image_eqI)+
qed

lemma st_inv_replace:
  assumes inv: "st_inv env st (xs @ c # d # ys)"
    and n: "st_ml st (fst c) = Some n" "st_leaf st (snd c) = Some lf" "nd_ok env c n lf (last_opt None xs) d"
      "ml_hkey n = lkey_at st d" "ml_lkey n = lkey_at st c"
    and st': "st_ml st' = (st_ml st)(fst c \<mapsto> n')" "st_leaf st' = (st_leaf st)(snd c \<mapsto> lf')" "same_top st st'"
    and n': "same_links n lf n' lf'" "lock_free (ml_lock n')" "data_ok env n' lf'"
  shows "st_inv env st' (xs @ c # d # ys) \<and>
    chain_view st' (xs @ c # d # ys) x =
      (if ml_lkey n \<le> x \<and> x < ml_hkey n then ml_view n' lf' x else chain_view st (xs @ c # d # ys) x)"
proof -
  let ?cs = "xs @ c # d # ys"
  have ch: "chain_ok env st None ?cs" and dist: "distinct (map fst ?cs)" "distinct (map snd ?cs)"
    using inv by (auto simp: st_inv_def)
  have same: "same_at st st' x" if "x \<in> set xs \<union> set (d # ys)" for x
    using other_at [OF dist that] by (simp add: same_at_def st')
  have lc: "lkey_at st' c = lkey_at st c" using n(5) n'(1) by (simp add: lkey_at_def st' same_links_def)
  have lk: "lkey_at st' x = lkey_at st x" if "x \<in> set ?cs" for x
    using that lc lkey_same [OF same, of x] by auto
  have parts: "pre_ok env st None xs c" "chain_ok env st (Some c) (d # ys)"
    using ch by (auto simp: chain_ok_append)
  have ent: "ent_ok env st' (last_opt None xs) c d"
    using n n' st' lk [of d] by (simp add: ent_ok_def nd_ok_def same_links_def)
  have "pre_ok env st' None xs c = pre_ok env st None xs c" by (rule pre_ok_frame) (use same lc in auto)
  moreover have "chain_ok env st' (Some c) (d # ys) = chain_ok env st (Some c) (d # ys)"
    by (rule chain_ok_frame) (use same in auto)
  ultimately have ch': "chain_ok env st' None ?cs"
    using parts ent by (simp add: chain_ok_append)
  have tops: "top_of st' ?cs = top_of st ?cs \<and> pmem_of st' ?cs = pmem_of st ?cs" by (rule top_of_cong) (rule lk)
  have hd: "lkey_at st' (hd ?cs) = lkey_at st (hd ?cs)" by (rule lk) (cases xs, auto)
  have "st_inv env st' ?cs"
    using inv ch' tops hd st'(3)
    unfolding st_inv_def same_top_def sp_WaitAllJobs_pmem by (simp only: simp_thms) blast
  moreover have "chain_view st' ?cs x = (if ml_lkey n \<le> x \<and> x < ml_hkey n then ml_view n' lf' x else chain_view st ?cs x)"
  proof -
    consider "x < ml_lkey n" | "ml_lkey n \<le> x" "x < ml_hkey n" | "ml_hkey n \<le> x" by fastforce
    then show ?thesis
    proof cases
      case 1
      have "chain_view st' ?cs x = chain_view st ?cs x"
        by (rule chain_view_low_part [OF ch ch']) (use 1 n(5) lc same in auto)
      with 1 show ?thesis by (auto dest: leD)
    next
      case 2
      have "chain_view st' ?cs x = nd_view st' c x"
        by (rule chain_view_at [OF ch']) (use 2 n lk in auto)
      with 2 show ?thesis by (simp add: nd_view_def st')
    next
      case 3
      have "ml_lkey n < ml_hkey n" using n(3) unfolding nd_ok_def data_ok_def by blast
      then have d: "lkey_at st c \<le> lkey_at st d" by (simp add: n(4,5) less_imp_le)
      have eq: "chain_view st0 ?cs x = chain_view st0 (d # ys) x"
        if "chain_ok env st0 None ?cs" "lkey_at st0 d = lkey_at st d" for st0
      proof -
        have "chain_view st0 ((xs @ [c]) @ d # ys) x = chain_view st0 (d # ys) x"
          by (rule chain_view_append [where p = None and env = env]) (use that 3 n(4) in auto)
        then show ?thesis by simp
      qed
      have "chain_view st' (d # ys) = chain_view st (d # ys)" by (rule chain_view_frame) (use same in auto)
      with eq [OF ch] eq [OF ch'] lk 3 show ?thesis by (auto dest: leD)
    qed
  qed
  ultimately show ?thesis by simp
qed

section \<open>Lookup\<close>

lemma ml_CouldExist_ok:
  assumes "data_ok env n lf" "ml_view n lf k = Some v"
  shows "ml_CouldExist env k n"
  using assms by (auto simp: data_ok_def ml_CouldExist_def bf_covers_def)

lemma ml_lookup_ok:
  assumes "data_ok env n lf"
  shows "(if ml_type n = MLNodeTypeWithBuffer then ml_lookup env k n else Some 0) =
    Some (case (if ml_type n = MLNodeTypeWithBuffer then nb_view (ml_writeBuffer n) k else None) of Some v \<Rightarrow> v | None \<Rightarrow> 0)"
  using assms by (auto simp: data_ok_def buf_ok_def ml_lookup_def nb_lookup_def nb_find_view)

lemma sp_lookup_ok:
  assumes inv: "st_inv env st cs" and seek: "seek_ok seek" and k: "kSPTreeMinKey \<le> k" "k < -1"
    and nz: "chain_view st cs k \<noteq> Some 0"
  shows "sp_lookup env seek k st = Some (case chain_view st cs k of Some v \<Rightarrow> v | None \<Rightarrow> 0)"
proof -
  obtain xs c d ys n lf where cs: "cs = xs @ c # d # ys" and n: "st_ml st (fst c) = Some n" "st_leaf st (snd c) = Some lf"
    "nd_ok env c n lf (last_opt None xs) d" "ml_hkey n = lkey_at st d" "ml_lkey n = lkey_at st c"
    and r: "ml_lkey n \<le> k" "k < ml_hkey n" and j: "sp_jumpToMiddleLayer seek k st = Some (fst c, ml_lock n)"
    using st_locate [OF inv seek k] by blast
  have dok: "data_ok env n lf" and leaf: "ml_leafNode n = Some (snd c)" using n(3) by (auto simp: nd_ok_def)
  then have linv: "lf_inv env lf" by (simp add: data_ok_def)
  have view: "chain_view st cs k = ml_view n lf k" unfolding cs by (rule st_view_at) (use inv cs n r in auto)
  note ml = ml_lookup_ok [OF dok, of k]
  show ?thesis
  proof (cases "ml_CouldExist env k n")
    case False
    then have "ml_view n lf k = None" using ml_CouldExist_ok [OF dok, of k] by (cases "ml_view n lf k") auto
    with False j n view show ?thesis
      by (simp add: sp_lookup_def rvl_checkOrRestart_def rvl_readUnlockOrRestart_def)
  next
    case True
    with j n view ml nz leaf show ?thesis
      by (auto simp: sp_lookup_def rvl_checkOrRestart_def rvl_readUnlockOrRestart_def lf_Lookup_view [OF linv]
          ml_view_def map_add_def split: option.splits if_splits)
  qed
qed

section \<open>Locking\<close>

lemma sp_lock_ok:
  "st_ml st m = Some n \<Longrightarrow> sp_lock_node m (ml_lock n) st = Some (st\<lparr>st_ml := (st_ml st)(m \<mapsto> n\<lparr>ml_lock := ml_lock n + 2\<rparr>)\<rparr>)"
  by (simp add: sp_lock_node_def rvl_upgradeToWriteLockOrRestart_def)

lemma lf_Insert_fields:
  assumes "lf_Insert env k v lf = ((b, i), lf')"
  shows "lf_prev lf' = lf_prev lf" "lf_next lf' = lf_next lf" "lf_lkey lf' = lf_lkey lf" "lf_hkey lf' = lf_hkey lf"
  using assms by (auto simp: lf_Insert_def lf_overwrite_def lf_store_def lf_SetValid_def Let_def split: option.splits if_splits)

lemma lf_Remove_fields:
  assumes "lf_Remove env k lf = (b, lf')"
  shows "lf_prev lf' = lf_prev lf" "lf_next lf' = lf_next lf" "lf_lkey lf' = lf_lkey lf" "lf_hkey lf' = lf_hkey lf"
  using assms by (auto simp: lf_Remove_def lf_SetErase_def split: option.splits)

lemma lf_Insert_ok:
  assumes "lf_inv env lf" "lf_Insert env k v lf = ((b, i), lf')"
  shows "lf_inv env lf' \<and> (if b then lf_view lf' = (lf_view lf)(k \<mapsto> v) else lf' = lf \<and> lf_view lf k = None \<and> lf_Full lf)"
  using lf_put_cases [OF assms(1), of k v] assms(2) by (simp add: lf_put_def)

text \<open>A record goes to the view of its node and, when it is enabled, to the Bloom filter.\<close>

lemma data_ok_put:
  assumes ok: "data_ok env n lf" and k: "ml_lkey n \<le> k" "k < ml_hkey n"
    and n': "ml_lkey n' = ml_lkey n" "ml_hkey n' = ml_hkey n" "lf_lkey lf' = lf_lkey lf" "lf_hkey lf' = lf_hkey lf"
      "lf_inv env lf'" "buf_ok env n'" "ml_view n' lf' = (ml_view n lf)(k \<mapsto> v)"
      "ml_isDisabled n' = ml_isDisabled n" "\<not> ml_isDisabled n \<Longrightarrow> ml_bloom n' = bf_set env k (ml_bloom n)"
  shows "data_ok env n' lf'"
proof -
  have "bf_covers env (bf_set env k (ml_bloom n)) (insert k (dom (ml_view n lf)))" if "\<not> ml_isDisabled n"
    using ok that by (intro bf_covers_set) (simp add: data_ok_def)
  then show ?thesis using ok k n' by (auto simp: data_ok_def dom_fun_upd)
qed

section \<open>Insertion into the leaf\<close>

lemma sp_insert_leaf:
  assumes inv: "st_inv env st cs" and cs: "cs = xs @ c # d # ys"
    and n: "st_ml st (fst c) = Some n" "st_leaf st (snd c) = Some lf" "nd_ok env c n lf (last_opt None xs) d"
      "ml_hkey n = lkey_at st d" "ml_lkey n = lkey_at st c"
    and r: "ml_lkey n \<le> k" "k < ml_hkey n" and j: "sp_jumpToMiddleLayer seek k st = Some (fst c, ml_lock n)"
    and t: "ml_type n = MLNodeTypeNoBuffer" and ins: "lf_Insert env k v lf = ((True, i), lf')"
  shows "\<exists>st'. sp_insert env seek al k v st = Some (True, st') \<and> st_inv env st' cs \<and>
    chain_view st' cs = (chain_view st cs)(k \<mapsto> v) \<and> st_enableWriteBuffer st' = st_enableWriteBuffer st \<and>
    st_leaf st' = (st_leaf st)(snd c \<mapsto> lf') \<and> st_topPmem st' = st_topPmem st"
proof -
  have ok: "data_ok env n lf" and leaf: "ml_leafNode n = Some (snd c)" and free: "lock_free (ml_lock n)"
    using n(3) by (auto simp: nd_ok_def)
  have L: "lf_inv env lf'" "lf_view lf' = (lf_view lf)(k \<mapsto> v)" using lf_Insert_ok [OF _ ins] ok by (auto simp: data_ok_def)
  define n' where "n' = (ml_SetBloomFilter env k n)\<lparr>ml_lock := ml_lock n + 4\<rparr>"
  define st' where "st' = st\<lparr>st_ml := (st_ml st)(fst c \<mapsto> n'), st_leaf := (st_leaf st)(snd c \<mapsto> lf')\<rparr>"
  have run: "sp_insert env seek al k v st = Some (True, st')"
    using j n t ins leaf
    by (simp add: sp_insert_def sp_lock_ok sp_writeUnlock_def sp_with_node_def st'_def n'_def rvl_unlock_add ml_SetBloomFilter_def)
  have links: "same_links n lf n' lf'"
    using lf_Insert_fields [OF ins] by (simp add: same_links_def n'_def ml_SetBloomFilter_def)
  have view: "ml_view n' lf' = (ml_view n lf)(k \<mapsto> v)"
    using t L by (simp add: ml_view_def n'_def ml_SetBloomFilter_def)
  have ok': "data_ok env n' lf'"
    by (rule data_ok_put [OF ok r]) (use links L view t in \<open>auto simp: same_links_def n'_def ml_SetBloomFilter_def buf_ok_def\<close>)
  have "st_inv env st' cs \<and> chain_view st' cs x = (if ml_lkey n \<le> x \<and> x < ml_hkey n then ml_view n' lf' x else chain_view st cs x)" for x
    unfolding cs
    by (rule st_inv_replace [OF inv [unfolded cs] n])
      (use links ok' lock_free_add_4 [OF free] in \<open>simp_all add: st'_def same_top_def n'_def\<close>)
  moreover have "chain_view st cs x = ml_view n lf x" if "ml_lkey n \<le> x" "x < ml_hkey n" for x
    unfolding cs by (rule st_view_at) (use inv cs n that in auto)
  ultimately have "st_inv env st' cs" "chain_view st' cs = (chain_view st cs)(k \<mapsto> v)"
    using r view by (auto simp: fun_eq_iff)
  with run show ?thesis by (intro exI [of _ st']) (simp add: st'_def)
qed

section \<open>Splitting a node\<close>

text \<open>The node \<open>c\<close> is divided; \<open>e\<close> is the new node between \<open>c\<close> and \<open>d\<close>.\<close>

lemma chain_view_relink:
  assumes "chain_ok env st p (d # ys)" and same: "\<And>x. x \<in> set ys \<Longrightarrow> same_at st st' x" and "nd_view st' d = nd_view st d"
  shows "chain_view st' (d # ys) = chain_view st (d # ys)"
proof (cases ys)
  case (Cons e zs)
  have "chain_view st' ys = chain_view st ys" using same by (rule chain_view_frame)
  with Cons assms(3) show ?thesis by simp
qed simp

lemma map_of_insert_mid: "k \<notin> fst ` set A \<Longrightarrow> map_of (A @ (k, v) # B) = (map_of (A @ B))(k \<mapsto> v)"
  by (induction A) (auto simp: fun_eq_iff)

lemma map_of_remove_mid:
  "distinct (map fst (A @ (k, v) # B)) \<Longrightarrow> (map_of (A @ (k, v) # B))(k := None) = map_of (A @ B)"
proof -
  assume d: "distinct (map fst (A @ (k, v) # B))"
  then have "k \<notin> fst ` set A" "k \<notin> fst ` set (A @ B)" by auto
  then have "map_of (A @ (k, v) # B) = (map_of (A @ B))(k \<mapsto> v)" "map_of (A @ B) k = None"
    by (simp_all only: map_of_insert_mid map_of_eq_None_iff not_False_eq_True)
  then show ?thesis by (simp only: fun_upd_upd fun_upd_idem)
qed

lemma butlast_mid: "butlast (xs @ c # d # ys) = xs @ c # butlast (d # ys)"
  by (simp add: butlast_append)

lemma top_of_split:
  assumes lk: "\<And>x. x \<in> set (xs @ c # ys) \<Longrightarrow> lkey_at st' x = lkey_at st x" and "ys \<noteq> []"
    and new: "\<And>x. x \<in> set (xs @ [c]) \<Longrightarrow> lkey_at st x \<noteq> lkey_at st' e"
  shows "top_of st' (xs @ c # e # ys) = (top_of st (xs @ c # ys))(lkey_at st' e \<mapsto> fst e)"
    "pmem_of st' (xs @ c # e # ys) = (pmem_of st (xs @ c # ys))(lkey_at st' e \<mapsto> snd e)"
proof -
  have b: "butlast (xs @ c # ys) = (xs @ [c]) @ butlast ys" "butlast (xs @ c # e # ys) = (xs @ [c]) @ e # butlast ys"
    using assms(2) by (simp_all add: butlast_append)
  have mc: "map (\<lambda>c. (lkey_at st' c, f c)) zs = map (\<lambda>c. (lkey_at st c, f c)) zs" if "set zs \<subseteq> set (xs @ c # ys)"
    for f :: "entry \<Rightarrow> nat" and zs
    by (rule map_cong [OF refl]) (use lk that in \<open>simp add: subset_iff del: split_paired_All\<close>)
  have lk1: "map (\<lambda>c. (lkey_at st' c, f c)) (xs @ [c]) = map (\<lambda>c. (lkey_at st c, f c)) (xs @ [c])" for f :: "entry \<Rightarrow> nat"
    by (rule mc) auto
  have lk2: "map (\<lambda>c. (lkey_at st' c, f c)) (butlast ys) = map (\<lambda>c. (lkey_at st c, f c)) (butlast ys)" for f :: "entry \<Rightarrow> nat"
    by (rule mc) (auto dest: in_set_butlastD)
  have "map_of (map (\<lambda>c. (lkey_at st' c, f c)) ((xs @ [c]) @ e # butlast ys)) =
      (map_of (map (\<lambda>c. (lkey_at st c, f c)) ((xs @ [c]) @ butlast ys)))(lkey_at st' e \<mapsto> f e)" for f :: "entry \<Rightarrow> nat"
  proof -
    have "map (\<lambda>c. (lkey_at st' c, f c)) ((xs @ [c]) @ e # butlast ys) =
        map (\<lambda>c. (lkey_at st c, f c)) (xs @ [c]) @ (lkey_at st' e, f e) # map (\<lambda>c. (lkey_at st c, f c)) (butlast ys)"
      by (subst map_append, subst lk1, subst list.map(2), subst lk2) (rule refl)
    moreover have "lkey_at st' e \<notin> fst ` set (map (\<lambda>c. (lkey_at st c, f c)) (xs @ [c]))"
      unfolding set_map image_image fst_conv using new by (metis imageE)
    ultimately show ?thesis by (simp only: map_of_insert_mid map_append [of _ "xs @ [c]" "butlast ys"] not_False_eq_True)
  qed
  then show "top_of st' (xs @ c # e # ys) = (top_of st (xs @ c # ys))(lkey_at st' e \<mapsto> fst e)"
    "pmem_of st' (xs @ c # e # ys) = (pmem_of st (xs @ c # ys))(lkey_at st' e \<mapsto> snd e)"
    by (simp_all only: top_of_def pmem_of_def b)
qed

lemma st_inv_split:
  assumes inv: "st_inv env st (xs @ c # d # ys)"
    and n: "st_ml st (fst c) = Some n" "st_leaf st (snd c) = Some lf" "nd_ok env c n lf (last_opt None xs) d"
      "ml_hkey n = lkey_at st d" "ml_lkey n = lkey_at st c"
    and dn: "st_ml st (fst d) = Some dn" "st_leaf st (snd d) = Some dl"
    and fresh: "fst e \<notin> dom (st_ml st)" "snd e \<notin> dom (st_leaf st)"
    and med: "ml_lkey n < m" "m < ml_hkey n"
    and st': "st_ml st' = (st_ml st)(fst c \<mapsto> N, fst e \<mapsto> E, fst d \<mapsto> dn\<lparr>ml_prev := Some (fst e), ml_lock := w\<rparr>)"
      "st_leaf st' = (st_leaf st)(snd d \<mapsto> dl\<lparr>lf_prev := Some (snd e)\<rparr>, snd c \<mapsto> left, snd e \<mapsto> right)"
      "st_head st' = st_head st" "st_dummyTail st' = st_dummyTail st" "st_bothead st' = st_bothead st"
      "st_top st' = (st_top st)(m \<mapsto> fst e)" "st_topPmem st' = st_topPmem st"
      "st_topPmem st \<noteq> None \<longrightarrow> st_jobs st' = st_jobs st @ [PmemInsert m (snd e)]"
    and w: "lock_free w"
    and N: "nd_ok env c N left (last_opt None xs) e" "ml_lkey N = ml_lkey n" "ml_hkey N = m"
    and E: "nd_ok env e E right (Some c) d" "ml_lkey E = m" "ml_hkey E = ml_hkey n"
  shows "st_inv env st' (xs @ c # e # d # ys) \<and>
    chain_view st' (xs @ c # e # d # ys) x =
      (if ml_lkey n \<le> x \<and> x < ml_hkey n then (if x < m then ml_view N left x else ml_view E right x)
       else chain_view st (xs @ c # d # ys) x)"
proof -
  let ?cs = "xs @ c # d # ys" let ?cs' = "xs @ c # e # d # ys"
  have ch: "chain_ok env st None ?cs" and dist: "distinct (map fst ?cs)" "distinct (map snd ?cs)"
    using inv by (auto simp: st_inv_def)
  have in_dom: "fst x \<in> dom (st_ml st) \<and> snd x \<in> dom (st_leaf st)" if "x \<in> set ?cs" for x
  proof -
    from split_list [OF that] obtain us vs where "?cs = us @ x # vs" by blast
    then show ?thesis using ch chain_ok_head [of env st _ x vs] by (auto simp: chain_ok_append)
  qed
  have ne: "fst e \<noteq> fst x" "snd e \<noteq> snd x" if "x \<in> set ?cs" for x using in_dom [OF that] fresh by auto
  have cd: "fst c \<noteq> fst d" "snd c \<noteq> snd d" using dist by auto
  have same: "same_at st st' x" if "x \<in> set xs \<union> set ys" for x
  proof -
    have "fst x \<noteq> fst c" "snd x \<noteq> snd c" using other_at [OF dist, of x] that by auto
    moreover have "fst x \<noteq> fst d" "snd x \<noteq> snd d"
      using other_at [of "xs @ [c]" d ys x] dist that by auto
    moreover have "fst e \<noteq> fst x" "snd e \<noteq> snd x" using ne [of x] that by auto
    ultimately show ?thesis by (simp add: same_at_def st')
  qed
  have at: "st_ml st' (fst c) = Some N" "st_leaf st' (snd c) = Some left" "st_ml st' (fst e) = Some E"
    "st_leaf st' (snd e) = Some right" "st_ml st' (fst d) = Some (dn\<lparr>ml_prev := Some (fst e), ml_lock := w\<rparr>)"
    "st_leaf st' (snd d) = Some (dl\<lparr>lf_prev := Some (snd e)\<rparr>)"
    using cd ne [of c] ne [of d] by (auto simp: st')
  have lk: "lkey_at st' x = lkey_at st x" if x: "x \<in> set ?cs" for x
  proof -
    consider "x \<in> set xs \<union> set ys" | "x = c" | "x = d" using x by auto
    then show ?thesis
    proof cases
      case 1 then show ?thesis by (intro lkey_same same)
    next
      case 2 then show ?thesis by (simp add: lkey_at_def at(1) N(2) n(1))
    next
      case 3 then show ?thesis by (simp add: lkey_at_def at(5) dn(1))
    qed
  qed
  have le: "lkey_at st' e = m" by (simp add: lkey_at_def at(3) E(2))
  have parts: "pre_ok env st None xs c" "chain_ok env st (Some c) (d # ys)"
    using ch by (auto simp: chain_ok_append)
  have tail': "chain_ok env st' (Some e) (d # ys)"
    by (rule chain_ok_relink [OF parts(2) _ dn(1,2) _ _ w]) (use same at in auto)
  have "pre_ok env st' None xs c = pre_ok env st None xs c" by (rule pre_ok_frame) (use same lk in auto)
  moreover have "ent_ok env st' (last_opt None xs) c e" "ent_ok env st' (Some c) e d"
    using at N E n lk [of d] le by (auto simp: ent_ok_def)
  ultimately have ch': "chain_ok env st' None ?cs'"
    using parts tail' by (simp add: chain_ok_append)
  have new: "lkey_at st x \<noteq> lkey_at st' e" if "x \<in> set (xs @ [c])" for x
  proof -
    have "lkey_at st x \<le> lkey_at st c"
      using that chain_order(1) [OF ch, of x d] by (auto simp: less_imp_le)
    with med n le show ?thesis by auto
  qed
  have tops: "top_of st' ?cs' = (top_of st ?cs)(m \<mapsto> fst e)" "pmem_of st' ?cs' = (pmem_of st ?cs)(m \<mapsto> snd e)"
    using top_of_split [of xs c "d # ys" st' st e] lk new le by auto
  have pm: "map_option (fold job_apply (st_jobs st')) (st_topPmem st') = Some (pmem_of st' ?cs')" if "st_topPmem st \<noteq> None"
    using inv that st' tops by (auto simp: st_inv_def sp_WaitAllJobs_pmem)
  have hd: "hd ?cs' = hd ?cs" "last ?cs' = last ?cs" by (cases xs; simp)+
  have nes: "fst e \<notin> fst ` set ?cs" "snd e \<notin> snd ` set ?cs" using ne by (metis imageE)+
  have ins: "distinct (us @ y # vs) \<Longrightarrow> z \<notin> set (us @ y # vs) \<Longrightarrow> distinct (us @ y # z # vs)" for us vs :: "nat list" and y z
    by auto
  have dist': "distinct (map fst ?cs')" "distinct (map snd ?cs')"
    using ins [of "map fst xs" "fst c" "map fst (d # ys)" "fst e"] ins [of "map snd xs" "snd c" "map snd (d # ys)" "snd e"]
      dist nes by (simp_all only: map_append list.map set_append list.set set_map image_Un image_insert simp_thms True_implies_equals)
  have "lkey_at st' (hd ?cs) = lkey_at st (hd ?cs)" by (rule lk) (cases xs, auto)
  then have hk: "lkey_at st' (hd ?cs') = kSPTreeMinKey" using inv hd(1) by (simp only: st_inv_def)
  have len: "1 < length ?cs'" by simp
  have inv': "st_inv env st' ?cs'"
    unfolding st_inv_def sp_WaitAllJobs_pmem
  proof (intro conjI)
    show "st_head st' = fst (hd ?cs')" "st_dummyTail st' = fst (last ?cs')" "st_bothead st' = snd (hd ?cs')"
      using inv st'(3-5) hd by (simp_all only: st_inv_def)
    show "st_top st' = top_of st' ?cs'" using inv st'(6) tops by (simp only: st_inv_def)
    show "st_topPmem st' \<noteq> None \<longrightarrow> map_option (fold job_apply (st_jobs st')) (st_topPmem st') = Some (pmem_of st' ?cs')"
      using pm st'(7) by simp
  qed (rule ch' dist' hk len)+
  have "chain_view st' ?cs' x =
      (if ml_lkey n \<le> x \<and> x < ml_hkey n then (if x < m then ml_view N left x else ml_view E right x) else chain_view st ?cs x)"
  proof -
    consider "x < ml_lkey n" | "ml_lkey n \<le> x" "x < m" | "m \<le> x" "x < ml_hkey n" | "ml_hkey n \<le> x" by fastforce
    then show ?thesis
    proof cases
      case 1
      have "chain_view st' ?cs' x = chain_view st ?cs x"
        by (rule chain_view_low_part [OF ch ch']) (use 1 n(5) lk same in auto)
      with 1 show ?thesis by (auto dest: leD)
    next
      case 2
      have "chain_view st' ?cs' x = nd_view st' c x"
        by (rule chain_view_at [OF ch']) (use 2 n lk le in auto)
      moreover have "x < ml_hkey n" using 2 med by simp
      ultimately show ?thesis using 2 by (simp add: nd_view_def at)
    next
      case 3
      have "chain_view st' ((xs @ [c]) @ e # d # ys) x = nd_view st' e x"
        by (rule chain_view_at [where p = None and env = env]) (use ch' 3 n lk le in auto)
      moreover have "ml_lkey n \<le> x" "\<not> x < m" using 3 med by auto
      ultimately show ?thesis using 3 by (simp add: nd_view_def at)
    next
      case 4
      have a: "chain_view st ((xs @ [c]) @ d # ys) x = chain_view st (d # ys) x"
        by (rule chain_view_append [where p = None and env = env]) (use ch 4 n in auto)
      have b: "chain_view st' ((xs @ [c, e]) @ d # ys) x = chain_view st' (d # ys) x"
        by (rule chain_view_append [where p = None and env = env]) (use ch' 4 n lk in auto)
      have "nd_view st' d = nd_view st d" by (simp add: nd_view_def at dn ml_view_def)
      then have "chain_view st' (d # ys) = chain_view st (d # ys)"
        using same by (intro chain_view_relink [OF parts(2)]) auto
      with a b 4 show ?thesis by (auto dest: leD)
    qed
  qed
  with inv' show ?thesis by blast
qed


text \<open>The run of \<open>SplitMLNodeAndUnlock\<close>, with the node already locked.\<close>

definition sp_split_left :: "mlnode \<Rightarrow> sp_alloc \<Rightarrow> u64 \<Rightarrow> bloom \<Rightarrow> mlnode" where
  "sp_split_left n al med bl = n\<lparr>ml_bloom := bl, ml_isDisabled := False,
     ml_next := Some (al_ml al), ml_hkey := med, ml_lock := rvl_writeUnlock (ml_lock n)\<rparr>"

definition sp_split_right :: "bool \<Rightarrow> nat \<Rightarrow> mlnode \<Rightarrow> sp_alloc \<Rightarrow> u64 \<Rightarrow> bloom \<Rightarrow> mlnode" where
  "sp_split_right wb m n al med br = (ml_new wb (al_rawbloom al) (al_rawbuf al))\<lparr>ml_bloom := br, ml_isDisabled := False,
     ml_lkey := med, ml_hkey := ml_hkey n, ml_prev := Some m, ml_next := ml_next n, ml_leafNode := Some (al_leaf al)\<rparr>"

lemma sp_split_run:
  assumes n: "st_ml st m = Some n" "ml_next n = Some d" "ml_leafNode n = Some l"
    and dn: "st_ml st d = Some dn" "lock_free (ml_lock dn)" and ne: "m \<noteq> d" "al_ml al \<noteq> m" "al_ml al \<noteq> d"
    and split: "lf_Split env recs (al_leaf al) (al_rawleaf al) (ml_bloom n) (al_rawbloom al) l (st_leaf st) =
      Some ((al_leaf al, med), bl, br, leaves)"
  shows "\<exists>st'. sp_SplitMLNodeAndUnlock env al m recs st = Some st' \<and>
    st_ml st' = (st_ml st)(m \<mapsto> sp_split_left n al med bl, al_ml al \<mapsto> sp_split_right (st_enableWriteBuffer st) m n al med br,
      d \<mapsto> dn\<lparr>ml_prev := Some (al_ml al), ml_lock := ml_lock dn + 4\<rparr>) \<and>
    st_leaf st' = leaves \<and> st_head st' = st_head st \<and> st_dummyTail st' = st_dummyTail st \<and> st_bothead st' = st_bothead st \<and>
    st_top st' = (st_top st)(med \<mapsto> al_ml al) \<and> st_topPmem st' = st_topPmem st \<and>
    (st_topPmem st \<noteq> None \<longrightarrow> st_jobs st' = st_jobs st @ [PmemInsert med (al_leaf al)]) \<and>
    st_enableWriteBuffer st' = st_enableWriteBuffer st"
proof -
  have w: "rvl_writeLockOrRestart False (ml_lock dn) = (False, ml_lock dn + 2)"
    using dn(2) by (simp add: rvl_writeLockOrRestart_def rvl_readLockOrRestart_def rvl_upgradeToWriteLockOrRestart_def lock_free_def)
  have new: "ml_bloom (ml_new b rb rw) = rb" for b rb rw by (simp add: ml_new_def)
  show ?thesis
    using n dn ne split
    by (simp add: sp_SplitMLNodeAndUnlock_def w new Let_def ml_EnableBloomFilter_def sp_submit_def pmem_Exist_def
        top_insert_def sp_split_left_def sp_split_right_def rvl_unlock_add fun_upd_twist)
qed


definition alloc_ok :: "sptree \<Rightarrow> sp_alloc \<Rightarrow> bool" where
  "alloc_ok st al \<longleftrightarrow> al_ml al \<notin> dom (st_ml st) \<and> al_leaf al \<notin> dom (st_leaf st) \<and> lf_shape (al_rawleaf al) \<and>
     length (nb_tags (al_rawbuf al)) = 16 \<and> length (nb_slots (al_rawbuf al)) = 14"

lemma ml_reset_new:
  "length (nb_tags raw) = 16 \<Longrightarrow> length (nb_slots raw) = 14 \<Longrightarrow> nb_inv env (nb_Reset raw) \<and> nb_view (nb_Reset raw) = Map.empty"
  using nb_inv_new [of "nb_tags raw" "nb_slots raw" env] by (cases raw) (simp add: nb_Reset_def)

lemma sp_split_right_ok:
  assumes post: "lf_split_post env recs l (al_leaf al) lf m bl br left right" and R: "lf_inv env right"
    and al: "alloc_ok st al" and n: "ml_next n = Some (fst d)" "lf_next lf = Some (snd d)" "ml_hkey n = lf_hkey lf" "m < ml_hkey n"
    and rng: "dom (lf_view lf) \<subseteq> {ml_lkey n ..< ml_hkey n}" "fst ` set recs \<subseteq> {ml_lkey n ..< ml_hkey n}"
  shows "nd_ok env (al_ml al, al_leaf al) (sp_split_right wb c n al m br) right (Some (c, l)) d \<and>
    ml_view (sp_split_right wb c n al m br) right = lf_view right"
proof -
  let ?E = "sp_split_right wb c n al m br"
  have view: "lf_view right = (\<lambda>k. if m \<le> k then (map_of recs ++ lf_view lf) k else None)"
    using post by (simp add: lf_split_post_def)
  have E: "ml_view ?E right = lf_view right" "buf_ok env ?E"
    using al ml_reset_new [of "al_rawbuf al" env]
    by (auto simp: ml_view_def buf_ok_def sp_split_right_def ml_new_def alloc_ok_def)
  have dom: "dom (lf_view right) \<subseteq> {m ..< ml_hkey n}"
  proof
    fix k assume "k \<in> dom (lf_view right)"
    then have "m \<le> k" "(map_of recs ++ lf_view lf) k \<noteq> None" unfolding view by (auto split: if_splits)
    then have "m \<le> k" "k \<in> fst ` set recs \<union> dom (lf_view lf)"
      by (auto simp: map_add_def dom_map_of_conv_image_fst [symmetric] split: option.splits)
    with rng show "k \<in> {m ..< ml_hkey n}" by auto
  qed
  have F: "ml_lkey ?E = m" "ml_hkey ?E = ml_hkey n" "ml_bloom ?E = br" "ml_prev ?E = Some c" "ml_next ?E = ml_next n"
    "ml_leafNode ?E = Some (al_leaf al)" "lock_free (ml_lock ?E)"
    by (simp_all add: sp_split_right_def ml_new_def lock_free_def rvl_init_def rvl_isLocked_def rvl_isObsolete_def)
  have P: "lf_lkey right = m" "lf_hkey right = lf_hkey lf" "lf_prev right = Some l" "lf_next right = lf_next lf"
    "bf_covers env br (dom (lf_view right))"
    using post unfolding lf_split_post_def by blast+
  show ?thesis using F P E R n dom by (simp add: nd_ok_def data_ok_def)
qed

lemma sp_split_left_ok:
  assumes post: "lf_split_post env recs (snd c) (al_leaf al) lf m bl br left right" and c: "nd_ok env c n lf p d"
    and f: "f = (if ml_type n = MLNodeTypeWithBuffer then ml_resetBuffer else id)"
    and m: "ml_lkey n < m" and rng: "fst ` set recs \<subseteq> {ml_lkey n ..< ml_hkey n}"
  shows "nd_ok env c (f (sp_split_left (n\<lparr>ml_lock := ml_lock n + 2\<rparr>) al m bl)) left p (al_ml al, al_leaf al) \<and>
    ml_view (f (sp_split_left (n\<lparr>ml_lock := ml_lock n + 2\<rparr>) al m bl)) left = lf_view left"
proof -
  let ?N = "f (sp_split_left (n\<lparr>ml_lock := ml_lock n + 2\<rparr>) al m bl)"
  have data: "data_ok env n lf" and free: "lock_free (ml_lock n)" using c by (auto simp: nd_ok_def)
  have view: "lf_view left = (\<lambda>k. if k < m then (lf_view lf ++ map_of recs) k else None)"
    using post by (simp add: lf_split_post_def)
  have N: "ml_view ?N left = lf_view left" "buf_ok env ?N"
    using data nb_Reset_inv [of env "ml_writeBuffer n"]
    by (auto simp: f ml_view_def data_ok_def buf_ok_def sp_split_left_def ml_resetBuffer_def)
  have "dom (lf_view lf) \<subseteq> {ml_lkey n ..< ml_hkey n}"
    using data by (force simp: data_ok_def ml_view_def)
  then have both: "fst ` set recs \<union> dom (lf_view lf) \<subseteq> {ml_lkey n ..< ml_hkey n}" using rng by blast
  have dom: "dom (lf_view left) \<subseteq> {ml_lkey n ..< m}"
  proof
    fix k assume "k \<in> dom (lf_view left)"
    then have "k < m" "(lf_view lf ++ map_of recs) k \<noteq> None" unfolding view by (auto split: if_splits)
    then have "k < m" "k \<in> fst ` set recs \<union> dom (lf_view lf)"
      by (auto simp: map_add_def dom_map_of_conv_image_fst [symmetric] split: option.splits)
    with both show "k \<in> {ml_lkey n ..< m}" by auto
  qed
  have F: "ml_lkey ?N = ml_lkey n" "ml_hkey ?N = m" "ml_bloom ?N = bl" "ml_prev ?N = ml_prev n" "ml_next ?N = Some (al_ml al)"
    "ml_leafNode ?N = ml_leafNode n" "ml_lock ?N = ml_lock n + 4"
    by (simp_all add: f sp_split_left_def ml_resetBuffer_def rvl_unlock_add)
  have P: "lf_lkey left = lf_lkey lf" "lf_hkey left = m" "lf_prev left = lf_prev lf" "lf_next left = Some (al_leaf al)"
    "bf_covers env bl (dom (lf_view left))" "lf_inv env left"
    using post unfolding lf_split_post_def by blast+
  show ?thesis using F P N c data dom m lock_free_add_4 [OF free] by (simp add: nd_ok_def data_ok_def)
qed


definition sp_median :: "leaf \<Rightarrow> u64" where
  "sp_median lf = fst (lf_split_sorted lf ! (lf_Count lf div 2))"

lemma map_add_disjoint:
  "\<forall>k \<in> fst ` set recs. m \<le> k \<longrightarrow> V k = None \<Longrightarrow> m \<le> x \<Longrightarrow> (map_of recs ++ V) x = (V ++ map_of recs) x"
  by (cases "map_of recs x"; cases "V x") (auto simp: map_add_def dest!: map_of_SomeD)

lemma sp_split_ok:
  assumes inv: "st_inv env st (xs @ c # d # ys)"
    and n: "st_ml st (fst c) = Some n" "st_leaf st (snd c) = Some lf" "nd_ok env c n lf (last_opt None xs) d"
      "ml_hkey n = lkey_at st d" "ml_lkey n = lkey_at st c"
    and al: "alloc_ok st al"
    and recs: "distinct (map fst recs)" "fst ` set recs \<subseteq> {ml_lkey n ..< ml_hkey n}"
      "lf_Count lf - lf_Count lf div 2 + length recs \<le> 64" "1 < lf_Count lf"
      "\<forall>k \<in> fst ` set recs. sp_median lf \<le> k \<longrightarrow> lf_view lf k = None"
    and f: "f = (if ml_type n = MLNodeTypeWithBuffer then ml_resetBuffer else id)"
    and st1: "st1 = st\<lparr>st_ml := (st_ml st)(fst c \<mapsto> n\<lparr>ml_lock := ml_lock n + 2\<rparr>)\<rparr>"
  shows "\<exists>st2 st'. sp_SplitMLNodeAndUnlock env al (fst c) recs st1 = Some st2 \<and> sp_with_node (fst c) f st2 = Some st' \<and>
    st_inv env st' (xs @ c # (al_ml al, al_leaf al) # d # ys) \<and>
    chain_view st' (xs @ c # (al_ml al, al_leaf al) # d # ys) =
      (\<lambda>x. if ml_lkey n \<le> x \<and> x < ml_hkey n then (lf_view lf ++ map_of recs) x else chain_view st (xs @ c # d # ys) x) \<and>
    st_enableWriteBuffer st' = st_enableWriteBuffer st"
proof -
  let ?e = "(al_ml al, al_leaf al)" let ?m = "sp_median lf" let ?n1 = "n\<lparr>ml_lock := ml_lock n + 2\<rparr>"
  have ch: "chain_ok env st None (xs @ c # d # ys)" using inv by (simp add: st_inv_def)
  then have "chain_ok env st (Some c) (d # ys)" by (simp add: chain_ok_append)
  from chain_ok_head [OF this] obtain dn dl where dn: "st_ml st (fst d) = Some dn" "st_leaf st (snd d) = Some dl"
    "lock_free (ml_lock dn)" by blast
  have cd: "fst c \<noteq> fst d" "snd c \<noteq> snd d" using inv by (auto simp: st_inv_def)
  have fresh: "al_ml al \<noteq> fst c" "al_ml al \<noteq> fst d" "al_leaf al \<noteq> snd c" "al_leaf al \<noteq> snd d"
    using al n dn by (auto simp: alloc_ok_def)
  have data: "data_ok env n lf" and links: "ml_next n = Some (fst d)" "ml_leafNode n = Some (snd c)" "lf_next lf = Some (snd d)"
    using n(3) by (auto simp: nd_ok_def)
  then have linv: "lf_inv env lf" and hk: "ml_hkey n = lf_hkey lf" by (auto simp: data_ok_def)
  have rng: "dom (lf_view lf) \<subseteq> {ml_lkey n ..< ml_hkey n}" using data by (force simp: data_ok_def ml_view_def)
  have c0: "0 < lf_Count lf" using recs(4) by simp
  note H = lf_split_halves [OF linv c0, folded sp_median_def]
  obtain q where "q \<in> dom (lf_view lf)" "q < ?m" using H(3) [OF recs(4)] by blast
  then have "ml_lkey n < ?m" using rng by (meson atLeastLessThan_iff le_less_trans subsetD)
  moreover have "?m < ml_hkey n" using H(2) rng by (meson atLeastLessThan_iff subsetD)
  ultimately have med: "ml_lkey n < ?m" "?m < ml_hkey n" .
  have raw: "lf_shape (al_rawleaf al)" using al by (simp add: alloc_ok_def)
  obtain bl br left right where split: "lf_Split env recs (al_leaf al) (al_rawleaf al) (ml_bloom n) (al_rawbloom al) (snd c) (st_leaf st) =
      Some ((al_leaf al, ?m), bl, br, (st_leaf st)(snd d \<mapsto> lf_SetPrev (Some (al_leaf al)) dl, snd c \<mapsto> left, al_leaf al \<mapsto> right))"
    and post: "lf_split_post env recs (snd c) (al_leaf al) lf ?m bl br left right"
    using lf_Split_ok [OF n(2) links(3) dn(2) cd(2) [symmetric] fresh(4) [symmetric] fresh(3) [symmetric] linv raw c0 recs(1,3)]
    unfolding sp_median_def by blast
  obtain st2 where run: "sp_SplitMLNodeAndUnlock env al (fst c) recs st1 = Some st2"
    and st2: "st_ml st2 = (st_ml st1)(fst c \<mapsto> sp_split_left ?n1 al ?m bl,
        al_ml al \<mapsto> sp_split_right (st_enableWriteBuffer st) (fst c) ?n1 al ?m br,
        fst d \<mapsto> dn\<lparr>ml_prev := Some (al_ml al), ml_lock := ml_lock dn + 4\<rparr>)"
      "st_leaf st2 = (st_leaf st)(snd d \<mapsto> lf_SetPrev (Some (al_leaf al)) dl, snd c \<mapsto> left, al_leaf al \<mapsto> right)"
      "st_head st2 = st_head st" "st_dummyTail st2 = st_dummyTail st" "st_bothead st2 = st_bothead st"
      "st_top st2 = (st_top st)(?m \<mapsto> al_ml al)" "st_topPmem st2 = st_topPmem st"
      "st_topPmem st \<noteq> None \<longrightarrow> st_jobs st2 = st_jobs st @ [PmemInsert ?m (al_leaf al)]"
      "st_enableWriteBuffer st2 = st_enableWriteBuffer st"
    using sp_split_run [of st1 "fst c" ?n1 "fst d" "snd c" dn al env recs ?m bl br
      "(st_leaf st)(snd d \<mapsto> lf_SetPrev (Some (al_leaf al)) dl, snd c \<mapsto> left, al_leaf al \<mapsto> right)"]
      links dn cd fresh split by (auto simp: st1)
  define N where "N = f (sp_split_left ?n1 al ?m bl)"
  define st' where "st' = st2\<lparr>st_ml := (st_ml st2)(fst c \<mapsto> N)\<rparr>"
  have at: "st_ml st2 (fst c) = Some (sp_split_left ?n1 al ?m bl)" using cd fresh by (simp add: st2)
  have run': "sp_with_node (fst c) f st2 = Some st'" using at by (simp add: sp_with_node_def st'_def N_def)
  have ml': "st_ml st' = (st_ml st)(fst c \<mapsto> N, al_ml al \<mapsto> sp_split_right (st_enableWriteBuffer st) (fst c) ?n1 al ?m br,
      fst d \<mapsto> dn\<lparr>ml_prev := Some (al_ml al), ml_lock := ml_lock dn + 4\<rparr>)"
    using cd fresh by (auto simp: st'_def st2 st1)
  have leaf': "st_leaf st' = (st_leaf st)(snd d \<mapsto> dl\<lparr>lf_prev := Some (al_leaf al)\<rparr>, snd c \<mapsto> left, al_leaf al \<mapsto> right)"
    by (simp add: st'_def st2 lf_SetPrev_def)
  have same_right: "sp_split_right wb m ?n1 al med br = sp_split_right wb m n al med br" for wb m med br
    by (simp add: sp_split_right_def)
  note L = sp_split_left_ok [OF post n(3) f med(1) recs(2)]
  have "lf_inv env right" using post recs(5) unfolding lf_split_post_def by blast
  note R = sp_split_right_ok [OF post this al links(1,3) hk med(2) rng recs(2), of "st_enableWriteBuffer st" "fst c"]
  have keys: "ml_lkey N = ml_lkey n" "ml_hkey N = ?m"
    by (simp_all add: N_def f sp_split_left_def ml_resetBuffer_def)
  have keysR: "ml_lkey (sp_split_right wb m n al med br) = med" "ml_hkey (sp_split_right wb m n al med br) = ml_hkey n" for wb m med br
    by (simp_all add: sp_split_right_def)
  let ?E = "sp_split_right (st_enableWriteBuffer st) (fst c) n al ?m br"
  have "st_inv env st' (xs @ c # ?e # d # ys) \<and> chain_view st' (xs @ c # ?e # d # ys) x =
      (if ml_lkey n \<le> x \<and> x < ml_hkey n then (if x < ?m then ml_view N left x else ml_view ?E right x)
       else chain_view st (xs @ c # d # ys) x)" for x
  proof (rule st_inv_split [OF inv n dn(1,2) _ _ med])
    show "fst ?e \<notin> dom (st_ml st)" "snd ?e \<notin> dom (st_leaf st)" using al by (simp_all add: alloc_ok_def)
    show "st_ml st' = (st_ml st)(fst c \<mapsto> N, fst ?e \<mapsto> ?E, fst d \<mapsto> dn\<lparr>ml_prev := Some (fst ?e), ml_lock := ml_lock dn + 4\<rparr>)"
      using ml' same_right by simp
    show "st_leaf st' = (st_leaf st)(snd d \<mapsto> dl\<lparr>lf_prev := Some (snd ?e)\<rparr>, snd c \<mapsto> left, snd ?e \<mapsto> right)"
      using leaf' by simp
    show "lock_free (ml_lock dn + 4)" by (rule lock_free_add_4 [OF dn(3)])
    show "nd_ok env c N left (last_opt None xs) ?e" using L by (simp add: N_def)
    show "nd_ok env ?e ?E right (Some c) d" using R by simp
  qed (use st2 keys keysR in \<open>simp_all add: st'_def\<close>)
  moreover have "(if x < ?m then ml_view N left x else ml_view ?E right x) = (lf_view lf ++ map_of recs) x" for x
    using L R post map_add_disjoint [OF recs(5), of x] by (cases "x < ?m") (simp_all add: N_def lf_split_post_def not_less)
  ultimately have "st_inv env st' (xs @ c # ?e # d # ys)"
    "chain_view st' (xs @ c # ?e # d # ys) =
      (\<lambda>x. if ml_lkey n \<le> x \<and> x < ml_hkey n then (lf_view lf ++ map_of recs) x else chain_view st (xs @ c # d # ys) x)"
    by (auto simp: fun_eq_iff)
  moreover have "st_enableWriteBuffer st' = st_enableWriteBuffer st" by (simp add: st'_def st2)
  ultimately show ?thesis using run run' by blast
qed

end
