(* ===== verification/SPTreeInsert.thy ===== *)
theory SPTreeInsert
  imports SPTreeOps
begin

text \<open>
  Insertion into the SPTree on every path: into the leaf, into the write buffer, with a flush of the buffer into
  the leaf, and with a split of the leaf.
\<close>

section \<open>The records of a write buffer\<close>

lemma nb_bit_valid: "nb_inv env n \<Longrightarrow> bit (nb_ValidBitSet n) i \<longleftrightarrow> nb_live n i"
  using nb_invD(3) [of env n i] by (auto simp: nb_ValidBitSet_def bitset_simps nb_live_def)

lemma nb_walk_valid: "nb_inv env n \<Longrightarrow> set (nbs_walk (nb_ValidBitSet n)) = {i. nb_live n i}"
  using nb_bit_valid [of env n] by (auto simp: nbs.walk_bits_of nb_live_def)

lemma nb_bits: "nb_inv env n \<Longrightarrow> bits_of (nb_ValidBitSet n) = filter (nb_live n) [0..<64]"
  unfolding bits_of_def using nb_bit_valid [of env n] by (auto intro!: filter_cong)

lemma nb_records_map_of:
  assumes inv: "nb_inv env n"
  shows "map_of (nb_records n) = nb_view n"
proof -
  have "find (\<lambda>i. nb_key n i = k) (bits_of (nb_ValidBitSet n)) = slot_find 14 (nb_live n) (nb_key n) k" for k
    unfolding nb_bits [OF inv] find_filter slot_find_def
    by (rule find_upt_prefix) (auto simp: nb_live_def)
  then show ?thesis
    by (simp add: nb_records_def nbs.walk_bits_of fun_eq_iff map_of_find nb_view_def slot_view_def)
qed

lemma nb_records_distinct:
  assumes inv: "nb_inv env n"
  shows "distinct (map fst (nb_records n))"
proof -
  have "inj_on (nb_key n) {i. nb_live n i}"
    using nb_invD(4) [OF inv] by (auto intro!: inj_onI simp: slots_distinct_def nb_live_def)
  then have "inj_on (nb_key n) (set (nbs_walk (nb_ValidBitSet n)))" by (simp add: nb_walk_valid [OF inv])
  then show ?thesis by (simp add: nb_records_def comp_def distinct_map nbs.walk_bits_of)
qed

lemma nb_records_length:
  assumes inv: "nb_inv env n"
  shows "length (nb_records n) = nb_Count n" "nb_Count n \<le> 14"
proof -
  have "length (bits_of (nb_ValidBitSet n)) = popcount (nb_valid n)"
  proof -
    have "set (bits_of (nb_ValidBitSet n)) = {i. bit (nb_valid n) i}"
      using nb_bit_valid [OF inv] nb_invD(3) [OF inv] nb_walk_valid [OF inv]
      by (auto simp: nbs.walk_bits_of nb_live_def)
    moreover have "distinct (bits_of (nb_ValidBitSet n))" by (simp add: bits_of_def)
    ultimately show ?thesis by (metis distinct_card popcount_card)
  qed
  then show "length (nb_records n) = nb_Count n" by (simp add: nb_records_def nbs.walk_bits_of nb_Count_def)
  have "{i. bit (nb_valid n) i} \<subseteq> {..<14}" using nb_invD(3) [OF inv] by auto
  then have "card {i. bit (nb_valid n) i} \<le> card {..<14::nat}" by (intro card_mono) auto
  then show "nb_Count n \<le> 14" by (simp add: nb_Count_def popcount_card)
qed

lemma nb_records_keys: "nb_inv env n \<Longrightarrow> fst ` set (nb_records n) = dom (nb_view n)"
  by (simp add: nb_records_map_of [symmetric] dom_map_of_conv_image_fst)

section \<open>Flushing\<close>

definition sp_pending :: "nodebuf \<Rightarrow> u64 \<Rightarrow> u64 \<Rightarrow> (u64 \<times> u64) list" where
  "sp_pending buffer key val = nb_records buffer @ (if key \<noteq> kKeyEmpty then [(key, val)] else [])"

lemma sp_flush_leaf_place:
  assumes "fold (lf_place env) (sp_pending b key val) (lf, lf_EmptyBitSet lf, 0) = (n, E, V)"
  shows "sp_flush_leaf env b key val lf = lf_or V n"
  using assms
  by (auto simp: sp_flush_leaf_def sp_pending_def lf_place_def lf_or_def Let_def split: prod.splits if_splits)

lemma sp_flush_leaf_ok:
  assumes inv: "lf_inv env lf" and b: "nb_inv env b" and new: "key \<noteq> kKeyEmpty \<longrightarrow> nb_view b key = None"
    and fits: "lf_Count lf + nb_Count b \<le> 63"
  shows "lf_inv env (sp_flush_leaf env b key val lf) \<and>
    lf_view (sp_flush_leaf env b key val lf) = lf_view lf ++ map_of (sp_pending b key val) \<and>
    lf_prev (sp_flush_leaf env b key val lf) = lf_prev lf \<and> lf_next (sp_flush_leaf env b key val lf) = lf_next lf \<and>
    lf_lkey (sp_flush_leaf env b key val lf) = lf_lkey lf \<and> lf_hkey (sp_flush_leaf env b key val lf) = lf_hkey lf"
proof -
  let ?rs = "sp_pending b key val"
  obtain n E V where run: "fold (lf_place env) ?rs (lf, lf_EmptyBitSet lf, 0) = (n, E, V)"
    by (cases "fold (lf_place env) ?rs (lf, lf_EmptyBitSet lf, 0)")
  have "key \<noteq> kKeyEmpty \<Longrightarrow> key \<notin> fst ` set (nb_records b)" using new nb_records_keys [OF b] by auto
  then have d: "distinct (map fst ?rs)"
    using nb_records_distinct [OF b] by (auto simp: sp_pending_def)
  have "length ?rs \<le> Suc (nb_Count b)" using nb_records_length [OF b] by (simp add: sp_pending_def)
  then have len: "length ?rs \<le> popcount (lf_EmptyBitSet lf)"
    using fits unfolding lf_EmptyBitSet_def popcount_not lf_Count_def by linarith
  note st = lf_batch_start [OF inv]
  have "lf_batch env n E V \<and> lf_view (lf_or V n) = lf_view lf ++ map_of ?rs \<and> lf_data_eq lf n"
    using lf_place_fold [OF conjunct1 [OF st] d _ len run] st by simp
  then show ?thesis
    unfolding sp_flush_leaf_place [OF run] using lf_data_eqD [of lf n] by (auto simp: lf_batch_def lf_or_def)
qed


definition put_opt :: "u64 \<Rightarrow> u64 \<Rightarrow> (u64 \<rightharpoonup> u64) \<Rightarrow> u64 \<rightharpoonup> u64" where
  "put_opt key val V = (if key \<noteq> kKeyEmpty then V(key \<mapsto> val) else V)"

lemma sp_pending_view:
  assumes "nb_inv env b" "key \<noteq> kKeyEmpty \<longrightarrow> nb_view b key = None"
  shows "V ++ map_of (sp_pending b key val) = put_opt key val (V ++ nb_view b)"
  using assms(2) nb_records_map_of [OF assms(1)]
  by (auto simp: sp_pending_def put_opt_def fun_eq_iff map_add_def map_of_append split: option.splits)

lemma sp_pending_facts:
  assumes b: "nb_inv env b" and new: "key \<noteq> kKeyEmpty \<longrightarrow> nb_view b key = None"
  shows "distinct (map fst (sp_pending b key val))" "length (sp_pending b key val) \<le> Suc (nb_Count b)"
    "fst ` set (sp_pending b key val) = dom (put_opt key val (nb_view b))"
proof -
  have "key \<noteq> kKeyEmpty \<Longrightarrow> key \<notin> fst ` set (nb_records b)" using new nb_records_keys [OF b] by auto
  then show "distinct (map fst (sp_pending b key val))"
    using nb_records_distinct [OF b] by (auto simp: sp_pending_def)
  show "length (sp_pending b key val) \<le> Suc (nb_Count b)" using nb_records_length [OF b] by (simp add: sp_pending_def)
  show "fst ` set (sp_pending b key val) = dom (put_opt key val (nb_view b))"
    using nb_records_keys [OF b] by (auto simp: sp_pending_def put_opt_def image_Un)
qed

text \<open>
  The flush or the split of the locked node \<open>c\<close>. When the leaf is split, a pending record that goes to the new
  leaf must not have an older copy there.
\<close>

definition split_clear :: "mlnode \<Rightarrow> leaf \<Rightarrow> u64 \<Rightarrow> bool" where
  "split_clear n lf key \<longleftrightarrow> 63 < ml_recordCount n + lf_Count lf \<longrightarrow>
     (\<forall>k \<in> insert key (dom (nb_view (ml_writeBuffer n))). sp_median lf \<le> k \<longrightarrow> lf_view lf k = None)"

lemma sp_with_node_at: "st_ml st m = Some n \<Longrightarrow> sp_with_node m f st = Some (st\<lparr>st_ml := (st_ml st)(m \<mapsto> f n)\<rparr>)"
  by (simp add: sp_with_node_def)

lemma sp_flush_ok:
  assumes inv: "st_inv env st (xs @ c # d # ys)"
    and n: "st_ml st (fst c) = Some n" "st_leaf st (snd c) = Some lf" "nd_ok env c n lf (last_opt None xs) d"
      "ml_hkey n = lkey_at st d" "ml_lkey n = lkey_at st c"
    and t: "ml_type n = MLNodeTypeWithBuffer"
    and key: "key \<noteq> kKeyEmpty \<Longrightarrow> ml_lkey n \<le> key \<and> key < ml_hkey n \<and> nb_view (ml_writeBuffer n) key = None"
    and fits: "ml_recordCount n + lf_Count lf \<le> 63"
    and st1: "st1 = st\<lparr>st_ml := (st_ml st)(fst c \<mapsto> n\<lparr>ml_lock := ml_lock n + 2\<rparr>)\<rparr>"
  shows "\<exists>st'. sp_FlushOrSplitAndUnlock env al (fst c) key val st1 = Some st' \<and> st_inv env st' (xs @ c # d # ys) \<and>
    chain_view st' (xs @ c # d # ys) = put_opt key val (chain_view st (xs @ c # d # ys)) \<and>
    st_enableWriteBuffer st' = st_enableWriteBuffer st"
proof -
  let ?cs = "xs @ c # d # ys" let ?n1 = "n\<lparr>ml_lock := ml_lock n + 2\<rparr>" let ?b = "ml_writeBuffer n"
  have ok: "data_ok env n lf" and leaf: "ml_leafNode n = Some (snd c)" and free: "lock_free (ml_lock n)"
    using n(3) by (auto simp: nd_ok_def)
  then have b: "nb_inv env ?b" and linv: "lf_inv env lf" using t by (auto simp: data_ok_def buf_ok_def)
  define lf' where "lf' = sp_flush_leaf env ?b key val lf"
  define n' where "n' = (ml_resetBuffer (ml_SetBloomFilter env key ?n1))\<lparr>ml_lock := ml_lock n + 4\<rparr>"
  define st' where "st' = st\<lparr>st_ml := (st_ml st)(fst c \<mapsto> n'), st_leaf := (st_leaf st)(snd c \<mapsto> lf')\<rparr>"
  have new: "key \<noteq> kKeyEmpty \<longrightarrow> nb_view ?b key = None" using key by simp
  have "lf_Count lf + nb_Count ?b \<le> 63" using fits by (simp add: ml_recordCount_def)
  from sp_flush_leaf_ok [OF linv b new this, of val]
  have L: "lf_inv env lf'" "lf_view lf' = put_opt key val (lf_view lf ++ nb_view ?b)"
    "lf_prev lf' = lf_prev lf" "lf_next lf' = lf_next lf" "lf_lkey lf' = lf_lkey lf" "lf_hkey lf' = lf_hkey lf"
    by (simp_all add: lf'_def sp_pending_view [OF b new])
  have lockeq: "ml_lock (ml_SetBloomFilter env key x) = ml_lock x" for x by (simp add: ml_SetBloomFilter_def)
  have run: "sp_FlushOrSplitAndUnlock env al (fst c) key val st1 = Some st'"
    using n leaf fits
    by (simp add: sp_FlushOrSplitAndUnlock_def st1 ml_recordCount_def kLeafNodeCapacity_def sp_FlushMLNodeBuffer_def
        sp_writeUnlock_def sp_with_node_at st'_def n'_def lf'_def ml_resetBuffer_def lockeq rvl_unlock_add)
  have flds: "ml_lkey n' = ml_lkey n" "ml_hkey n' = ml_hkey n" "ml_type n' = ml_type n" "ml_isDisabled n' = ml_isDisabled n"
    "ml_writeBuffer n' = nb_Reset ?b" "ml_leafNode n' = ml_leafNode n" "ml_prev n' = ml_prev n" "ml_next n' = ml_next n"
    "ml_lock n' = ml_lock n + 4" "\<not> ml_isDisabled n \<Longrightarrow> ml_bloom n' = bf_set env key (ml_bloom n)"
    by (auto simp: n'_def ml_resetBuffer_def ml_SetBloomFilter_def)
  note R = nb_Reset_inv [OF b]
  have view: "ml_view n' lf' = put_opt key val (ml_view n lf)"
    using R L(2) by (simp add: ml_view_def flds t put_opt_def)
  have buf: "buf_ok env n'" using R by (simp add: buf_ok_def flds t)
  have ok': "data_ok env n' lf'"
  proof (cases "key = kKeyEmpty")
    case True
    have "bf_covers env (bf_set env key (ml_bloom n)) (dom (ml_view n lf))" if "\<not> ml_isDisabled n"
      using ok that bf_covers_set bf_covers_mono by (metis data_ok_def subset_insertI)
    with True ok L view buf flds show ?thesis by (auto simp: data_ok_def put_opt_def)
  next
    case False
    have kr: "ml_lkey n \<le> key" "key < ml_hkey n" using key False by auto
    show ?thesis
      by (rule data_ok_put [OF ok kr]) (use L view buf flds False in \<open>simp_all add: put_opt_def\<close>)
  qed
  have "st_inv env st' ?cs \<and> chain_view st' ?cs x = (if ml_lkey n \<le> x \<and> x < ml_hkey n then ml_view n' lf' x else chain_view st ?cs x)" for x
    by (rule st_inv_replace [OF inv n])
      (use L flds ok' lock_free_add_4 [OF free] in \<open>simp_all add: st'_def same_top_def same_links_def\<close>)
  moreover have "chain_view st ?cs x = ml_view n lf x" if "ml_lkey n \<le> x" "x < ml_hkey n" for x
    by (rule st_view_at) (use inv n that in auto)
  ultimately have "st_inv env st' ?cs" "chain_view st' ?cs = put_opt key val (chain_view st ?cs)"
    using key view by (auto simp: fun_eq_iff put_opt_def)
  with run show ?thesis by (intro exI [of _ st']) (simp add: st'_def)
qed


lemma sp_flush_or_split_ok:
  assumes inv: "st_inv env st (xs @ c # d # ys)"
    and n: "st_ml st (fst c) = Some n" "st_leaf st (snd c) = Some lf" "nd_ok env c n lf (last_opt None xs) d"
      "ml_hkey n = lkey_at st d" "ml_lkey n = lkey_at st c"
    and t: "ml_type n = MLNodeTypeWithBuffer"
    and key: "key \<noteq> kKeyEmpty \<Longrightarrow> ml_lkey n \<le> key \<and> key < ml_hkey n \<and> nb_view (ml_writeBuffer n) key = None"
    and al: "alloc_ok st al" and clear: "split_clear n lf key"
    and st1: "st1 = st\<lparr>st_ml := (st_ml st)(fst c \<mapsto> n\<lparr>ml_lock := ml_lock n + 2\<rparr>)\<rparr>"
  shows "\<exists>st' cs'. sp_FlushOrSplitAndUnlock env al (fst c) key val st1 = Some st' \<and> st_inv env st' cs' \<and>
    chain_view st' cs' = put_opt key val (chain_view st (xs @ c # d # ys)) \<and>
    st_enableWriteBuffer st' = st_enableWriteBuffer st"
proof (cases "ml_recordCount n + lf_Count lf \<le> 63")
  case True
  from sp_flush_ok [OF inv n t key True st1, of al val] show ?thesis by blast
next
  case False
  let ?b = "ml_writeBuffer n" let ?rs = "sp_pending ?b key val" let ?cs = "xs @ c # d # ys"
  have ok: "data_ok env n lf" and leaf: "ml_leafNode n = Some (snd c)" using n(3) by (auto simp: nd_ok_def)
  then have b: "nb_inv env ?b" using t by (auto simp: data_ok_def buf_ok_def)
  have new: "key \<noteq> kKeyEmpty \<longrightarrow> nb_view ?b key = None" using key by simp
  note P = sp_pending_facts [OF b new, where val = val]
  have cnt: "nb_Count ?b \<le> 14" "lf_Count lf \<le> 64" "63 < nb_Count ?b + lf_Count lf"
    using nb_records_length(2) [OF b] lf_Count_le False by (auto simp: ml_recordCount_def)
  have "dom (ml_view n lf) \<subseteq> {ml_lkey n ..< ml_hkey n}" using ok unfolding data_ok_def by blast
  moreover have "dom (nb_view ?b) \<subseteq> dom (ml_view n lf)" by (simp add: ml_view_def t)
  ultimately have D: "dom (nb_view ?b) \<subseteq> {ml_lkey n ..< ml_hkey n}" by (rule subset_trans [rotated])
  have "dom (put_opt key val (nb_view ?b)) \<subseteq> {ml_lkey n ..< ml_hkey n}"
  proof (cases "key = kKeyEmpty")
    case True
    with D show ?thesis by (simp add: put_opt_def)
  next
    case False
    with D key show ?thesis by (simp add: put_opt_def)
  qed
  then have rng: "fst ` set ?rs \<subseteq> {ml_lkey n ..< ml_hkey n}" by (simp add: P(3) del: image_subset_iff)
  have cl: "\<forall>k \<in> fst ` set ?rs. sp_median lf \<le> k \<longrightarrow> lf_view lf k = None"
    using clear cnt(3) by (auto simp: P(3) put_opt_def split_clear_def ml_recordCount_def split: if_splits)
  have len: "lf_Count lf - lf_Count lf div 2 + length ?rs \<le> 64" "1 < lf_Count lf" using cnt P(2) by linarith+
  obtain st2 st' where s: "sp_SplitMLNodeAndUnlock env al (fst c) ?rs st1 = Some st2"
      "sp_with_node (fst c) ml_resetBuffer st2 = Some st'" "st_inv env st' (xs @ c # (al_ml al, al_leaf al) # d # ys)"
    and v: "chain_view st' (xs @ c # (al_ml al, al_leaf al) # d # ys) =
        (\<lambda>x. if ml_lkey n \<le> x \<and> x < ml_hkey n then (lf_view lf ++ map_of ?rs) x else chain_view st ?cs x)"
    and e: "st_enableWriteBuffer st' = st_enableWriteBuffer st"
    using sp_split_ok [OF inv n al P(1) rng len cl refl st1] by (auto simp: t)
  have run: "sp_FlushOrSplitAndUnlock env al (fst c) key val st1 = Some st'"
    using s(1,2) n(1,2) leaf False
    by (simp add: sp_FlushOrSplitAndUnlock_def st1 ml_recordCount_def kLeafNodeCapacity_def sp_pending_def)
  have "chain_view st ?cs x = ml_view n lf x" if "ml_lkey n \<le> x" "x < ml_hkey n" for x
    by (rule st_view_at) (use inv n that in auto)
  then have "chain_view st' (xs @ c # (al_ml al, al_leaf al) # d # ys) = put_opt key val (chain_view st ?cs)"
    using key unfolding v sp_pending_view [OF b new] by (auto simp: fun_eq_iff put_opt_def ml_view_def t)
  with run s(3) e show ?thesis by blast
qed

section \<open>Insertion\<close>

definition insert_clear :: "sptree \<Rightarrow> entry list \<Rightarrow> u64 \<Rightarrow> bool" where
  "insert_clear st cs k \<longleftrightarrow> (\<forall>c \<in> set cs. \<forall>n lf. st_ml st (fst c) = Some n \<longrightarrow> st_leaf st (snd c) = Some lf \<longrightarrow>
     ml_type n = MLNodeTypeWithBuffer \<longrightarrow> split_clear n lf k)"

lemma sp_insert_full:
  assumes inv: "st_inv env st cs" and cs: "cs = xs @ c # d # ys"
    and n: "st_ml st (fst c) = Some n" "st_leaf st (snd c) = Some lf" "nd_ok env c n lf (last_opt None xs) d"
      "ml_hkey n = lkey_at st d" "ml_lkey n = lkey_at st c"
    and r: "ml_lkey n \<le> k" "k < ml_hkey n" and j: "sp_jumpToMiddleLayer seek k st = Some (fst c, ml_lock n)"
    and t: "ml_type n = MLNodeTypeNoBuffer" and ins: "lf_Insert env k v lf = ((False, i), lf')" and al: "alloc_ok st al"
  shows "\<exists>st' cs'. sp_insert env seek al k v st = Some (True, st') \<and> st_inv env st' cs' \<and>
    chain_view st' cs' = (chain_view st cs)(k \<mapsto> v) \<and> st_enableWriteBuffer st' = st_enableWriteBuffer st"
proof -
  have ok: "data_ok env n lf" and leaf: "ml_leafNode n = Some (snd c)" using n(3) by (auto simp: nd_ok_def)
  then have "lf_inv env lf" by (simp add: data_ok_def)
  from lf_Insert_ok [OF this ins] have full: "lf_view lf k = None" "lf_Full lf" by auto
  then have cnt: "lf_Count lf = 64" by (simp add: lf_Full_def lf_Count_def)
  let ?st1 = "st\<lparr>st_ml := (st_ml st)(fst c \<mapsto> n\<lparr>ml_lock := ml_lock n + 2\<rparr>)\<rparr>"
  obtain st2 st' where s: "sp_SplitMLNodeAndUnlock env al (fst c) [(k, v)] ?st1 = Some st2"
      "sp_with_node (fst c) id st2 = Some st'" "st_inv env st' (xs @ c # (al_ml al, al_leaf al) # d # ys)"
    and view: "chain_view st' (xs @ c # (al_ml al, al_leaf al) # d # ys) =
        (\<lambda>x. if ml_lkey n \<le> x \<and> x < ml_hkey n then (lf_view lf ++ map_of [(k, v)]) x else chain_view st (xs @ c # d # ys) x)"
    and e: "st_enableWriteBuffer st' = st_enableWriteBuffer st"
    using sp_split_ok [OF inv [unfolded cs] n al, of "[(k, v)]" _ ?st1] r cnt full t by auto
  have "st' = st2" using s(2) by (auto simp: sp_with_node_def bind_eq_Some_conv fun_upd_idem)
  then have run: "sp_insert env seek al k v st = Some (True, st')"
    using j n t ins leaf s(1) by (simp add: sp_insert_def sp_lock_ok)
  have "chain_view st cs x = ml_view n lf x" if "ml_lkey n \<le> x" "x < ml_hkey n" for x
    unfolding cs by (rule st_view_at) (use inv cs n that in auto)
  then have "chain_view st' (xs @ c # (al_ml al, al_leaf al) # d # ys) = (chain_view st cs)(k \<mapsto> v)"
    using r unfolding view cs [symmetric] by (auto simp: fun_eq_iff ml_view_def t)
  with run s(3) e show ?thesis by blast
qed


lemma sp_insert_buffered:
  assumes inv: "st_inv env st cs" and cs: "cs = xs @ c # d # ys"
    and n: "st_ml st (fst c) = Some n" "st_leaf st (snd c) = Some lf" "nd_ok env c n lf (last_opt None xs) d"
      "ml_hkey n = lkey_at st d" "ml_lkey n = lkey_at st c"
    and r: "ml_lkey n \<le> k" "k < ml_hkey n" and j: "sp_jumpToMiddleLayer seek k st = Some (fst c, ml_lock n)"
    and t: "ml_type n = MLNodeTypeWithBuffer" and ins: "nb_insert env k v (ml_writeBuffer n) = (True, b')"
  shows "\<exists>st'. sp_insert env seek al k v st = Some (True, st') \<and> st_inv env st' cs \<and>
    chain_view st' cs = (chain_view st cs)(k \<mapsto> v) \<and> st_enableWriteBuffer st' = st_enableWriteBuffer st"
proof -
  let ?b = "ml_writeBuffer n"
  have ok: "data_ok env n lf" and free: "lock_free (ml_lock n)" using n(3) by (auto simp: nd_ok_def)
  then have b: "nb_inv env ?b" and linv: "lf_inv env lf" using t by (auto simp: data_ok_def buf_ok_def)
  have b': "nb_inv env b'" "nb_view b' = (nb_view ?b)(k \<mapsto> v)" using nb_insert_cases [OF b, of k v] ins by auto
  define n' where "n' = (ml_SetBloomFilter env k (n\<lparr>ml_writeBuffer := b'\<rparr>))\<lparr>ml_lock := ml_lock n + 4\<rparr>"
  define st' where "st' = sp_log kWALNodeInsert k v n (st\<lparr>st_ml := (st_ml st)(fst c \<mapsto> n')\<rparr>)"
  have st'_flds: "st_ml st' = (st_ml st)(fst c \<mapsto> n')" "st_leaf st' = (st_leaf st)(snd c \<mapsto> lf)" "same_top st st'"
    "st_enableWriteBuffer st' = st_enableWriteBuffer st"
    using n(2) by (auto simp: st'_def sp_log_def same_top_def)
  have run: "sp_insert env seek al k v st = Some (True, st')"
    using j n t ins
    by (simp add: sp_insert_def sp_lock_ok ml_insert_def st'_def n'_def sp_log_def sp_writeUnlock_def sp_with_node_at
        rvl_unlock_add ml_SetBloomFilter_def)
  have flds: "ml_lkey n' = ml_lkey n" "ml_hkey n' = ml_hkey n" "ml_type n' = ml_type n" "ml_isDisabled n' = ml_isDisabled n"
    "ml_writeBuffer n' = b'" "ml_leafNode n' = ml_leafNode n" "ml_prev n' = ml_prev n" "ml_next n' = ml_next n"
    "ml_lock n' = ml_lock n + 4" "\<not> ml_isDisabled n \<Longrightarrow> ml_bloom n' = bf_set env k (ml_bloom n)"
    by (auto simp: n'_def ml_SetBloomFilter_def)
  have view: "ml_view n' lf = (ml_view n lf)(k \<mapsto> v)"
    using b' by (simp add: ml_view_def flds t)
  have ok': "data_ok env n' lf"
    by (rule data_ok_put [OF ok r]) (use b' view flds linv t in \<open>simp_all add: buf_ok_def\<close>)
  have "st_inv env st' cs \<and> chain_view st' cs x = (if ml_lkey n \<le> x \<and> x < ml_hkey n then ml_view n' lf x else chain_view st cs x)" for x
    unfolding cs
    by (rule st_inv_replace [OF inv [unfolded cs] n st'_flds(1-3)])
      (use flds ok' lock_free_add_4 [OF free] in \<open>simp_all add: same_links_def\<close>)
  moreover have "chain_view st cs x = ml_view n lf x" if "ml_lkey n \<le> x" "x < ml_hkey n" for x
    unfolding cs by (rule st_view_at) (use inv cs n that in auto)
  ultimately have "st_inv env st' cs" "chain_view st' cs = (chain_view st cs)(k \<mapsto> v)"
    using r view by (auto simp: fun_eq_iff)
  with run st'_flds(4) show ?thesis by blast
qed

lemma sp_insert_overflow:
  assumes inv: "st_inv env st cs" and cs: "cs = xs @ c # d # ys"
    and n: "st_ml st (fst c) = Some n" "st_leaf st (snd c) = Some lf" "nd_ok env c n lf (last_opt None xs) d"
      "ml_hkey n = lkey_at st d" "ml_lkey n = lkey_at st c"
    and r: "ml_lkey n \<le> k" "k < ml_hkey n" "k \<noteq> kKeyEmpty" and j: "sp_jumpToMiddleLayer seek k st = Some (fst c, ml_lock n)"
    and t: "ml_type n = MLNodeTypeWithBuffer" and ins: "nb_insert env k v (ml_writeBuffer n) = (False, b')"
    and al: "alloc_ok st al" and clear: "split_clear n lf k"
  shows "\<exists>st' cs'. sp_insert env seek al k v st = Some (True, st') \<and> st_inv env st' cs' \<and>
    chain_view st' cs' = (chain_view st cs)(k \<mapsto> v) \<and> st_enableWriteBuffer st' = st_enableWriteBuffer st"
proof -
  have ok: "data_ok env n lf" using n(3) by (auto simp: nd_ok_def)
  then have "nb_inv env (ml_writeBuffer n)" using t by (auto simp: data_ok_def buf_ok_def)
  then have b: "b' = ml_writeBuffer n" "nb_view (ml_writeBuffer n) k = None" using nb_insert_cases [of env "ml_writeBuffer n" k v] ins by auto
  let ?st1 = "st\<lparr>st_ml := (st_ml st)(fst c \<mapsto> n\<lparr>ml_lock := ml_lock n + 2\<rparr>)\<rparr>"
  obtain st' cs' where s: "sp_FlushOrSplitAndUnlock env al (fst c) k v ?st1 = Some st'" "st_inv env st' cs'"
    "chain_view st' cs' = put_opt k v (chain_view st cs)" "st_enableWriteBuffer st' = st_enableWriteBuffer st"
    using sp_flush_or_split_ok [OF inv [unfolded cs] n t _ al clear refl, of v] r b(2) unfolding cs by auto
  then have "sp_insert env seek al k v st = Some (True, st')"
    using j n t ins b(1) by (simp add: sp_insert_def sp_lock_ok ml_insert_def)
  with s r(3) show ?thesis by (auto simp: put_opt_def)
qed

lemma sp_insert_ok:
  assumes inv: "st_inv env st cs" and seek: "seek_ok seek" and k: "kSPTreeMinKey \<le> k" "k < -1"
    and al: "alloc_ok st al" and clear: "insert_clear st cs k"
  shows "\<exists>st' cs'. sp_insert env seek al k v st = Some (True, st') \<and> st_inv env st' cs' \<and>
    chain_view st' cs' = (chain_view st cs)(k \<mapsto> v) \<and> st_enableWriteBuffer st' = st_enableWriteBuffer st"
proof -
  obtain xs c d ys n lf where cs: "cs = xs @ c # d # ys" and n: "st_ml st (fst c) = Some n" "st_leaf st (snd c) = Some lf"
    "nd_ok env c n lf (last_opt None xs) d" "ml_hkey n = lkey_at st d" "ml_lkey n = lkey_at st c"
    and r: "ml_lkey n \<le> k" "k < ml_hkey n" and j: "sp_jumpToMiddleLayer seek k st = Some (fst c, ml_lock n)"
    using st_locate [OF inv seek k] by blast
  have ne: "k \<noteq> kKeyEmpty" using k(1) by (auto simp: kKeyEmpty_def kSPTreeMinKey_def)
  have "buf_ok env n" using n(3) by (simp add: nd_ok_def data_ok_def)
  then consider "ml_type n = MLNodeTypeNoBuffer" | "ml_type n = MLNodeTypeWithBuffer" by (auto simp: buf_ok_def)
  then show ?thesis
  proof cases
    case 1
    obtain b i lf' where ins: "lf_Insert env k v lf = ((b, i), lf')" by (metis prod.exhaust)
    show ?thesis
    proof (cases b)
      case True
      with ins have "lf_Insert env k v lf = ((True, i), lf')" by simp
      from sp_insert_leaf [OF inv cs n r j 1 this, of al] show ?thesis by blast
    next
      case False
      with ins have "lf_Insert env k v lf = ((False, i), lf')" by simp
      from sp_insert_full [OF inv cs n r j 1 this al] show ?thesis by blast
    qed
  next
    case 2
    obtain b b' where ins: "nb_insert env k v (ml_writeBuffer n) = (b, b')" by (metis prod.exhaust)
    have cl: "split_clear n lf k" using clear n 2 by (auto simp: insert_clear_def cs)
    show ?thesis
    proof (cases b)
      case True
      with ins have "nb_insert env k v (ml_writeBuffer n) = (True, b')" by simp
      from sp_insert_buffered [OF inv cs n r j 2 this, of al] show ?thesis by blast
    next
      case False
      with ins have "nb_insert env k v (ml_writeBuffer n) = (False, b')" by simp
      from sp_insert_overflow [OF inv cs n r ne j 2 this al cl] show ?thesis by blast
    qed
  qed
qed

end
