(* ===== verification/SPTreeRemove.thy ===== *)
theory SPTreeRemove
  imports SPTreeInsert
begin

text \<open>
  Removal from the SPTree, with the merge of a leaf that has become almost empty with its right neighbour.
\<close>

section \<open>Dropping a node from the chain\<close>

lemma top_of_drop:
  assumes lk: "\<And>x. x \<in> set (xs @ c # ys) \<Longrightarrow> lkey_at st' x = lkey_at st x" and "ys \<noteq> []"
    and new: "distinct (map (lkey_at st) (xs @ c # d # ys))"
  shows "top_of st' (xs @ c # ys) = (top_of st (xs @ c # d # ys))(lkey_at st d := None)"
    "pmem_of st' (xs @ c # ys) = (pmem_of st (xs @ c # d # ys))(lkey_at st d := None)"
proof -
  have b: "butlast (xs @ c # ys) = (xs @ [c]) @ butlast ys" "butlast (xs @ c # d # ys) = (xs @ [c]) @ d # butlast ys"
    using assms(2) by (simp_all add: butlast_append)
  have mc: "map (\<lambda>c. (lkey_at st' c, f c)) ((xs @ [c]) @ butlast ys) = map (\<lambda>c. (lkey_at st c, f c)) ((xs @ [c]) @ butlast ys)"
    for f :: "entry \<Rightarrow> nat"
    by (rule map_cong [OF refl]) (use lk in_set_butlastD [of _ ys] in \<open>fastforce\<close>)
  have "distinct (map (lkey_at st) ((xs @ [c]) @ d # butlast ys))"
    using new assms(2) by (auto dest!: in_set_butlastD simp: distinct_butlast map_butlast)
  then have D: "distinct (map fst (map (\<lambda>c. (lkey_at st c, f c)) (xs @ [c]) @ (lkey_at st d, f d) # map (\<lambda>c. (lkey_at st c, f c)) (butlast ys)))"
    for f :: "entry \<Rightarrow> nat" by (simp add: comp_def)
  have "map_of (map (\<lambda>c. (lkey_at st' c, f c)) ((xs @ [c]) @ butlast ys)) =
      (map_of (map (\<lambda>c. (lkey_at st c, f c)) ((xs @ [c]) @ d # butlast ys)))(lkey_at st d := None)" for f :: "entry \<Rightarrow> nat"
  proof -
    have "map_of (map (\<lambda>c. (lkey_at st' c, f c)) ((xs @ [c]) @ butlast ys)) =
        map_of (map (\<lambda>c. (lkey_at st c, f c)) ((xs @ [c]) @ butlast ys))" by (simp only: mc)
    also have "\<dots> = (map_of (map (\<lambda>c. (lkey_at st c, f c)) ((xs @ [c]) @ d # butlast ys)))(lkey_at st d := None)"
      unfolding map_append [of _ "xs @ [c]"] list.map by (rule map_of_remove_mid [OF D, symmetric])
    finally show ?thesis .
  qed
  then show "top_of st' (xs @ c # ys) = (top_of st (xs @ c # d # ys))(lkey_at st d := None)"
    "pmem_of st' (xs @ c # ys) = (pmem_of st (xs @ c # d # ys))(lkey_at st d := None)"
    by (simp_all only: top_of_def pmem_of_def b)
qed

lemma st_inv_merge:
  assumes inv: "st_inv env st (xs @ c # d # e # ys)"
    and n: "st_ml st (fst c) = Some n" "st_leaf st (snd c) = Some lf" "ml_hkey n = lkey_at st d" "ml_lkey n = lkey_at st c"
    and dn: "st_ml st (fst d) = Some dn" "st_leaf st (snd d) = Some dl" "nd_ok env d dn dl (Some c) e" "ml_hkey dn = lkey_at st e"
    and en: "st_ml st (fst e) = Some en" "st_leaf st (snd e) = Some el"
    and st': "st_ml st' = (st_ml st)(fst c \<mapsto> N, fst e \<mapsto> en\<lparr>ml_prev := Some (fst c), ml_lock := ml_lock en\<rparr>, fst d \<mapsto> D)"
      "st_leaf st' = (st_leaf st)(snd e \<mapsto> el\<lparr>lf_prev := Some (snd c)\<rparr>, snd c \<mapsto> L)"
      "st_head st' = st_head st" "st_dummyTail st' = st_dummyTail st" "st_bothead st' = st_bothead st"
      "st_top st' = (st_top st)(lkey_at st d := None)" "st_topPmem st' = st_topPmem st"
      "st_topPmem st \<noteq> None \<longrightarrow> st_jobs st' = st_jobs st @ [PmemRemove (lkey_at st d)]"
    and N: "nd_ok env c N L (last_opt None xs) e" "ml_lkey N = ml_lkey n" "ml_hkey N = ml_hkey dn"
      "ml_view N L = ml_view n lf ++ ml_view dn dl"
  shows "st_inv env st' (xs @ c # e # ys) \<and> chain_view st' (xs @ c # e # ys) = chain_view st (xs @ c # d # e # ys)"
proof -
  let ?cs = "xs @ c # d # e # ys" let ?cs' = "xs @ c # e # ys"
  have ch: "chain_ok env st None ?cs" and dist: "distinct (map fst ?cs)" "distinct (map snd ?cs)"
    using inv by (auto simp: st_inv_def)
  have ne: "fst c \<noteq> fst d" "snd c \<noteq> snd d" "fst c \<noteq> fst e" "snd c \<noteq> snd e" "fst d \<noteq> fst e" "snd d \<noteq> snd e"
    using dist by auto
  have same: "same_at st st' x" if "x \<in> set xs \<union> set ys" for x
  proof -
    have "fst x \<noteq> fst c" "snd x \<noteq> snd c" using other_at [OF dist, of x] that by auto
    moreover have "fst x \<noteq> fst d" "snd x \<noteq> snd d"
      using other_at [of "xs @ [c]" d "e # ys" x] dist that by auto
    moreover have "fst x \<noteq> fst e" "snd x \<noteq> snd e"
      using other_at [of "xs @ [c, d]" e ys x] dist that by auto
    ultimately show ?thesis by (simp add: same_at_def st')
  qed
  have at: "st_ml st' (fst c) = Some N" "st_leaf st' (snd c) = Some L"
    "st_ml st' (fst e) = Some (en\<lparr>ml_prev := Some (fst c), ml_lock := ml_lock en\<rparr>)"
    "st_leaf st' (snd e) = Some (el\<lparr>lf_prev := Some (snd c)\<rparr>)"
    using ne by (auto simp: st')
  have lk: "lkey_at st' x = lkey_at st x" if x: "x \<in> set ?cs'" for x
  proof -
    consider "x \<in> set xs \<union> set ys" | "x = c" | "x = e" using x by auto
    then show ?thesis
    proof cases
      case 1 then show ?thesis by (intro lkey_same same)
    next
      case 2 then show ?thesis by (simp add: lkey_at_def at(1) N(2) n(1))
    next
      case 3 then show ?thesis by (simp add: lkey_at_def at(3) en(1))
    qed
  qed
  have parts: "pre_ok env st None xs c" "chain_ok env st (Some d) (e # ys)"
    using ch by (auto simp: chain_ok_append)
  have "lock_free (ml_lock en)" using chain_ok_head [OF parts(2)] en by auto
  then have tail': "chain_ok env st' (Some c) (e # ys)"
    by (intro chain_ok_relink [OF parts(2) _ en]) (use same at in auto)
  have "pre_ok env st' None xs c = pre_ok env st None xs c" by (rule pre_ok_frame) (use same lk in auto)
  moreover have "ent_ok env st' (last_opt None xs) c e"
    using at N dn(4) lk [of e] by (auto simp: ent_ok_def)
  ultimately have ch': "chain_ok env st' None ?cs'"
    using parts tail' by (simp add: chain_ok_append)
  have "sorted_wrt (<) (map (lkey_at st) ?cs)" using chain_sorted [OF ch] by blast
  then have new: "distinct (map (lkey_at st) ?cs)" by (simp only: strict_sorted_iff)
  have tops: "top_of st' ?cs' = (top_of st ?cs)(lkey_at st d := None)" "pmem_of st' ?cs' = (pmem_of st ?cs)(lkey_at st d := None)"
    by (rule top_of_drop [OF lk _ new]; simp)+
  have pm: "map_option (fold job_apply (st_jobs st')) (st_topPmem st') = Some (pmem_of st' ?cs')" if "st_topPmem st \<noteq> None"
    using inv that st' tops by (auto simp: st_inv_def sp_WaitAllJobs_pmem)
  have hd: "hd ?cs' = hd ?cs" "last ?cs' = last ?cs" by (cases xs; simp)+
  have "lkey_at st' (hd ?cs') = lkey_at st (hd ?cs')" by (rule lk) (cases xs, auto)
  then have hk: "lkey_at st' (hd ?cs') = kSPTreeMinKey" using inv hd(1) by (simp only: st_inv_def)
  have dist': "distinct (map fst ?cs')" "distinct (map snd ?cs')" using dist by auto
  have len: "1 < length ?cs'" by simp
  have inv': "st_inv env st' ?cs'"
    unfolding st_inv_def sp_WaitAllJobs_pmem
  proof (intro conjI)
    show "st_head st' = fst (hd ?cs')" "st_dummyTail st' = fst (last ?cs')" "st_bothead st' = snd (hd ?cs')"
      using inv st'(3-5) hd by (simp_all only: st_inv_def)
    show "st_top st' = top_of st' ?cs'" using inv st'(6) tops by (simp only: st_inv_def)
    show "st_topPmem st' \<noteq> None \<longrightarrow> map_option (fold job_apply (st_jobs st')) (st_topPmem st') = Some (pmem_of st' ?cs')"
      using pm st'(7) by simp
  qed (rule ch' dist' hk len)+
  have "chain_view st' ?cs' x = chain_view st ?cs x" for x
  proof -
    have dk: "ml_lkey dn = lkey_at st d" by (simp add: lkey_at_def dn(1))
    have "ml_lkey dn < ml_hkey dn" using dn(3) unfolding nd_ok_def data_ok_def by blast
    then have lt: "lkey_at st d < lkey_at st e" by (simp only: dk dn(4))
    have ent: "ent_ok env st (last_opt None xs) c d" "ent_ok env st (Some c) d e"
      using ch by (auto simp: chain_ok_append)
    have nv: "nd_view st' c = nd_view st c ++ nd_view st d" by (simp add: nd_view_def at n dn N(4))
    consider "x < lkey_at st c" | "lkey_at st c \<le> x" "x < lkey_at st d" | "lkey_at st d \<le> x" "x < lkey_at st e" | "lkey_at st e \<le> x"
      by fastforce
    then show ?thesis
    proof cases
      case 1
      show ?thesis by (rule chain_view_low_part [OF ch ch' 1]) (use lk same in auto)
    next
      case 2
      have "nd_view st d x = None" using ent_view [OF ent(2), of x] 2 by (cases "nd_view st d x") (auto dest: leD)
      moreover have "chain_view st' ?cs' x = nd_view st' c x"
        by (rule chain_view_at [OF ch']) (use 2 lt lk in auto)
      ultimately show ?thesis using chain_view_at [OF ch 2] nv by (simp add: map_add_def)
    next
      case 3
      have "lkey_at st c \<le> x" using 3 ent_ok_lkey [OF ent(1)] by simp
      then have "chain_view st' ?cs' x = nd_view st' c x"
        by (intro chain_view_at [OF ch']) (use 3 lk in auto)
      moreover have "nd_view st c x = None" using ent_view [OF ent(1), of x] 3 by (cases "nd_view st c x") (auto dest: leD)
      moreover have "chain_view st ((xs @ [c]) @ d # e # ys) x = nd_view st d x"
        by (rule chain_view_at [where p = None and env = env]) (use ch 3 in auto)
      ultimately show ?thesis using nv by (simp add: map_add_def split: option.split)
    next
      case 4
      have a: "chain_view st ((xs @ [c, d]) @ e # ys) x = chain_view st (e # ys) x"
        by (rule chain_view_append [where p = None and env = env]) (use ch 4 in auto)
      have b: "chain_view st' ((xs @ [c]) @ e # ys) x = chain_view st' (e # ys) x"
        by (rule chain_view_append [where p = None and env = env]) (use ch' 4 lk in auto)
      have "nd_view st' e = nd_view st e" by (simp add: nd_view_def at en ml_view_def)
      then have "chain_view st' (e # ys) = chain_view st (e # ys)"
        using same by (intro chain_view_relink [OF parts(2)]) auto
      with a b show ?thesis by simp
    qed
  qed
  with inv' show ?thesis by blast
qed


section \<open>Merging\<close>

lemma sp_unlock_at:
  "st_ml st m = Some n \<Longrightarrow> sp_writeUnlock m st = Some (st\<lparr>st_ml := (st_ml st)(m \<mapsto> n\<lparr>ml_lock := rvl_writeUnlock (ml_lock n)\<rparr>)\<rparr>)"
  by (simp add: sp_writeUnlock_def sp_with_node_at)

lemma sp_unlock_inv:
  assumes inv: "st_inv env st (xs @ c # d # ys)"
    and n: "st_ml st (fst c) = Some n" "st_leaf st (snd c) = Some lf" "nd_ok env c n lf (last_opt None xs) d"
      "ml_hkey n = lkey_at st d" "ml_lkey n = lkey_at st c"
    and w: "lock_free w" and st': "st_ml st' = (st_ml st)(fst c \<mapsto> n\<lparr>ml_lock := w\<rparr>)" "st_leaf st' = st_leaf st" "same_top st st'"
  shows "st_inv env st' (xs @ c # d # ys) \<and> chain_view st' (xs @ c # d # ys) = chain_view st (xs @ c # d # ys)"
proof -
  let ?cs = "xs @ c # d # ys"
  have "data_ok env (n\<lparr>ml_lock := w\<rparr>) lf = data_ok env n lf" by (simp add: data_ok_def buf_ok_def ml_view_def)
  then have ok: "data_ok env (n\<lparr>ml_lock := w\<rparr>) lf" using n(3) by (simp only: nd_ok_def)
  have "st_inv env st' ?cs \<and> chain_view st' ?cs x =
      (if ml_lkey n \<le> x \<and> x < ml_hkey n then ml_view (n\<lparr>ml_lock := w\<rparr>) lf x else chain_view st ?cs x)" for x
    by (rule st_inv_replace [OF inv n st'(1) _ st'(3)]) (use n w ok st'(2) in \<open>auto simp: same_links_def\<close>)
  moreover have "chain_view st ?cs x = ml_view n lf x" if "ml_lkey n \<le> x" "x < ml_hkey n" for x
    by (rule st_view_at) (use inv n that in auto)
  ultimately show ?thesis by (auto simp: fun_eq_iff ml_view_def)
qed

lemma ranges_disjoint: "A \<subseteq> {a ..< b :: u64} \<Longrightarrow> B \<subseteq> {b ..< c} \<Longrightarrow> A \<inter> B = {}"
  using ivl_disj_int_two(3) [of a b c] by blast

lemma sp_merge_run:
  assumes n: "st_ml st m = Some n" "ml_leafNode n = Some l" "st_leaf st l = Some lf" "lf_Count lf < 2" "ml_hkey n \<noteq> -1" "ml_next n = Some nx"
    and x: "st_ml st nx = Some xn" "ml_leafNode xn = Some xl" "st_leaf st xl = Some xlf" "lf_Count xlf < 32" "lock_free (ml_lock xn)"
    and a: "ml_next xn = Some nn" "st_ml st nn = Some an" and ne: "m \<noteq> nx" "nn \<noteq> m" "nn \<noteq> nx"
    and merge: "lf_Merge env (ml_bloom n) l (st_leaf st) = Some (True, b, leaves)"
  shows "\<exists>D st'. sp_MaybeMergeMLnode env m st = Some st' \<and>
    st_ml st' = (st_ml st)(m \<mapsto> n\<lparr>ml_bloom := b, ml_isDisabled := False, ml_hkey := ml_hkey xn, ml_next := Some nn\<rparr>,
      nn \<mapsto> an\<lparr>ml_prev := Some m\<rparr>, nx \<mapsto> D) \<and>
    st_leaf st' = leaves \<and> st_head st' = st_head st \<and> st_dummyTail st' = st_dummyTail st \<and> st_bothead st' = st_bothead st \<and>
    st_top st' = (st_top st)(ml_lkey xn := None) \<and> st_topPmem st' = st_topPmem st \<and>
    (st_topPmem st \<noteq> None \<longrightarrow> st_jobs st' = st_jobs st @ [PmemRemove (ml_lkey xn)]) \<and>
    st_enableWriteBuffer st' = st_enableWriteBuffer st"
proof -
  have w: "rvl_writeLockOrRestart False (ml_lock xn) = (False, ml_lock xn + 2)"
    using x(5) by (simp add: rvl_writeLockOrRestart_def rvl_readLockOrRestart_def rvl_upgradeToWriteLockOrRestart_def lock_free_def)
  show ?thesis
    by (rule exI [of _ "xn\<lparr>ml_lock := rvl_writeUnlockObsolete (ml_lock xn + 2)\<rparr>"])
      (use n x a ne merge in \<open>simp add: sp_MaybeMergeMLnode_def w Let_def ml_EnableBloomFilter_def sp_submit_def pmem_Exist_def
        top_remove_def sp_with_node_def fun_upd_twist\<close>)
qed

lemma sp_merge_ok:
  assumes inv: "st_inv env st (xs @ c # d # ys)"
    and n: "st_ml st (fst c) = Some n" "st_leaf st (snd c) = Some lf" "nd_ok env c n lf (last_opt None xs) d"
      "ml_hkey n = lkey_at st d" "ml_lkey n = lkey_at st c"
    and t: "ml_type n = MLNodeTypeNoBuffer" "\<And>dn. st_ml st (fst d) = Some dn \<Longrightarrow> ml_type dn = MLNodeTypeNoBuffer"
    and w: "lock_free (rvl_writeUnlock w)" and stL: "stL = st\<lparr>st_ml := (st_ml st)(fst c \<mapsto> n\<lparr>ml_lock := w\<rparr>)\<rparr>"
  shows "\<exists>st2 st' cs'. sp_MaybeMergeMLnode env (fst c) stL = Some st2 \<and> sp_writeUnlock (fst c) st2 = Some st' \<and>
    st_inv env st' cs' \<and> chain_view st' cs' = chain_view st (xs @ c # d # ys) \<and>
    st_enableWriteBuffer st' = st_enableWriteBuffer st"
proof -
  let ?cs = "xs @ c # d # ys"
  have ch: "chain_ok env st None ?cs" using inv by (simp add: st_inv_def)
  then have tl: "chain_ok env st (Some c) (d # ys)" by (simp add: chain_ok_append)
  from chain_ok_head [OF this] obtain dn dl where d: "st_ml st (fst d) = Some dn" "st_leaf st (snd d) = Some dl"
    "lock_free (ml_lock dn)" by blast
  have links: "ml_next n = Some (fst d)" "ml_leafNode n = Some (snd c)" "lf_next lf = Some (snd d)" and data: "data_ok env n lf"
    using n(3) by (auto simp: nd_ok_def)
  have cd: "fst c \<noteq> fst d" "snd c \<noteq> snd d" using inv by (auto simp: st_inv_def)
  show ?thesis
  proof (cases "lf_Count lf < 2 \<and> ml_hkey n \<noteq> -1 \<and> lf_Count dl < 32")
    case False
    have dleaf: "ml_hkey n \<noteq> -1 \<Longrightarrow> ml_leafNode dn = Some (snd d)"
    proof (cases ys)
      case Nil
      with tl have "lkey_at st d = -1" by (auto simp: tail_ok_def lkey_at_def)
      then show "ml_hkey n \<noteq> -1 \<Longrightarrow> ?thesis" using n(4) by simp
    next
      case (Cons e zs)
      with tl d show "ml_hkey n \<noteq> -1 \<Longrightarrow> ?thesis" by (auto simp: ent_ok_def nd_ok_def)
    qed
    have "sp_MaybeMergeMLnode env (fst c) stL = Some stL"
      using False links n(1,2) d cd dleaf by (auto simp: sp_MaybeMergeMLnode_def stL)
    moreover define st' where "st' = st\<lparr>st_ml := (st_ml st)(fst c \<mapsto> n\<lparr>ml_lock := rvl_writeUnlock w\<rparr>)\<rparr>"
    have "sp_writeUnlock (fst c) stL = Some st'" by (simp add: stL sp_unlock_at st'_def)
    moreover have "st_inv env st' ?cs \<and> chain_view st' ?cs = chain_view st ?cs"
      by (rule sp_unlock_inv [OF inv n w]) (simp_all add: st'_def same_top_def)
    moreover have "st_enableWriteBuffer st' = st_enableWriteBuffer st" by (simp add: st'_def)
    ultimately show ?thesis by blast
  next
    case True
    obtain e zs where ys: "ys = e # zs"
    proof (cases ys)
      case Nil
      with tl have "lkey_at st d = -1" by (auto simp: tail_ok_def lkey_at_def)
      then show ?thesis using n(4) True by simp
    qed
    have ent: "ent_ok env st (Some c) d e" and tl2: "chain_ok env st (Some d) (e # zs)" using tl ys by auto
    from ent d have dok: "nd_ok env d dn dl (Some c) e" "ml_hkey dn = lkey_at st e" by (auto simp: ent_ok_def)
    from chain_ok_head [OF tl2] obtain en el where e: "st_ml st (fst e) = Some en" "st_leaf st (snd e) = Some el" by blast
    have ne: "fst e \<noteq> fst c" "fst e \<noteq> fst d" "snd e \<noteq> snd c" "snd e \<noteq> snd d" using inv ys by (auto simp: st_inv_def)
    have dlinks: "ml_next dn = Some (fst e)" "ml_leafNode dn = Some (snd d)" "lf_next dl = Some (snd e)" and ddata: "data_ok env dn dl"
      using dok(1) by (auto simp: nd_ok_def)
    have td: "ml_type dn = MLNodeTypeNoBuffer" by (rule t(2) [OF d(1)])
    have views: "ml_view n lf = lf_view lf" "ml_view dn dl = lf_view dl" using t td by (simp_all add: ml_view_def)
    have dk: "ml_lkey dn = ml_hkey n" using n(4) d(1) by (simp add: lkey_at_def)
    have R: "dom (lf_view lf) \<subseteq> {ml_lkey n ..< ml_hkey n}" "dom (lf_view dl) \<subseteq> {ml_hkey n ..< ml_hkey dn}"
      using data ddata views dk unfolding data_ok_def by metis+
    have linv: "lf_inv env lf" "lf_inv env dl" using data ddata by (auto simp: data_ok_def)
    have fits: "lf_Count lf + lf_Count dl \<le> 64" using True by linarith
    obtain b L where merge: "lf_Merge env (ml_bloom n) (snd c) (st_leaf st) =
        Some (True, b, (st_leaf st)(snd e \<mapsto> lf_SetPrev (Some (snd c)) el, snd c \<mapsto> L))"
      and L: "lf_inv env L" "lf_view L = lf_view lf ++ lf_view dl" "lf_lkey L = lf_lkey lf" "lf_hkey L = lf_hkey dl"
        "lf_prev L = lf_prev lf" "lf_next L = Some (snd e)" "bf_covers env b (dom (lf_view L))"
      using lf_Merge_ok [where h = "st_leaf st", OF n(2) links(3) d(2) dlinks(3) e(2) ne(3) [symmetric] linv ranges_disjoint [OF R] fits, of "ml_bloom n"]
      by blast
    define N where "N = n\<lparr>ml_bloom := b, ml_isDisabled := False, ml_hkey := ml_hkey dn, ml_next := Some (fst e), ml_lock := rvl_writeUnlock w\<rparr>"
    obtain st2 D where run: "sp_MaybeMergeMLnode env (fst c) stL = Some st2"
      and st2: "st_ml st2 = (st_ml stL)(fst c \<mapsto> n\<lparr>ml_lock := w, ml_bloom := b, ml_isDisabled := False, ml_hkey := ml_hkey dn, ml_next := Some (fst e)\<rparr>,
          fst e \<mapsto> en\<lparr>ml_prev := Some (fst c)\<rparr>, fst d \<mapsto> D)"
        "st_leaf st2 = (st_leaf st)(snd e \<mapsto> lf_SetPrev (Some (snd c)) el, snd c \<mapsto> L)"
        "st_head st2 = st_head st" "st_dummyTail st2 = st_dummyTail st" "st_bothead st2 = st_bothead st"
        "st_top st2 = (st_top st)(ml_lkey dn := None)" "st_topPmem st2 = st_topPmem st"
        "st_topPmem st \<noteq> None \<longrightarrow> st_jobs st2 = st_jobs st @ [PmemRemove (ml_lkey dn)]"
        "st_enableWriteBuffer st2 = st_enableWriteBuffer st"
      using sp_merge_run [of stL "fst c" "n\<lparr>ml_lock := w\<rparr>" "snd c" lf "fst d" dn "snd d" dl "fst e" en env b
          "(st_leaf st)(snd e \<mapsto> lf_SetPrev (Some (snd c)) el, snd c \<mapsto> L)"]
        n(1,2) links d dlinks e ne cd merge True by (auto simp: stL)
    define st' where "st' = st2\<lparr>st_ml := (st_ml st2)(fst c \<mapsto> N)\<rparr>"
    have unl: "sp_writeUnlock (fst c) st2 = Some st'"
      using cd ne by (simp add: sp_unlock_at [where n = "n\<lparr>ml_lock := w, ml_bloom := b, ml_isDisabled := False, ml_hkey := ml_hkey dn, ml_next := Some (fst e)\<rparr>"]
          st2(1) st'_def N_def)
    have ml': "st_ml st' = (st_ml st)(fst c \<mapsto> N, fst e \<mapsto> en\<lparr>ml_prev := Some (fst c), ml_lock := ml_lock en\<rparr>, fst d \<mapsto> D)"
      using cd ne by (auto simp: st'_def st2 stL)
    have kN: "ml_lkey N = ml_lkey n" "ml_hkey N = ml_hkey dn" by (simp_all add: N_def)
    have vN: "ml_view N L = ml_view n lf ++ ml_view dn dl" using t L views by (simp add: ml_view_def N_def)
    have lt: "ml_lkey n < ml_hkey n" "ml_lkey dn < ml_hkey dn" using data ddata unfolding data_ok_def by blast+
    have dom: "dom (lf_view lf ++ lf_view dl) \<subseteq> {ml_lkey n ..< ml_hkey dn}"
      using R lt dk by (fastforce simp: subset_iff)
    have Nok: "nd_ok env c N L (last_opt None xs) e"
      using n(3) L t w lt dk ddata dom vN views by (simp add: nd_ok_def data_ok_def N_def buf_ok_def)
    have "st_inv env st' (xs @ c # e # zs) \<and> chain_view st' (xs @ c # e # zs) = chain_view st (xs @ c # d # e # zs)"
      by (rule st_inv_merge [OF inv [unfolded ys] n(1,2,4,5) d(1,2) dok e ml' _ _ _ _ _ _ _ Nok kN vN])
        (use st2 n(4) dk in \<open>auto simp: st'_def lf_SetPrev_def\<close>)
    moreover have "st_enableWriteBuffer st' = st_enableWriteBuffer st" by (simp add: st'_def st2)
    ultimately show ?thesis using run unl ys by blast
  qed
qed


section \<open>Removal\<close>

text \<open>A tree created without write buffers has only nodes without a write buffer.\<close>

definition unbuffered :: "sptree \<Rightarrow> bool" where
  "unbuffered st \<longleftrightarrow> \<not> st_enableWriteBuffer st \<and> (\<forall>m n. st_ml st m = Some n \<longrightarrow> ml_type n = MLNodeTypeNoBuffer)"

lemma unbufferedD: "unbuffered st \<Longrightarrow> st_ml st m = Some n \<Longrightarrow> ml_type n = MLNodeTypeNoBuffer"
  by (simp add: unbuffered_def)

lemma data_ok_remove:
  assumes ok: "data_ok env n lf" and lf': "lf_inv env lf'" "lf_lkey lf' = lf_lkey lf" "lf_hkey lf' = lf_hkey lf"
    "dom (ml_view n lf') \<subseteq> dom (ml_view n lf)"
  shows "data_ok env n lf'"
proof -
  have "\<not> ml_isDisabled n \<longrightarrow> bf_covers env (ml_bloom n) (dom (ml_view n lf'))"
    using ok lf'(4) bf_covers_mono unfolding data_ok_def by blast
  moreover have "dom (ml_view n lf') \<subseteq> {ml_lkey n ..< ml_hkey n}" using ok lf'(4) unfolding data_ok_def by blast
  ultimately show ?thesis using ok lf'(1-3) unfolding data_ok_def by (elim conjE, intro conjI) simp_all
qed

lemma sp_remove_ok:
  assumes inv: "st_inv env st cs" and seek: "seek_ok seek" and k: "kSPTreeMinKey \<le> k" "k < -1" and plain: "unbuffered st"
  shows "\<exists>st' cs'. sp_remove env seek k st = Some (chain_view st cs k \<noteq> None, st') \<and> st_inv env st' cs' \<and>
    chain_view st' cs' = (chain_view st cs)(k := None) \<and> st_enableWriteBuffer st' = st_enableWriteBuffer st"
proof -
  obtain xs c d ys n lf where cs: "cs = xs @ c # d # ys" and n: "st_ml st (fst c) = Some n" "st_leaf st (snd c) = Some lf"
    "nd_ok env c n lf (last_opt None xs) d" "ml_hkey n = lkey_at st d" "ml_lkey n = lkey_at st c"
    and r: "ml_lkey n \<le> k" "k < ml_hkey n" and j: "sp_jumpToMiddleLayer seek k st = Some (fst c, ml_lock n)"
    using st_locate [OF inv seek k] by blast
  have t: "ml_type n = MLNodeTypeNoBuffer" by (rule unbufferedD [OF plain n(1)])
  have ok: "data_ok env n lf" and leaf: "ml_leafNode n = Some (snd c)" and free: "lock_free (ml_lock n)"
    using n(3) by (auto simp: nd_ok_def)
  then have linv: "lf_inv env lf" by (simp add: data_ok_def)
  have at: "chain_view st cs x = ml_view n lf x" if "ml_lkey n \<le> x" "x < ml_hkey n" for x
    unfolding cs by (rule st_view_at) (use inv cs n that in auto)
  show ?thesis
  proof (cases "ml_CouldExist env k n")
    case False
    then have "ml_view n lf k = None" using ml_CouldExist_ok [OF ok, of k] by (cases "ml_view n lf k") auto
    then have "chain_view st cs k = None" using at [OF r] by simp
    moreover have "sp_remove env seek k st = Some (False, st)"
      using j n(1) False by (simp add: sp_remove_def rvl_checkOrRestart_def rvl_readUnlockOrRestart_def)
    ultimately show ?thesis using inv by (auto simp: fun_upd_idem)
  next
    case True
    obtain b lf' where rm: "lf_Remove env k lf = (b, lf')" by (metis prod.exhaust)
    with lf_Remove_cases [OF linv, of k]
    have L: "lf_inv env lf'" "lf_view lf' = (lf_view lf)(k := None)" "b \<longleftrightarrow> lf_view lf k \<noteq> None" by auto
    note F = lf_Remove_fields [OF rm]
    define stA where "stA = st\<lparr>st_leaf := (st_leaf st)(snd c \<mapsto> lf')\<rparr>"
    have views: "ml_view n lf = lf_view lf" "ml_view n lf' = (lf_view lf)(k := None)" using t L by (simp_all add: ml_view_def)
    have ok': "data_ok env n lf'" by (rule data_ok_remove [OF ok L(1)]) (use F views in auto)
    have A: "st_inv env stA (xs @ c # d # ys) \<and> chain_view stA (xs @ c # d # ys) x =
        (if ml_lkey n \<le> x \<and> x < ml_hkey n then ml_view n lf' x else chain_view st (xs @ c # d # ys) x)" for x
      by (rule st_inv_replace [OF inv [unfolded cs] n])
        (use n(1) F ok' free in \<open>auto simp: stA_def same_top_def same_links_def\<close>)
    have viewA: "chain_view stA cs = (chain_view st cs)(k := None)"
      using A at r views by (auto simp: fun_eq_iff cs [symmetric])
    have nA: "st_ml stA (fst c) = Some n" "st_leaf stA (snd c) = Some lf'" "nd_ok env c n lf' (last_opt None xs) d"
      "ml_hkey n = lkey_at stA d" "ml_lkey n = lkey_at stA c"
      using n F ok' by (simp_all add: stA_def nd_ok_def lkey_at_def)
    have wok: "lock_free (rvl_writeUnlock (ml_lock n + 2))" using lock_free_add_4 [OF free] by (simp add: rvl_unlock_add)
    have tA: "\<And>dn. st_ml stA (fst d) = Some dn \<Longrightarrow> ml_type dn = MLNodeTypeNoBuffer"
      using plain by (simp add: stA_def unbuffered_def)
    obtain st2 st' cs' where M: "sp_MaybeMergeMLnode env (fst c) (stA\<lparr>st_ml := (st_ml stA)(fst c \<mapsto> n\<lparr>ml_lock := ml_lock n + 2\<rparr>)\<rparr>) = Some st2"
        "sp_writeUnlock (fst c) st2 = Some st'" "st_inv env st' cs'" "chain_view st' cs' = chain_view stA (xs @ c # d # ys)"
        "st_enableWriteBuffer st' = st_enableWriteBuffer stA"
      using sp_merge_ok [OF conjunct1 [OF A] nA t tA wok refl] by blast
    have "stA\<lparr>st_ml := (st_ml stA)(fst c \<mapsto> n\<lparr>ml_lock := ml_lock n + 2\<rparr>)\<rparr> =
        st\<lparr>st_ml := (st_ml st)(fst c \<mapsto> n\<lparr>ml_lock := ml_lock n + 2\<rparr>), st_leaf := (st_leaf st)(snd c \<mapsto> lf')\<rparr>"
      by (rule sptree.equality) (simp_all add: stA_def)
    note M1 = M(1) [unfolded this]
    have "sp_remove env seek k st = Some (b, st')"
      using j n(1,2) True rm leaf M1 M(2) t
      by (simp add: sp_remove_def rvl_checkOrRestart_def rvl_readUnlockOrRestart_def sp_lock_ok stA_def)
    moreover have "b \<longleftrightarrow> chain_view st cs k \<noteq> None" using L(3) at [OF r] views by simp
    ultimately show ?thesis using M(3-5) viewA cs by (auto simp: stA_def)
  qed
qed

section \<open>Trees without write buffers stay so\<close>

definition node_plain :: "mlnode option \<Rightarrow> bool" where
  "node_plain x \<longleftrightarrow> (\<forall>n. x = Some n \<longrightarrow> ml_type n = MLNodeTypeNoBuffer)"

lemma node_plain_simps [simp]: "node_plain (Some n) \<longleftrightarrow> ml_type n = MLNodeTypeNoBuffer" "node_plain None"
  by (simp_all add: node_plain_def)

definition no_buffers :: "ml_heap \<Rightarrow> bool" where
  "no_buffers H \<longleftrightarrow> (\<forall>m. node_plain (H m))"

lemma unbuffered_heap: "unbuffered st \<longleftrightarrow> \<not> st_enableWriteBuffer st \<and> no_buffers (st_ml st)"
  by (simp add: unbuffered_def no_buffers_def node_plain_def)

lemma ml_types [simp]:
  "ml_type (ml_SetBloomFilter env k n) = ml_type n" "ml_type (ml_EnableBloomFilter n) = ml_type n"
  "ml_type (ml_new b rb rw) = (if b then MLNodeTypeWithBuffer else MLNodeTypeNoBuffer)"
  by (simp_all add: ml_SetBloomFilter_def ml_EnableBloomFilter_def ml_new_def)

text \<open>A property of every result of a run; a node read from a heap without buffers has none.\<close>

definition all_results :: "('a \<Rightarrow> bool) \<Rightarrow> 'a option \<Rightarrow> bool" where
  "all_results P x \<longleftrightarrow> (\<forall>y. x = Some y \<longrightarrow> P y)"

lemma all_results_read:
  "node_plain x \<Longrightarrow> (\<And>n. ml_type n = MLNodeTypeNoBuffer \<Longrightarrow> all_results P (f n)) \<Longrightarrow> all_results P (Option.bind x f)"
  by (auto simp: all_results_def bind_eq_Some_conv node_plain_def)

lemma all_results_plain:
  "ml_type n = MLNodeTypeNoBuffer \<Longrightarrow> all_results P y \<Longrightarrow> all_results P (if ml_type n = MLNodeTypeWithBuffer then x else y)"
  "ml_type n = MLNodeTypeNoBuffer \<Longrightarrow> all_results P (g b n) \<Longrightarrow>
     all_results P (Option.bind (if ml_type n = MLNodeTypeWithBuffer then w else Some (b, n)) (\<lambda>(b, n). g b n))"
  by simp_all

lemma all_results_sub:
  "all_results Q x \<Longrightarrow> (\<And>y. Q y \<Longrightarrow> all_results P (f y)) \<Longrightarrow> all_results P (Option.bind x f)"
  by (auto simp: all_results_def bind_eq_Some_conv)

lemma all_results_bind:
  fixes x :: "'x option"
  shows "(\<And>y. all_results P (f y)) \<Longrightarrow> all_results P (Option.bind x f)"
  by (auto simp: all_results_def bind_eq_Some_conv)

lemma all_results_intros:
  "(b \<Longrightarrow> all_results P u) \<Longrightarrow> (\<not> b \<Longrightarrow> all_results P v) \<Longrightarrow> all_results P (if b then u else v)"
  "(\<And>a b. all_results P (g a b)) \<Longrightarrow> all_results P (case p of (a, b) \<Rightarrow> g a b)"
  "(\<And>a b. all_results P (h a b q)) \<Longrightarrow> all_results P ((case p of (a, b) \<Rightarrow> h a b) q)"
  "all_results P None" "P z \<Longrightarrow> all_results P (Some z)"
  by (auto simp: all_results_def bind_eq_Some_conv split: prod.split)

lemma all_resultsD: "all_results P x \<Longrightarrow> x = Some y \<Longrightarrow> P y"
  by (simp add: all_results_def)

lemma heap_pieces [simp]:
  "st_ml (sp_submit j st) = st_ml st" "st_ml (top_remove k p st) = st_ml st" "st_ml (top_insert k p st) = st_ml st"
  "st_ml (sp_log t k v n st) = st_ml st"
  "st_enableWriteBuffer (sp_submit j st) = st_enableWriteBuffer st"
  "st_enableWriteBuffer (top_remove k p st) = st_enableWriteBuffer st"
  "st_enableWriteBuffer (top_insert k p st) = st_enableWriteBuffer st"
  "st_enableWriteBuffer (sp_log t k v n st) = st_enableWriteBuffer st"
  by (simp_all add: sp_submit_def top_remove_def top_insert_def sp_log_def)

text \<open>The reads that are not reads of a node.\<close>

lemmas all_results_other = all_results_bind [where 'x = nat] all_results_bind [where 'x = leaf]
  all_results_bind [where 'x = "nat \<times> u64"]
  all_results_bind [where 'x = "(nat \<times> u64) \<times> bloom \<times> bloom \<times> leaf_heap"]
  all_results_bind [where 'x = "bool \<times> bloom \<times> leaf_heap"] all_results_intros

lemma unbuffered_with_node:
  "unbuffered st \<Longrightarrow> (\<And>n. ml_type (f n) = ml_type n) \<Longrightarrow> all_results unbuffered (sp_with_node m f st)"
  unfolding sp_with_node_def
  by (intro all_results_read all_results_other) (simp_all add: unbuffered_heap no_buffers_def)

lemma unbuffered_unlock: "unbuffered st \<Longrightarrow> all_results unbuffered (sp_writeUnlock m st)"
  unfolding sp_writeUnlock_def by (erule unbuffered_with_node) simp

lemma unbuffered_lock: "unbuffered st \<Longrightarrow> all_results unbuffered (sp_lock_node m v st)"
  unfolding sp_lock_node_def
  by (intro all_results_read all_results_other) (simp_all add: unbuffered_heap no_buffers_def)

lemma unbuffered_merge: "unbuffered st \<Longrightarrow> all_results unbuffered (sp_MaybeMergeMLnode env m st)"
  unfolding sp_MaybeMergeMLnode_def sp_with_node_def Let_def
  by (intro all_results_read all_results_other) (simp_all add: unbuffered_heap no_buffers_def)

lemma unbuffered_split: "unbuffered st \<Longrightarrow> all_results unbuffered (sp_SplitMLNodeAndUnlock env al m recs st)"
  unfolding sp_SplitMLNodeAndUnlock_def Let_def
  by (intro all_results_read all_results_other) (simp_all add: unbuffered_heap no_buffers_def)

lemma unbuffered_insert:
  "unbuffered st \<Longrightarrow> all_results (\<lambda>r. unbuffered (snd r)) (sp_insert env seek al k v st)"
  unfolding sp_insert_def Let_def
  by (intro all_results_plain all_results_read all_results_sub [OF unbuffered_lock] all_results_sub [OF unbuffered_split]
      all_results_sub [OF unbuffered_unlock] all_results_other)
    (simp_all add: unbuffered_heap no_buffers_def)

lemma unbuffered_remove:
  "unbuffered st \<Longrightarrow> all_results (\<lambda>r. unbuffered (snd r)) (sp_remove env seek k st)"
  unfolding sp_remove_def Let_def
  by (intro all_results_plain all_results_read all_results_sub [OF unbuffered_lock] all_results_sub [OF unbuffered_merge]
      all_results_sub [OF unbuffered_unlock] all_results_other)
    (auto simp: unbuffered_heap no_buffers_def)

end
