(* ===== verification/SPTreeScan.thy ===== *)
theory SPTreeScan
  imports SPTreeRemove
begin

text \<open>
  Scans over a tree without write buffers: every leaf is sorted when its version asks for it, and the values
  come out in the order of their keys, from the first key not below the start, up to the size asked for.
\<close>

section \<open>The records of a chain in order\<close>

definition lf_ascending :: "leaf \<Rightarrow> (u64 \<times> u64) list" where
  "lf_ascending lf = map (\<lambda>i. (lf_key lf i, lf_val lf i)) (lf_sorted_pos lf)"

lemma lf_ascending_props:
  assumes inv: "lf_inv env lf"
  shows "sorted_wrt (<) (map fst (lf_ascending lf))" "(k, v) \<in> set (lf_ascending lf) \<longleftrightarrow> lf_view lf k = Some v"
  using lf_sorted_strict [OF inv] by (auto simp: lf_ascending_def comp_def lf_view_Some [OF inv])

lemma lf_ascending_Sort [simp]: "lf_ascending (lf_Sort lf) = lf_ascending lf"
  by (simp add: lf_ascending_def)

definition nd_records :: "sptree \<Rightarrow> entry \<Rightarrow> (u64 \<times> u64) list" where
  "nd_records st c = (case st_leaf st (snd c) of Some lf \<Rightarrow> lf_ascending lf | None \<Rightarrow> [])"

definition chain_records :: "sptree \<Rightarrow> entry list \<Rightarrow> (u64 \<times> u64) list" where
  "chain_records st cs = concat (map (nd_records st) (butlast cs))"

lemma chain_records_simps [simp]:
  "chain_records st [t] = []" "chain_records st (c # d # cs) = nd_records st c @ chain_records st (d # cs)"
  by (simp_all add: chain_records_def)

lemma chain_records_ok:
  assumes "chain_ok env st p cs" and "unbuffered st"
  shows "sorted_wrt (<) (map fst (chain_records st cs)) \<and> (\<forall>k v. (k, v) \<in> set (chain_records st cs) \<longleftrightarrow> chain_view st cs k = Some v)"
  using assms(1)
proof (induction cs arbitrary: p rule: induct_list012)
  case (2 t)
  then show ?case by (simp add: chain_view_def)
next
  case (3 c d cs)
  then have ent: "ent_ok env st p c d" and ch: "chain_ok env st (Some c) (d # cs)" by auto
  from 3(2) [OF ch] have IH: "sorted_wrt (<) (map fst (chain_records st (d # cs)))"
    "\<And>k v. (k, v) \<in> set (chain_records st (d # cs)) \<longleftrightarrow> chain_view st (d # cs) k = Some v" by auto
  from ent obtain n lf where n: "st_ml st (fst c) = Some n" "st_leaf st (snd c) = Some lf" "nd_ok env c n lf p d"
    by (auto simp: ent_ok_def)
  have linv: "lf_inv env lf" using n(3) by (simp add: nd_ok_def data_ok_def)
  have "ml_type n = MLNodeTypeNoBuffer" by (rule unbufferedD [OF assms(2) n(1)])
  then have nv: "nd_view st c = lf_view lf" using n by (simp add: nd_view_def ml_view_def)
  have nr: "nd_records st c = lf_ascending lf" using n by (simp add: nd_records_def)
  note A = lf_ascending_props [OF linv]
  have lt: "k < lkey_at st d" if "(k, v) \<in> set (nd_records st c)" for k v
    using ent_view [OF ent, of k v] that A(2) nv nr by simp
  have ge: "lkey_at st d \<le> k" if "(k, v) \<in> set (chain_records st (d # cs))" for k v
    using chain_view_low [OF ch, of k] that IH(2) by (auto simp: not_less [symmetric])
  have "sorted_wrt (<) (map fst (chain_records st (c # d # cs)))"
    using A(1) IH(1) lt ge nr by (fastforce simp: sorted_wrt_append)
  moreover have "(k, v) \<in> set (chain_records st (c # d # cs)) \<longleftrightarrow> chain_view st (c # d # cs) k = Some v" for k v
  proof (cases "k < lkey_at st d")
    case True
    then have "(k, v) \<notin> set (chain_records st (d # cs))" using ge [of k v] by (auto dest: leD)
    with A(2) nr nv chain_view_cases [OF 3(3), of k] True show ?thesis by simp
  next
    case False
    then have "(k, v) \<notin> set (nd_records st c)" using lt [of k v] by auto
    with IH(2) chain_view_cases [OF 3(3), of k] False show ?thesis by simp
  qed
  ultimately show ?case by blast
qed simp

section \<open>The loops of the scan\<close>

lemma sp_scan_node_eq:
  "sp_scan_node startKey n sls = take n (map ls_val (filter (\<lambda>sl. startKey \<le> ls_key sl) sls))"
  by (induction startKey n sls rule: sp_scan_node.induct) auto

definition fresh_leaves :: "sptree \<Rightarrow> entry list \<Rightarrow> bool" where
  "fresh_leaves st cs \<longleftrightarrow> (\<forall>c \<in> set cs. \<forall>lf. st_leaf st (snd c) = Some lf \<longrightarrow> lf_fresh lf)"

lemma lf_Sort_view: "lf_inv env lf \<Longrightarrow> lf_view (lf_Sort lf) = lf_view lf"
  using lf_Sort_inv [of env lf] by blast

text \<open>One node: its leaf is sorted when needed, and the rest of the tree is as it was.\<close>

lemma sp_sort_ok:
  assumes inv: "st_inv env st cs" and cs: "cs = xs @ c # d # ys" and plain: "unbuffered st" and fresh: "fresh_leaves st cs"
    and n: "st_ml st (fst c) = Some n" "st_leaf st (snd c) = Some lf" "nd_ok env c n lf (last_opt None xs) d"
      "ml_hkey n = lkey_at st d" "ml_lkey n = lkey_at st c"
  shows "\<exists>v st' lf'. sp_SortLeafNode (fst c) (ml_lock n) st = Some (v, st') \<and> st_inv env st' cs \<and> unbuffered st' \<and>
    fresh_leaves st' cs \<and> chain_view st' cs = chain_view st cs \<and> st_leaf st' (snd c) = Some lf' \<and>
    lf_begin lf' = map (\<lambda>i. lf_slots lf ! i) (lf_sorted_pos lf) \<and>
    (\<forall>k. lf_beginAt k lf' = Some (filter (\<lambda>sl. k \<le> ls_key sl) (lf_begin lf'))) \<and>
    chain_records st' (d # ys) = chain_records st (d # ys)"
proof -
  have data: "data_ok env n lf" and leaf: "ml_leafNode n = Some (snd c)" and free: "lock_free (ml_lock n)"
    using n(3) by (auto simp: nd_ok_def)
  then have linv: "lf_inv env lf" by (simp add: data_ok_def)
  have fr: "lf_fresh lf" using fresh n(2) by (auto simp: fresh_leaves_def cs)
  show ?thesis
  proof (cases "lf_NeedSort lf")
    case False
    then have s: "lf_sorted lf" using fr by (simp add: lf_fresh_def)
    have "sp_SortLeafNode (fst c) (ml_lock n) st = Some (ml_lock n, st)"
      using n leaf False by (simp add: sp_SortLeafNode_def)
    with inv plain fresh n(2) lf_sorted_begin [OF s linv] lf_beginAt_sorted [OF linv s False] show ?thesis by auto
  next
    case True
    define st' where "st' = st\<lparr>st_leaf := (st_leaf st)(snd c \<mapsto> lf_Sort lf), st_ml := (st_ml st)(fst c \<mapsto> n\<lparr>ml_lock := ml_lock n + 4\<rparr>)\<rparr>"
    have eq: "st\<lparr>st_ml := A, st_leaf := B, st_ml := C\<rparr> = st\<lparr>st_leaf := B, st_ml := C\<rparr>" for A B C
      by (rule sptree.equality) simp_all
    have fr': "lock_free (ml_lock n + 4)" by (rule lock_free_add_4 [OF free])
    then have run: "sp_SortLeafNode (fst c) (ml_lock n) st = Some (ml_lock n + 4, st')"
      using n leaf True
      by (simp add: sp_SortLeafNode_def sp_lock_ok sp_unlock_at rvl_unlock_add st'_def eq rvl_readLockOrRestart_def lock_free_def)
    have S: "lf_inv env (lf_Sort lf)" "lf_view (lf_Sort lf) = lf_view lf" "lf_sorted (lf_Sort lf)" "\<not> lf_NeedSort (lf_Sort lf)"
      using lf_Sort_inv [OF linv] lf_Sort_sorted lf_Sort_fresh by auto
    have F: "lf_prev (lf_Sort lf) = lf_prev lf" "lf_next (lf_Sort lf) = lf_next lf" "lf_lkey (lf_Sort lf) = lf_lkey lf"
      "lf_hkey (lf_Sort lf) = lf_hkey lf" by simp_all
    let ?n = "n\<lparr>ml_lock := ml_lock n + 4\<rparr>"
    have view: "ml_view ?n (lf_Sort lf) = ml_view n lf" by (simp add: ml_view_def S)
    have "data_ok env ?n (lf_Sort lf)"
      using data S F view unfolding data_ok_def buf_ok_def by (elim conjE, intro conjI) simp_all
    then have "st_inv env st' cs \<and> chain_view st' cs x =
        (if ml_lkey n \<le> x \<and> x < ml_hkey n then ml_view ?n (lf_Sort lf) x else chain_view st cs x)" for x
      unfolding cs
      by (intro st_inv_replace [OF inv [unfolded cs] n]) (use F fr' in \<open>auto simp: st'_def same_top_def same_links_def\<close>)
    moreover have "chain_view st cs x = ml_view n lf x" if "ml_lkey n \<le> x" "x < ml_hkey n" for x
      unfolding cs by (rule st_view_at) (use inv cs n that in auto)
    ultimately have I: "st_inv env st' cs" "chain_view st' cs = chain_view st cs" using view by (auto simp: fun_eq_iff)
    have "unbuffered st'" using plain n(1) by (auto simp: st'_def unbuffered_def)
    moreover have "fresh_leaves st' cs" using fresh lf_Sort_fresh [of lf] by (auto simp: fresh_leaves_def st'_def)
    moreover have "chain_records st' (d # ys) = chain_records st (d # ys)"
    proof -
      have dist: "distinct (map fst (xs @ c # d # ys))" "distinct (map snd (xs @ c # d # ys))"
        using inv unfolding st_inv_def cs by blast+
      have "snd x \<noteq> snd c" if "x \<in> set (d # ys)" for x by (rule other_at(2) [OF dist]) (use that in auto)
      then have "nd_records st' x = nd_records st x" if "x \<in> set (butlast (d # ys))" for x
        using in_set_butlastD [OF that] by (simp add: nd_records_def st'_def)
      then show ?thesis unfolding chain_records_def by (metis map_cong)
    qed
    moreover have "st_leaf st' (snd c) = Some (lf_Sort lf)" by (simp add: st'_def)
    ultimately show ?thesis
      using run I lf_sorted_begin [OF S(3,1)] lf_beginAt_sorted [OF S(1,3,4)] by auto
  qed
qed


lemma filter_ascending: "map ls_val (filter (\<lambda>sl. k \<le> ls_key sl) (map (\<lambda>i. lf_slots lf ! i) (lf_sorted_pos lf))) =
    map snd (filter (\<lambda>r. k \<le> fst r) (lf_ascending lf))"
  by (simp add: lf_ascending_def filter_map comp_def)

lemma sp_scan_loop_ok:
  assumes "st_inv env st (pre @ ws)" "ws \<noteq> []" "unbuffered st" "fresh_leaves st (pre @ ws)" "length ws \<le> fuel"
    "length acc \<le> sz"
  shows "\<exists>st'. sp_scan_loop fuel env seek als startKey sz (fst (hd ws)) acc st =
      Some (take sz (acc @ map snd (filter (\<lambda>r. startKey \<le> fst r) (chain_records st ws))), st') \<and>
    st_inv env st' (pre @ ws) \<and> unbuffered st' \<and> fresh_leaves st' (pre @ ws) \<and> chain_view st' (pre @ ws) = chain_view st (pre @ ws)"
  using assms
proof (induction ws arbitrary: pre st fuel acc)
  case (Cons c ws)
  let ?cs = "pre @ c # ws" let ?f = "\<lambda>r :: u64 \<times> u64. startKey \<le> fst r"
  have ch: "chain_ok env st None ?cs" using Cons.prems(1) by (simp add: st_inv_def)
  obtain fuel' where fuel: "fuel = Suc fuel'" using Cons.prems(5) by (cases fuel) auto
  show ?case
  proof (cases ws)
    case Nil
    then have "tail_ok st (last_opt None pre) c" using ch by (simp add: chain_ok_append)
    then obtain n where "st_ml st (fst c) = Some n" "ml_lkey n = ml_hkey n" "lock_free (ml_lock n)"
      by (auto simp: tail_ok_def)
    then have "sp_scan_loop fuel env seek als startKey sz (fst c) acc st = Some (acc, st)"
      by (simp add: fuel rvl_readLockOrRestart_def lock_free_def)
    then show ?thesis using Cons.prems Nil by simp
  next
    case (Cons d ys)
    have ent: "ent_ok env st (last_opt None pre) c d" using ch Cons by (simp add: chain_ok_append)
    then obtain n lf where n: "st_ml st (fst c) = Some n" "st_leaf st (snd c) = Some lf"
      "nd_ok env c n lf (last_opt None pre) d" "ml_hkey n = lkey_at st d" by (auto simp: ent_ok_def)
    then have lk: "ml_lkey n = lkey_at st c" by (simp add: lkey_at_def)
    have free: "lock_free (ml_lock n)" and leaf: "ml_leafNode n = Some (snd c)" and nx: "ml_next n = Some (fst d)"
      using n(3) by (auto simp: nd_ok_def)
    have lt: "ml_lkey n \<noteq> ml_hkey n" using n(3) unfolding nd_ok_def data_ok_def by auto
    have t: "ml_type n = MLNodeTypeNoBuffer" by (rule unbufferedD [OF Cons.prems(3) n(1)])
    have rl: "rvl_readLockOrRestart (ml_lock n) False = (ml_lock n, False)"
      using free by (simp add: rvl_readLockOrRestart_def lock_free_def)
    show ?thesis
    proof (cases "length acc < sz")
      case False
      then have "sp_scan_loop fuel env seek als startKey sz (fst c) acc st = Some (acc, st)"
        by (simp add: fuel n(1) rl)
      then show ?thesis using Cons.prems False by simp
    next
      case True
      obtain v st1 lf1 where S: "sp_SortLeafNode (fst c) (ml_lock n) st = Some (v, st1)" "st_inv env st1 ?cs" "unbuffered st1"
          "fresh_leaves st1 ?cs" "chain_view st1 ?cs = chain_view st ?cs" "st_leaf st1 (snd c) = Some lf1"
        and B: "lf_begin lf1 = map (\<lambda>i. lf_slots lf ! i) (lf_sorted_pos lf)"
          "\<And>k. lf_beginAt k lf1 = Some (filter (\<lambda>sl. k \<le> ls_key sl) (lf_begin lf1))"
        and R: "chain_records st1 (d # ys) = chain_records st (d # ys)"
        using sp_sort_ok [OF Cons.prems(1) _ Cons.prems(3,4) n(1,2,3,4) lk, of ys] Cons by auto
      have nr: "nd_records st c = lf_ascending lf" using n(2) by (simp add: nd_records_def)
      define got where "got = take (sz - length acc) (map snd (filter ?f (nd_records st c)))"
      have got: "sp_scan_node startKey (sz - length acc) (lf_begin lf1) = got"
        "sp_scan_node startKey (sz - length acc) (filter (\<lambda>sl. startKey \<le> ls_key sl) (lf_begin lf1)) = got"
        by (simp_all add: sp_scan_node_eq B filter_ascending nr got_def)
      have len: "length acc + length got \<le> sz" using True by (simp add: got_def)
      have step: "sp_scan_loop fuel env seek als startKey sz (fst c) acc st =
          (if length acc + length got < sz then sp_scan_loop fuel' env seek als startKey sz (fst d) (acc @ got) st1
           else Some (acc @ got, st1))"
        using lt True t
        by (simp add: fuel n(1) rl S(1) leaf S(6) B(2) nx got)
      have all: "acc @ map snd (filter ?f (chain_records st (c # ws))) =
          acc @ map snd (filter ?f (nd_records st c)) @ map snd (filter ?f (chain_records st (d # ys)))"
        by (simp add: Cons)
      show ?thesis
      proof (cases "length acc + length got < sz")
        case more: True
        then have full: "got = map snd (filter ?f (nd_records st c))" by (auto simp: got_def)
        have "\<exists>st'. sp_scan_loop fuel' env seek als startKey sz (fst (hd ws)) (acc @ got) st1 =
            Some (take sz ((acc @ got) @ map snd (filter ?f (chain_records st1 ws))), st') \<and>
          st_inv env st' ((pre @ [c]) @ ws) \<and> unbuffered st' \<and> fresh_leaves st' ((pre @ [c]) @ ws) \<and>
          chain_view st' ((pre @ [c]) @ ws) = chain_view st1 ((pre @ [c]) @ ws)"
          by (rule Cons.IH) (use S Cons.prems(5) Cons len fuel in auto)
        then obtain st' where "sp_scan_loop fuel' env seek als startKey sz (fst d) (acc @ got) st1 =
            Some (take sz (acc @ map snd (filter ?f (chain_records st (c # ws)))), st')"
          "st_inv env st' ?cs" "unbuffered st'" "fresh_leaves st' ?cs" "chain_view st' ?cs = chain_view st1 ?cs"
          using all full R Cons by auto
        with step more S(5) show ?thesis by auto
      next
        case False
        with len have eq: "length acc + length got = sz" by simp
        then have "take sz (acc @ map snd (filter ?f (chain_records st (c # ws)))) = acc @ got"
          by (auto simp: all got_def Cons)
        with step False S show ?thesis by auto
      qed
    qed
  qed
qed simp

end
