(* ===== verification/SPTreeRecover.thy ===== *)
theory SPTreeRecover
  imports SPTreeScan
begin

text \<open>
  Creation and recovery: both establish the invariant, and recovery rebuilds from the leaves and the persistent
  top layer a tree that stands for the same map.
\<close>

section \<open>Creation\<close>

definition raw_ok :: "bloom \<Rightarrow> bool" where
  "raw_ok b \<longleftrightarrow> length b = 32"

lemma new_leaf_ok:
  "lf_shape raw \<Longrightarrow> lf_inv env (lf_SetNext q (lf_SetPrev p ((lf_new raw)\<lparr>lf_lkey := a, lf_hkey := b\<rparr>))) \<and>
   lf_view (lf_SetNext q (lf_SetPrev p ((lf_new raw)\<lparr>lf_lkey := a, lf_hkey := b\<rparr>))) = Map.empty"
  using lf_new_inv [of raw env] by simp

lemma sp_Create_ok:
  assumes flags: "\<not> (isDram \<and> withLog)" and ne: "mh \<noteq> mt" "lh \<noteq> lt" and raw: "lf_shape rawh" "lf_shape rawt" "raw_ok rawbloom"
  shows "\<exists>st. sp_Create isDram withWriteBuffer withLog mh mt rawbloom rawbuf lh rawh lt rawt = Some st \<and>
    st_inv env st [(mh, lh), (mt, lt)] \<and> chain_view st [(mh, lh), (mt, lt)] = Map.empty \<and>
    st_enableWriteBuffer st = withWriteBuffer \<and> (\<not> withWriteBuffer \<longrightarrow> unbuffered st) \<and> fresh_leaves st [(mh, lh), (mt, lt)]"
proof -
  define hl where "hl = lf_SetNext (Some lt) (lf_SetPrev None ((lf_new rawh)\<lparr>lf_lkey := kSPTreeMinKey, lf_hkey := -1\<rparr>))"
  define tl where "tl = lf_SetNext None (lf_SetPrev (Some lh) ((lf_new rawt)\<lparr>lf_lkey := -1, lf_hkey := -1\<rparr>))"
  define hm where "hm = (ml_EnableBloomFilter (ml_new False rawbloom rawbuf))\<lparr>ml_lkey := kSPTreeMinKey, ml_hkey := -1, ml_prev := None,
    ml_next := Some mt, ml_leafNode := Some lh\<rparr>"
  define tm where "tm = (ml_EnableBloomFilter (ml_new False rawbloom rawbuf))\<lparr>ml_lkey := -1, ml_hkey := -1, ml_prev := Some mh,
    ml_next := None, ml_leafNode := Some lt\<rparr>"
  define st where "st = \<lparr>st_ml = [mh \<mapsto> hm, mt \<mapsto> tm], st_leaf = [lh \<mapsto> hl, lt \<mapsto> tl], st_head = mh, st_dummyTail = mt,
    st_bothead = lh, st_top = [kSPTreeMinKey \<mapsto> mh], st_topPmem = (if isDram then None else Some [kSPTreeMinKey \<mapsto> lh]),
    st_jobs = [], st_wal = [], st_isDram = isDram, st_enableWriteBuffer = withWriteBuffer,
    st_enableLog = (if isDram then False else withLog)\<rparr>"
  have run: "sp_Create isDram withWriteBuffer withLog mh mt rawbloom rawbuf lh rawh lt rawt = Some st"
    using flags ne
    by (auto simp: sp_Create_def Let_def mid_new_def bot_Initialize_def pmem_Initialize_def pmem_insert_def top_insert_def
        st_def hl_def tl_def hm_def tm_def ml_EnableBloomFilter_def lf_GetNext_def lf_SetNext_def lf_SetPrev_def fun_eq_iff)
  have L: "lf_inv env hl" "lf_view hl = Map.empty" using new_leaf_ok [OF raw(1)] by (auto simp: hl_def)
  have lt: "kSPTreeMinKey < -1" by code_simp
  have lkeys: "lkey_at st (mh, lh) = kSPTreeMinKey" "lkey_at st (mt, lt) = -1"
    using ne by (simp_all add: lkey_at_def st_def hm_def tm_def)
  have free: "lock_free rvl_init" by (simp add: lock_free_def rvl_init_def rvl_isLocked_def rvl_isObsolete_def)
  have view: "ml_view hm hl = Map.empty"
    by (simp add: ml_view_def hm_def L ml_EnableBloomFilter_def ml_new_def)
  have "data_ok env hm hl"
    using L lt raw(3) view
    by (simp add: data_ok_def buf_ok_def hm_def hl_def lf_SetNext_def lf_SetPrev_def ml_EnableBloomFilter_def ml_new_def
        bf_covers_def raw_ok_def)
  then have ent: "ent_ok env st None (mh, lh) (mt, lt)"
    using ne free lkeys by (simp add: ent_ok_def nd_ok_def st_def hm_def hl_def lf_SetNext_def lf_SetPrev_def
        ml_EnableBloomFilter_def ml_new_def)
  have tail: "tail_ok st (Some (mh, lh)) (mt, lt)"
    using ne free by (simp add: tail_ok_def st_def tm_def tl_def lf_SetNext_def lf_SetPrev_def ml_EnableBloomFilter_def ml_new_def)
  have "st_inv env st [(mh, lh), (mt, lt)]"
    using ent tail ne lkeys
    by (simp add: st_inv_def sp_WaitAllJobs_pmem top_of_def pmem_of_def) (simp add: st_def)
  moreover have "chain_view st [(mh, lh), (mt, lt)] = Map.empty" using view ne by (simp add: nd_view_def st_def)
  moreover have "\<not> withWriteBuffer \<longrightarrow> unbuffered st"
    by (simp add: unbuffered_def st_def hm_def tm_def ml_EnableBloomFilter_def ml_new_def)
  moreover have "lf_fresh hl" "lf_fresh tl"
    by (simp_all add: lf_fresh_def lf_NeedSort_def hl_def tl_def lf_new_def lf_SetNext_def lf_SetPrev_def)
  then have "fresh_leaves st [(mh, lh), (mt, lt)]" using ne by (simp add: fresh_leaves_def st_def)
  ultimately show ?thesis using run by (auto simp: st_def)
qed

section \<open>Chains by position\<close>

definition prev_at :: "entry option \<Rightarrow> entry list \<Rightarrow> nat \<Rightarrow> entry option" where
  "prev_at p cs i = (case i of 0 \<Rightarrow> p | Suc j \<Rightarrow> Some (cs ! j))"

lemma chain_ok_nth:
  "chain_ok env st p (cs @ [t]) \<longleftrightarrow>
    (\<forall>i < length cs. ent_ok env st (prev_at p cs i) (cs ! i) ((cs @ [t]) ! Suc i)) \<and> tail_ok st (prev_at p cs (length cs)) t"
proof (induction cs arbitrary: p)
  case (Cons c cs)
  have shift: "prev_at p (c # cs) (Suc i) = prev_at (Some c) cs i" for i by (cases i) (simp_all add: prev_at_def)
  have all: "(\<forall>i < length (c # cs). P i) \<longleftrightarrow> P 0 \<and> (\<forall>i < length cs. P (Suc i))" for P
    by (simp add: All_less_Suc2)
  have hd: "(cs @ [t]) ! 0 = hd (cs @ [t])" by (cases cs) auto
  have "chain_ok env st p ((c # cs) @ [t]) \<longleftrightarrow> ent_ok env st p c (hd (cs @ [t])) \<and> chain_ok env st (Some c) (cs @ [t])"
    by (cases cs) auto
  also have "\<dots> \<longleftrightarrow> (\<forall>i < length (c # cs). ent_ok env st (prev_at p (c # cs) i) ((c # cs) ! i) (((c # cs) @ [t]) ! Suc i)) \<and>
      tail_ok st (prev_at p (c # cs) (length (c # cs))) t"
    unfolding Cons.IH all by (simp add: shift hd) (simp add: prev_at_def)
  finally show ?case .
qed (simp add: prev_at_def)


section \<open>Recovery\<close>

definition unit_node :: "bloom \<Rightarrow> nodebuf \<Rightarrow> leaf \<Rightarrow> nat \<Rightarrow> mlnode" where
  "unit_node rawbloom rawbuf lf l = (ml_new False rawbloom rawbuf)\<lparr>ml_lkey := lf_lkey lf, ml_hkey := lf_hkey lf, ml_leafNode := Some l\<rparr>"

lemma sp_recover_units_ok:
  assumes "length ms = length units" "\<forall>kl \<in> set units. st_leaf st (snd kl) \<noteq> None" "distinct ms"
  shows "\<exists>st'. sp_recover_units units ms rawbloom rawbuf st = Some st' \<and>
    st' = st\<lparr>st_ml := st_ml st', st_top := (st_top st) ++ map_of (rev (zip (map fst units) ms))\<rparr> \<and>
    (\<forall>a. a \<notin> set ms \<longrightarrow> st_ml st' a = st_ml st a) \<and>
    (\<forall>i < length ms. st_ml st' (ms ! i) = Some (unit_node rawbloom rawbuf (the (st_leaf st (snd (units ! i)))) (snd (units ! i))))"
  using assms
proof (induction units ms rawbloom rawbuf st rule: sp_recover_units.induct)
  case (1 k l units m ms rawbloom rawbuf st)
  obtain lf where lf: "st_leaf st l = Some lf" using "1.prems"(2) by auto
  let ?st1 = "top_insert k m (st\<lparr>st_ml := (st_ml st)(m \<mapsto> unit_node rawbloom rawbuf lf l)\<rparr>)"
  have run: "sp_recover_units ((k, l) # units) (m # ms) rawbloom rawbuf st = sp_recover_units units ms rawbloom rawbuf ?st1"
    by (simp add: lf unit_node_def)
  have leaf: "st_leaf ?st1 = st_leaf st" by (simp add: top_insert_def)
  obtain st' where st': "sp_recover_units units ms rawbloom rawbuf ?st1 = Some st'"
    "st' = ?st1\<lparr>st_ml := st_ml st', st_top := (st_top ?st1) ++ map_of (rev (zip (map fst units) ms))\<rparr>"
    "\<forall>a. a \<notin> set ms \<longrightarrow> st_ml st' a = st_ml ?st1 a"
    "\<forall>i < length ms. st_ml st' (ms ! i) = Some (unit_node rawbloom rawbuf (the (st_leaf st (snd (units ! i)))) (snd (units ! i)))"
    using "1.IH" [OF lf refl] "1.prems" leaf by (auto simp: unit_node_def)
  have "m \<notin> set ms" using "1.prems"(3) by simp
  then have at: "st_ml st' m = Some (unit_node rawbloom rawbuf lf l)" using st'(3) by (simp add: top_insert_def)
  have A: "st' = st\<lparr>st_ml := st_ml st', st_top := (st_top st) ++ map_of (rev (zip (map fst ((k, l) # units)) (m # ms)))\<rparr>"
    by (subst st'(2)) (simp add: top_insert_def)
  have B: "\<forall>a. a \<notin> set (m # ms) \<longrightarrow> st_ml st' a = st_ml st a" using st'(3) by (auto simp: top_insert_def)
  have C: "\<forall>i < length (m # ms). st_ml st' ((m # ms) ! i) =
      Some (unit_node rawbloom rawbuf (the (st_leaf st (snd (((k, l) # units) ! i)))) (snd (((k, l) # units) ! i)))"
    using at st'(4) lf by (auto simp: nth_Cons split: nat.split)
  have R: "sp_recover_units ((k, l) # units) (m # ms) rawbloom rawbuf st = Some st'" using run st'(1) by simp
  show ?case by (rule exI [of _ st'], rule conjI [OF R], rule conjI [OF A], rule conjI [OF B], rule C)
qed (simp_all)

lemma sp_recover_link_ok:
  assumes "\<And>m. m \<in> set ms \<Longrightarrow> H m \<noteq> None" "distinct ms" "\<And>p. prev = Some p \<Longrightarrow> p \<notin> set ms \<and> H p \<noteq> None"
  shows "\<exists>H'. sp_recover_link prev ms H = Some (if ms = [] then prev else Some (last ms), H') \<and>
    (\<forall>a. a \<notin> set ms \<longrightarrow> prev \<noteq> Some a \<longrightarrow> H' a = H a) \<and>
    (\<forall>p. prev = Some p \<longrightarrow> H' p = Some (if ms = [] then the (H p) else (the (H p))\<lparr>ml_next := Some (hd ms)\<rparr>)) \<and>
    (\<forall>i < length ms. H' (ms ! i) = Some ((the (H (ms ! i)))\<lparr>ml_prev := (if i = 0 then prev else Some (ms ! (i - 1))),
       ml_next := (if Suc i < length ms then Some (ms ! Suc i) else ml_next (the (H (ms ! i))))\<rparr>))"
  using assms
proof (induction ms arbitrary: prev H)
  case Nil
  then show ?case by (cases prev) auto
next
  case (Cons m ms)
  obtain n where n: "H m = Some n" using Cons.prems(1) [of m] by auto
  define H1 where "H1 = H(m \<mapsto> n\<lparr>ml_prev := prev\<rparr>)"
  define H2 where "H2 = (case prev of None \<Rightarrow> H1 | Some p \<Rightarrow> H1(p \<mapsto> (the (H p))\<lparr>ml_next := Some m\<rparr>))"
  have run: "sp_recover_link prev (m # ms) H = sp_recover_link (Some m) ms H2"
    using n Cons.prems(3) by (cases prev) (auto simp: H1_def H2_def)
  have H2m: "H2 m = Some (n\<lparr>ml_prev := prev\<rparr>)" using Cons.prems(3) by (cases prev) (auto simp: H2_def H1_def)
  have H2p: "H2 p = Some ((the (H p))\<lparr>ml_next := Some m\<rparr>)" if "prev = Some p" for p using that by (simp add: H2_def)
  have H2a: "H2 a = H a" if "a \<noteq> m" "prev \<noteq> Some a" for a using that by (cases prev) (auto simp: H2_def H1_def)
  have H2s: "H2 a = H a" if "a \<in> set ms" for a
  proof (rule H2a)
    show "a \<noteq> m" using that Cons.prems(2) by auto
    show "prev \<noteq> Some a" using that Cons.prems(3) by auto
  qed
  have "\<exists>H'. sp_recover_link (Some m) ms H2 = Some (if ms = [] then Some m else Some (last ms), H') \<and>
    (\<forall>a. a \<notin> set ms \<longrightarrow> Some m \<noteq> Some a \<longrightarrow> H' a = H2 a) \<and>
    (\<forall>p. Some m = Some p \<longrightarrow> H' p = Some (if ms = [] then the (H2 p) else (the (H2 p))\<lparr>ml_next := Some (hd ms)\<rparr>)) \<and>
    (\<forall>i < length ms. H' (ms ! i) = Some ((the (H2 (ms ! i)))\<lparr>ml_prev := (if i = 0 then Some m else Some (ms ! (i - 1))),
       ml_next := (if Suc i < length ms then Some (ms ! Suc i) else ml_next (the (H2 (ms ! i))))\<rparr>))"
    by (rule Cons.IH) (use Cons.prems H2s H2m in auto)
  then obtain H' where H': "sp_recover_link (Some m) ms H2 = Some (if ms = [] then Some m else Some (last ms), H')"
    "\<And>a. a \<notin> set ms \<Longrightarrow> m \<noteq> a \<Longrightarrow> H' a = H2 a"
    "H' m = Some (if ms = [] then the (H2 m) else (the (H2 m))\<lparr>ml_next := Some (hd ms)\<rparr>)"
    "\<And>i. i < length ms \<Longrightarrow> H' (ms ! i) = Some ((the (H2 (ms ! i)))\<lparr>ml_prev := (if i = 0 then Some m else Some (ms ! (i - 1))),
       ml_next := (if Suc i < length ms then Some (ms ! Suc i) else ml_next (the (H2 (ms ! i))))\<rparr>)"
    by auto
  have "H' a = H a" if "a \<notin> set (m # ms)" "prev \<noteq> Some a" for a using that H'(2) [of a] H2a [of a] by auto
  moreover have "H' p = Some ((the (H p))\<lparr>ml_next := Some m\<rparr>)" if "prev = Some p" for p
    using that Cons.prems(3) [OF that] H'(2) [of p] H2p [OF that] by auto
  moreover have "H' ((m # ms) ! i) = Some ((the (H ((m # ms) ! i)))\<lparr>ml_prev := (if i = 0 then prev else Some ((m # ms) ! (i - 1))),
       ml_next := (if Suc i < length (m # ms) then Some ((m # ms) ! Suc i) else ml_next (the (H ((m # ms) ! i))))\<rparr>)"
    if "i < length (m # ms)" for i
  proof (cases i)
    case 0
    then show ?thesis using H'(3) H2m n by (cases ms) auto
  next
    case (Suc j)
    then have j: "j < length ms" using that by simp
    then have "H2 (ms ! j) = H (ms ! j)" by (intro H2s) simp
    then show ?thesis using H'(4) [OF j] Suc by (auto simp: nth_Cons split: nat.split)
  qed
  ultimately show ?case using run H'(1) by auto
qed


lemma sorted_map_of_unique:
  fixes xs ys :: "(u64 \<times> nat) list"
  assumes "sorted_wrt (<) (map fst xs)" "sorted_wrt (<) (map fst ys)" "map_of xs = map_of ys"
  shows "xs = ys"
proof -
  have d: "distinct (map fst xs)" "distinct (map fst ys)" "sorted (map fst xs)" "sorted (map fst ys)"
    using assms(1,2) by (simp_all add: strict_sorted_iff)
  have "(k, v) \<in> set xs \<longleftrightarrow> (k, v) \<in> set ys" for k v
    using map_of_eq_Some_iff [OF d(1), of k v] map_of_eq_Some_iff [OF d(2), of k v] assms(3) by simp
  then have set: "set xs = set ys" by (intro set_eqI) (simp add: split_paired_all)
  have "inj_on fst (set xs \<union> set ys)" using d(1) set by (simp add: distinct_map)
  then show ?thesis using d set by (intro map_sorted_distinct_set_unique [of fst xs ys]) auto
qed

text \<open>The state that \<open>Recover\<close> leaves, by position.\<close>

lemma sp_Recover_run:
  assumes len: "length ms = length units" "units \<noteq> []" and lv: "\<forall>kl \<in> set units. leaves (snd kl) \<noteq> None"
    and d: "distinct (mh # mt # ms)"
  shows "\<exists>st'. sp_Recover wb wl mh mt rawbloom rawbuf units ms pmem lhead leaves = Some st' \<and>
    (\<forall>i < length ms. st_ml st' (ms ! i) = Some ((unit_node rawbloom rawbuf (the (leaves (snd (units ! i)))) (snd (units ! i)))
       \<lparr>ml_prev := (if i = 0 then None else Some (ms ! (i - 1))), ml_next := Some (if Suc i < length ms then ms ! Suc i else mt)\<rparr>)) \<and>
    st_ml st' mt = Some ((ml_EnableBloomFilter (ml_new False rawbloom rawbuf))
       \<lparr>ml_lkey := -1, ml_hkey := -1, ml_prev := Some (last ms), ml_next := None\<rparr>) \<and>
    st_leaf st' = leaves \<and> st_head st' = hd ms \<and> st_dummyTail st' = mt \<and> st_bothead st' = lhead \<and>
    st_top st' = map_of (rev (zip (map fst units) ms)) \<and> st_topPmem st' = Some pmem \<and> st_jobs st' = [] \<and>
    st_enableWriteBuffer st' = wb"
proof -
  define st0 where "st0 = \<lparr>st_ml = mid_new mh mt rawbloom rawbuf, st_leaf = leaves, st_head = mh, st_dummyTail = mt,
    st_bothead = lhead, st_top = Map.empty, st_topPmem = Some pmem, st_jobs = [], st_wal = [],
    st_isDram = False, st_enableWriteBuffer = wb, st_enableLog = wl\<rparr>"
  have ms: "ms \<noteq> []" "distinct ms" "mt \<notin> set ms" using len d by auto
  let ?node = "\<lambda>i. unit_node rawbloom rawbuf (the (leaves (snd (units ! i)))) (snd (units ! i))"
  have lv0: "\<forall>kl \<in> set units. st_leaf st0 (snd kl) \<noteq> None" using lv by (simp add: st0_def)
  obtain st1 where U: "sp_recover_units units ms rawbloom rawbuf st0 = Some st1"
    "st1 = st0\<lparr>st_ml := st_ml st1, st_top := (st_top st0) ++ map_of (rev (zip (map fst units) ms))\<rparr>"
    "\<forall>a. a \<notin> set ms \<longrightarrow> st_ml st1 a = st_ml st0 a"
    "\<forall>i < length ms. st_ml st1 (ms ! i) = Some (?node i)"
    using sp_recover_units_ok [of ms units st0 rawbloom rawbuf, OF len(1) lv0 ms(2)] by (auto simp: st0_def)
  let ?H = "st_ml st1"
  obtain H' where L: "sp_recover_link None ms ?H = Some (Some (last ms), H')"
    "\<forall>a. a \<notin> set ms \<longrightarrow> H' a = ?H a"
    "\<forall>i < length ms. H' (ms ! i) = Some ((the (?H (ms ! i)))\<lparr>ml_prev := (if i = 0 then None else Some (ms ! (i - 1))),
       ml_next := (if Suc i < length ms then Some (ms ! Suc i) else ml_next (the (?H (ms ! i))))\<rparr>)"
    using sp_recover_link_ok [of ms ?H None] U(4) ms by (auto simp: in_set_conv_nth)
  let ?last = "length ms - 1"
  have last: "last ms = ms ! ?last" "?last < length ms" using ms by (auto simp: last_conv_nth)
  obtain pn where pn: "H' (last ms) = Some pn" using L(3) last by auto
  define H1 where "H1 = H'(last ms \<mapsto> pn\<lparr>ml_next := Some mt\<rparr>)"
  have mt: "H1 mt = Some ((ml_EnableBloomFilter (ml_new False rawbloom rawbuf))
      \<lparr>ml_lkey := -1, ml_hkey := -1, ml_prev := Some mh, ml_next := None\<rparr>)"
    using ms L(2) U(3) d by (auto simp: H1_def st0_def mid_new_def Let_def)
  define st' where "st' = st1\<lparr>st_ml := H1(mt \<mapsto> (the (H1 mt))\<lparr>ml_prev := Some (last ms)\<rparr>), st_head := hd ms\<rparr>"
  have run: "sp_Recover wb wl mh mt rawbloom rawbuf units ms pmem lhead leaves = Some st'"
    using U(1) L(1) pn by (simp add: sp_Recover_def st0_def [symmetric] H1_def [symmetric] st'_def Let_def mt del: fun_upd_apply)
  have "st_ml st' (ms ! i) = Some ((?node i)\<lparr>ml_prev := (if i = 0 then None else Some (ms ! (i - 1))),
      ml_next := Some (if Suc i < length ms then ms ! Suc i else mt)\<rparr>)" if i: "i < length ms" for i
  proof -
    have "ms ! i \<noteq> mt" using ms(3) i by (auto simp: in_set_conv_nth)
    then have a: "st_ml st' (ms ! i) = H1 (ms ! i)" by (simp add: st'_def)
    show ?thesis
    proof (cases "Suc i < length ms")
      case True
      then have "ms ! i \<noteq> last ms" using last ms(2) i by (simp add: nth_eq_iff_index_eq)
      then show ?thesis using a L(3) U(4) i True by (simp add: H1_def)
    next
      case False
      then have "i = ?last" using i by simp
      then show ?thesis using a L(3) U(4) i False pn last by (auto simp: H1_def)
    qed
  qed
  moreover have "st_ml st' mt = Some ((ml_EnableBloomFilter (ml_new False rawbloom rawbuf))
       \<lparr>ml_lkey := -1, ml_hkey := -1, ml_prev := Some (last ms), ml_next := None\<rparr>)"
    by (simp add: st'_def mt)
  moreover have "st_leaf st' = leaves \<and> st_head st' = hd ms \<and> st_dummyTail st' = mt \<and> st_bothead st' = lhead \<and>
    st_top st' = map_of (rev (zip (map fst units) ms)) \<and> st_topPmem st' = Some pmem \<and> st_jobs st' = [] \<and>
    st_enableWriteBuffer st' = wb"
    unfolding st'_def by (subst (1 2 3 4 5 6 7) U(2)) (simp add: st0_def)
  ultimately show ?thesis using run by blast
qed


lemma distinct_map_of_rev': "distinct (map fst xs) \<Longrightarrow> map_of (rev xs) = map_of xs"
proof (induction xs)
  case (Cons x xs)
  then have "map_of (rev (x # xs)) = [fst x \<mapsto> snd x] ++ map_of xs" by (cases x) simp
  also have "\<dots> = map_of (x # xs)"
    using Cons.prems by (cases x) (auto simp: fun_eq_iff map_add_def dom_map_of_conv_image_fst [symmetric] split: option.split)
  finally show ?case .
qed simp

lemma zip_maps: "zip (map f xs) (map g xs) = map (\<lambda>x. (f x, g x)) xs"
  by (induction xs) auto

lemma foldr_add_cong: "map (nd_view st') cs' = map (nd_view st) cs \<Longrightarrow>
   foldr (\<lambda>c m. m ++ nd_view st' c) cs' M = foldr (\<lambda>c m. m ++ nd_view st c) cs M"
proof (induction cs' arbitrary: cs)
  case (Cons c cs')
  then show ?case by (cases cs) auto
qed simp

lemma sp_Recover_ok:
  assumes inv: "st_inv env st cs" and plain: "unbuffered st"
    and pm: "st_topPmem (sp_WaitAllJobs st) = Some pmem" and exist: "st_topPmem st \<noteq> None"
    and units: "sorted_wrt (<) (map fst units)" "map_of units = pmem"
    and ms: "length ms = length units" "distinct (mh # mt # ms)"
  shows "\<exists>st' cs'. sp_Recover wb wl mh mt rawbloom rawbuf units ms pmem (st_bothead st) (st_leaf st) = Some st' \<and>
    st_inv env st' cs' \<and> chain_view st' cs' = chain_view st cs"
proof -
  define es where "es = butlast cs"
  define t where "t = last cs"
  have cs: "cs = es @ [t]" and ne: "es \<noteq> []" using inv by (auto simp: st_inv_def es_def t_def) (cases cs; auto)+
  have ch: "chain_ok env st None (es @ [t])" using inv by (simp add: st_inv_def cs)
  have sorted: "sorted_wrt (<) (map (lkey_at st) es)" using chain_sorted [OF ch] by (simp add: sorted_wrt_append)
  have "pmem = pmem_of st cs" using inv exist pm by (auto simp: st_inv_def)
  then have "map_of units = map_of (map (\<lambda>c. (lkey_at st c, snd c)) es)" using units(2) by (simp add: pmem_of_def cs)
  then have U: "units = map (\<lambda>c. (lkey_at st c, snd c)) es"
    by (intro sorted_map_of_unique units(1)) (use sorted in \<open>simp_all add: comp_def\<close>)
  have len: "length ms = length es" using ms(1) U by simp
  have node: "\<exists>n lf. st_ml st (fst (es ! i)) = Some n \<and> st_leaf st (snd (es ! i)) = Some lf \<and>
      nd_ok env (es ! i) n lf (prev_at None es i) ((es @ [t]) ! Suc i) \<and> ml_hkey n = lkey_at st ((es @ [t]) ! Suc i)"
    if "i < length es" for i
    using ch that unfolding chain_ok_nth by (auto simp: ent_ok_def)
  have tail: "tail_ok st (prev_at None es (length es)) t" using ch unfolding chain_ok_nth by blast
  have lv: "st_leaf st l \<noteq> None" if "(k, l) \<in> set units" for k l
  proof -
    from that obtain i where "i < length es" "l = snd (es ! i)" by (auto simp: U in_set_conv_nth)
    with node [of i] show ?thesis by auto
  qed
  have ue: "units \<noteq> []" using U ne by simp
  have lvs: "\<forall>kl \<in> set units. st_leaf st (snd kl) \<noteq> None" using lv by fastforce
  let ?node = "\<lambda>i. unit_node rawbloom rawbuf (the (st_leaf st (snd (units ! i)))) (snd (units ! i))"
  obtain st' where run: "sp_Recover wb wl mh mt rawbloom rawbuf units ms pmem (st_bothead st) (st_leaf st) = Some st'"
    and N: "\<forall>i < length ms. st_ml st' (ms ! i) = Some ((?node i)
       \<lparr>ml_prev := (if i = 0 then None else Some (ms ! (i - 1))), ml_next := Some (if Suc i < length ms then ms ! Suc i else mt)\<rparr>)"
    and T: "st_ml st' mt = Some ((ml_EnableBloomFilter (ml_new False rawbloom rawbuf))
       \<lparr>ml_lkey := -1, ml_hkey := -1, ml_prev := Some (last ms), ml_next := None\<rparr>)"
    and F: "st_leaf st' = st_leaf st \<and> st_head st' = hd ms \<and> st_dummyTail st' = mt \<and> st_bothead st' = st_bothead st \<and>
      st_top st' = map_of (rev (zip (map fst units) ms)) \<and> st_topPmem st' = Some pmem \<and> st_jobs st' = [] \<and>
      st_enableWriteBuffer st' = wb"
    using sp_Recover_run [OF ms(1) ue lvs ms(2), where wb = wb and wl = wl and rawbloom = rawbloom and rawbuf = rawbuf and pmem = pmem and lhead = "st_bothead st"] by blast
  define es' where "es' = zip ms (map snd es)"
  define t' where "t' = (mt, snd t)"
  have len': "length es' = length es" by (simp add: es'_def len)
  have at: "es' ! i = (ms ! i, snd (es ! i))" if "i < length es" for i using that by (simp add: es'_def len)
  have nth': "(es' @ [t']) ! j = ((ms @ [mt]) ! j, snd ((es @ [t]) ! j))" if "j \<le> length es" for j
    using that at [of j] by (auto simp: nth_append len len' t'_def)
  have data: "data_ok env n lf \<and> ml_view n lf = lf_view lf \<and> lf_lkey lf = lkey_at st (es ! i) \<and>
      lf_hkey lf = lkey_at st ((es @ [t]) ! Suc i) \<and> lf_inv env lf"
    if "i < length es" "st_ml st (fst (es ! i)) = Some n" "st_leaf st (snd (es ! i)) = Some lf" for i n lf
  proof -
    have "data_ok env n lf" "ml_hkey n = lkey_at st ((es @ [t]) ! Suc i)" using node [OF that(1)] that by (auto simp: nd_ok_def)
    moreover have "ml_type n = MLNodeTypeNoBuffer" by (rule unbufferedD [OF plain that(2)])
    moreover have "ml_view n lf = lf_view lf" by (simp add: ml_view_def \<open>ml_type n = MLNodeTypeNoBuffer\<close>)
    moreover have "ml_lkey n = lkey_at st (es ! i)" using that(2) by (simp add: lkey_at_def)
    moreover have "ml_lkey n = lf_lkey lf \<and> ml_hkey n = lf_hkey lf \<and> lf_inv env lf"
      using \<open>data_ok env n lf\<close> unfolding data_ok_def by blast
    ultimately show ?thesis by auto
  qed
  have lkt: "lkey_at st t = -1" using tail by (auto simp: tail_ok_def lkey_at_def)
  have lk: "lkey_at st' ((es' @ [t']) ! j) = lkey_at st ((es @ [t]) ! j)" if j: "j \<le> length es" for j
  proof (cases "j < length es")
    case True
    obtain n lf where n: "st_ml st (fst (es ! j)) = Some n" "st_leaf st (snd (es ! j)) = Some lf" using node [OF True] by blast
    then show ?thesis
      using data [OF True n] True N nth' [OF j] by (simp add: lkey_at_def [of st'] nth_append len U unit_node_def)
  next
    case False
    then have "j = length es" using j by simp
    then show ?thesis using nth' [OF j] T lkt by (simp add: nth_append len lkey_at_def [of st'])
  qed
  have free: "lock_free rvl_init" by (simp add: lock_free_def rvl_init_def rvl_isLocked_def rvl_isObsolete_def)
  have ent: "ent_ok env st' (prev_at None es' i) (es' ! i) ((es' @ [t']) ! Suc i) \<and> nd_view st' (es' ! i) = nd_view st (es ! i)"
    if i: "i < length es" for i
  proof -
    obtain n lf where n: "st_ml st (fst (es ! i)) = Some n" "st_leaf st (snd (es ! i)) = Some lf"
      "nd_ok env (es ! i) n lf (prev_at None es i) ((es @ [t]) ! Suc i)" using node [OF i] by blast
    define n' where "n' = (unit_node rawbloom rawbuf lf (snd (es ! i)))
      \<lparr>ml_prev := (if i = 0 then None else Some (ms ! (i - 1))), ml_next := Some (if Suc i < length ms then ms ! Suc i else mt)\<rparr>"
    have n': "st_ml st' (ms ! i) = Some n'" using N i n(2) by (simp add: len U n'_def)
    note D = data [OF i n(1,2)]
    have view: "ml_view n' lf = lf_view lf" by (simp add: n'_def unit_node_def ml_view_def ml_new_def)
    have "data_ok env n' lf"
      using D view unfolding data_ok_def buf_ok_def n'_def unit_node_def ml_new_def by (elim conjE, intro conjI) simp_all
    moreover have "map_option fst (prev_at None es' i) = (if i = 0 then None else Some (ms ! (i - 1)))"
      "map_option snd (prev_at None es' i) = map_option snd (prev_at None es i)"
      using i at by (auto simp: prev_at_def split: nat.split)
    moreover have "ml_lock n' = rvl_init" by (simp add: n'_def unit_node_def ml_new_def)
    moreover have "(es' @ [t']) ! Suc i = ((ms @ [mt]) ! Suc i, snd ((es @ [t]) ! Suc i))" using i by (intro nth') simp
    ultimately have nd: "nd_ok env (es' ! i) n' lf (prev_at None es' i) ((es' @ [t']) ! Suc i)"
      using n(3) free at [OF i] i by (auto simp: nd_ok_def n'_def unit_node_def nth_append len)
    have "ml_hkey n' = lkey_at st' ((es' @ [t']) ! Suc i)"
      using D i lk [of "Suc i"] by (simp add: n'_def unit_node_def)
    moreover have "nd_view st' (es' ! i) = nd_view st (es ! i)"
      using D view n n' at [OF i] F by (simp add: nd_view_def)
    ultimately show ?thesis using nd n' n(2) at [OF i] F by (auto simp: ent_ok_def)
  qed
  have msl: "last ms = ms ! (length es - 1)" using ne len by (metis last_conv_nth length_0_conv)
  have "tail_ok st' (prev_at None es' (length es')) t'"
    using tail T F ne at [of "length es - 1"] free msl len'
    by (cases "length es") (auto simp: tail_ok_def prev_at_def t'_def ml_EnableBloomFilter_def ml_new_def)
  then have ch': "chain_ok env st' None (es' @ [t'])" unfolding chain_ok_nth using ent len' by simp
  have "map (nd_view st') es' = map (nd_view st) es" by (rule nth_equalityI) (use ent len' in auto)
  then have view: "chain_view st' (es' @ [t']) = chain_view st cs"
    unfolding chain_view_def cs butlast_snoc by (rule foldr_add_cong)
  have "lkey_at st' (es' ! i) = lkey_at st (es ! i)" if "i < length es" for i
    using lk [of i] that len' by (simp add: nth_append)
  then have lks: "map (lkey_at st') es' = map (lkey_at st) es" by (intro nth_equalityI) (simp_all add: len')
  have fsts: "map fst es' = ms" "map snd es' = map snd es" by (simp_all add: es'_def len)
  have z: "map (\<lambda>c. (lkey_at st' c, f c)) es' = zip (map (lkey_at st) es) (map f es')" for f :: "entry \<Rightarrow> nat"
    unfolding lks [symmetric] by (simp add: zip_maps)
  have "distinct (map fst units)" using units(1) by (simp add: strict_sorted_iff)
  then have top: "st_top st' = top_of st' (es' @ [t'])"
    using F ms(1) by (simp add: top_of_def z fsts U comp_def distinct_map_of_rev')
  have pmem: "pmem = pmem_of st' (es' @ [t'])"
    using units(2) by (simp add: pmem_of_def z fsts U zip_maps)
  have dist: "distinct (map fst (es' @ [t']))" "distinct (map snd (es' @ [t']))"
    using inv ms(2) fsts by (auto simp: st_inv_def cs t'_def)
  have hd: "hd (es' @ [t']) = es' ! 0" "hd (es @ [t]) = es ! 0" using ne len' by (auto simp: hd_append hd_conv_nth)
  have "ms ! 0 = hd ms" using ne len by (cases ms) auto
  then have hk: "lkey_at st' (hd (es' @ [t'])) = kSPTreeMinKey" "fst (hd (es' @ [t'])) = hd ms" "snd (hd (es' @ [t'])) = st_bothead st"
    using inv lk [of 0] hd at [of 0] ne len len' by (auto simp: st_inv_def cs nth_append hd_conv_nth)
  have "st_inv env st' (es' @ [t'])"
    unfolding st_inv_def sp_WaitAllJobs_pmem
    using ch' dist hk F top pmem ne len' by (simp add: t'_def)
  then show ?thesis using run view by blast
qed

end
