(* ===== verification/SPTreeProps.thy ===== *)
theory SPTreeProps
  imports SPTreeRecover
begin

text \<open>
  The SPTree as a whole: the states reachable by creating a tree and calling its operations, and what the
  operations answer there.
\<close>

section \<open>Reachable states\<close>

text \<open>
  The calls one thread makes on a tree without write buffers, with the map they build. Keys are from
  \<open>kSPTreeMinKey\<close> up to below the key of the dummy tail, and 0 is not a value.
\<close>

inductive sp_reach :: "sp_env \<Rightarrow> sp_seek \<Rightarrow> sptree \<Rightarrow> (u64 \<rightharpoonup> u64) \<Rightarrow> bool" for env seek where
  create: "sp_reach env seek st Map.empty"
    if "sp_Create isDram False withLog mh mt rawbloom rawbuf lh rawh lt rawt = Some st" "mh \<noteq> mt" "lh \<noteq> lt"
      "lf_shape rawh" "lf_shape rawt" "raw_ok rawbloom"
| insert: "sp_reach env seek st' (V(k \<mapsto> v))"
    if "sp_reach env seek st V" "kSPTreeMinKey \<le> k" "k < -1" "v \<noteq> 0" "alloc_ok st al"
      "sp_insert env seek al k v st = Some (b, st')"
| remove: "sp_reach env seek st' (V(k := None))"
    if "sp_reach env seek st V" "kSPTreeMinKey \<le> k" "k < -1" "sp_remove env seek k st = Some (b, st')"

lemma insert_clear_plain: "unbuffered st \<Longrightarrow> insert_clear st cs k"
  unfolding insert_clear_def unbuffered_def by (metis MLNodeType.distinct(1))

lemma sp_reach_inv:
  assumes "sp_reach env seek st V" and seek: "seek_ok seek"
  shows "unbuffered st \<and> 0 \<notin> ran V \<and> (\<exists>cs. st_inv env st cs \<and> chain_view st cs = V)"
  using assms(1)
proof (induction rule: sp_reach.induct)
  case (create isDram withLog mh mt rawbloom rawbuf lh rawh lt rawt st)
  then have "\<not> (isDram \<and> withLog)" by (auto simp: sp_Create_def)
  from sp_Create_ok [OF this create(2-6), where env = env and withWriteBuffer = False and rawbuf = rawbuf] create(1) show ?case by (intro conjI) auto
next
  case (insert st V k v al b st')
  then obtain cs where cs: "st_inv env st cs" "chain_view st cs = V" and plain: "unbuffered st" by blast
  obtain st1 cs1 where "sp_insert env seek al k v st = Some (True, st1)" "st_inv env st1 cs1" "chain_view st1 cs1 = V(k \<mapsto> v)"
    using sp_insert_ok [OF cs(1) seek insert.hyps(2,3,5) insert_clear_plain [OF plain], of v] cs(2) by blast
  moreover have "unbuffered st'" using all_resultsD [OF unbuffered_insert [OF plain] insert.hyps(6)] by simp
  moreover have "0 \<notin> ran (V(k \<mapsto> v))" using insert.IH insert.hyps(4) by (auto simp: ran_def split: if_splits)
  ultimately show ?case using insert.hyps(6) by (auto simp del: fun_upd_apply)
next
  case (remove st V k b st')
  then obtain cs where cs: "st_inv env st cs" "chain_view st cs = V" and plain: "unbuffered st" by blast
  obtain st1 cs1 b' where "sp_remove env seek k st = Some (b', st1)" "st_inv env st1 cs1" "chain_view st1 cs1 = V(k := None)"
    using sp_remove_ok [OF cs(1) seek remove.hyps(2,3) plain] cs(2) by blast
  moreover have "unbuffered st'" using all_resultsD [OF unbuffered_remove [OF plain] remove.hyps(4)] by simp
  moreover have "0 \<notin> ran (V(k := None))" using remove.IH by (auto simp: ran_def split: if_splits)
  ultimately show ?case using remove.hyps(4) by (auto simp del: fun_upd_apply)
qed

section \<open>A concrete tree\<close>

definition sp_seek_sample :: sp_seek where
  "sp_seek_sample T k = T kSPTreeMinKey"

lemma sp_seek_sample_ok: "seek_ok sp_seek_sample"
  by (auto simp: seek_ok_def sp_seek_sample_def ran_def)

definition nb_raw_sample :: nodebuf where
  "nb_raw_sample = \<lparr>nb_valid = 0, nb_tags = replicate 16 0, nb_slots = replicate 14 \<lparr>ns_key = 0, ns_val = 0\<rparr>\<rparr>"

definition sp_alloc_sample :: sp_alloc where
  "sp_alloc_sample = \<lparr>al_ml = 3, al_leaf = 12, al_rawleaf = lf_raw_sample, al_rawbloom = replicate 32 0, al_rawbuf = nb_raw_sample\<rparr>"

definition sp_create_sample :: "sptree option" where
  "sp_create_sample = sp_Create False False False 1 2 (replicate 32 0) nb_raw_sample 10 lf_raw_sample 11 lf_raw_sample"

lemma sp_create_sample_ok:
  "\<exists>st. sp_create_sample = Some st \<and> st_inv env st [(1, 10), (2, 11)] \<and> chain_view st [(1, 10), (2, 11)] = Map.empty \<and>
    unbuffered st \<and> fresh_leaves st [(1, 10), (2, 11)] \<and> alloc_ok st sp_alloc_sample \<and> sp_reach env seek st Map.empty \<and>
    st_topPmem st \<noteq> None"
proof -
  obtain st where st: "sp_create_sample = Some st" "st_inv env st [(1, 10), (2, 11)]" "chain_view st [(1, 10), (2, 11)] = Map.empty"
      "unbuffered st" "fresh_leaves st [(1, 10), (2, 11)]"
    using sp_Create_ok [of False False 1 2 10 11 lf_raw_sample lf_raw_sample "replicate 32 0",
      where env = env and withWriteBuffer = False and rawbuf = nb_raw_sample]
      lf_raw_sample_shape by (auto simp: sp_create_sample_def raw_ok_def)
  have "st_topPmem st \<noteq> None \<and> dom (st_ml st) = {1, 2} \<and> dom (st_leaf st) = {10, 11}"
    using st(1) by (auto simp: sp_create_sample_def sp_Create_def Let_def mid_new_def bot_Initialize_def pmem_Initialize_def
        pmem_insert_def top_insert_def lf_GetNext_def lf_SetNext_def lf_SetPrev_def split: if_splits)
  moreover from this have "alloc_ok st sp_alloc_sample"
    using lf_raw_sample_shape by (simp add: alloc_ok_def sp_alloc_sample_def nb_raw_sample_def)
  moreover have "sp_reach env seek st Map.empty"
    by (rule sp_reach.create [OF st(1) [unfolded sp_create_sample_def]]) (simp_all add: lf_raw_sample_shape raw_ok_def)
  ultimately show ?thesis using st by blast
qed

lemma lf_Insert_fresh:
  assumes "lf_fresh lf" "lf_cur_version lf < -1" "lf_inv env lf" "lf_Insert env k v lf = ((True, i), lf')"
  shows "lf_fresh lf'"
proof (cases "lf_probe env k lf")
  case None
  then have "lf_cur_version lf' = lf_cur_version lf + 1" "lf_sort_version lf' = lf_sort_version lf"
    using assms(4) by (auto simp: lf_Insert_def Let_def lf_SetValid_def lf_store_def split: if_splits)
  then show ?thesis using lf_bump_fresh [OF assms(1,2)] by simp
next
  case (Some j)
  then have lf': "lf' = lf_overwrite j v lf" using assms(4) by (auto simp: lf_Insert_def)
  then show ?thesis
    by (intro lf_keys_fresh [OF assms(1)]; cases "j < length (lf_slots lf)")
      (auto simp: lf_overwrite_def nth_list_update list_update_beyond)
qed

lemma sp_fresh_sample:
  "\<exists>st. sp_reach sp_env_sample sp_seek_sample st [5 \<mapsto> 50] \<and> st_inv sp_env_sample st [(1, 10), (2, 11)] \<and>
    chain_view st [(1, 10), (2, 11)] = [5 \<mapsto> 50] \<and> unbuffered st \<and> fresh_leaves st [(1, 10), (2, 11)] \<and> st_topPmem st \<noteq> None"
proof -
  let ?cs = "[(1, 10), (2, 11)] :: entry list"
  obtain st where st: "sp_create_sample = Some st" "st_inv sp_env_sample st ?cs" "chain_view st ?cs = Map.empty"
      "unbuffered st" "fresh_leaves st ?cs" "alloc_ok st sp_alloc_sample" "sp_reach sp_env_sample sp_seek_sample st Map.empty" "st_topPmem st \<noteq> None"
    using sp_create_sample_ok by blast
  have k: "kSPTreeMinKey \<le> 5" "(5 :: u64) < -1" by code_simp+
  obtain xs c d ys n lf where cs: "?cs = xs @ c # d # ys" and n: "st_ml st (fst c) = Some n" "st_leaf st (snd c) = Some lf"
    "nd_ok sp_env_sample c n lf (last_opt None xs) d" "ml_hkey n = lkey_at st d" "ml_lkey n = lkey_at st c"
    and r: "ml_lkey n \<le> 5" "5 < ml_hkey n" and j: "sp_jumpToMiddleLayer sp_seek_sample 5 st = Some (fst c, ml_lock n)"
    using st_locate [OF st(2) sp_seek_sample_ok k] by blast
  from cs have x: "xs = []" "c = (1, 10)" "d = (2, 11)" "ys = []" by (cases xs; auto simp: Cons_eq_append_conv)+
  have t: "ml_type n = MLNodeTypeNoBuffer" by (rule unbufferedD [OF st(4) n(1)])
  have lf: "lf_valid lf = 0 \<and> lf_cur_version lf = 1" and lf2: "\<exists>tl. st_leaf st 11 = Some tl"
    using st(1) n(2) x by (auto simp: sp_create_sample_def sp_Create_def Let_def mid_new_def bot_Initialize_def pmem_Initialize_def
        pmem_insert_def top_insert_def lf_GetNext_def lf_SetNext_def lf_SetPrev_def)
  have linv: "lf_inv sp_env_sample lf" using n(3) by (simp add: nd_ok_def data_ok_def)
  obtain b i lf' where ins: "lf_Insert sp_env_sample 5 50 lf = ((b, i), lf')" by (metis prod.exhaust)
  have "\<not> lf_Full lf" using lf by (simp add: lf_Full_def popcount_def bits_of_def)
  then have b: "b" using lf_Insert_ok [OF linv ins] by (cases b) auto
  then have ins': "lf_Insert sp_env_sample 5 50 lf = ((True, i), lf')" using ins by simp
  obtain st' where st': "sp_insert sp_env_sample sp_seek_sample sp_alloc_sample 5 50 st = Some (True, st')"
      "st_inv sp_env_sample st' ?cs" "chain_view st' ?cs = (chain_view st ?cs)(5 \<mapsto> 50)" "st_leaf st' = (st_leaf st)(snd c \<mapsto> lf')" "st_topPmem st' = st_topPmem st"
    using sp_insert_leaf [OF st(2) cs n r j t ins', of sp_alloc_sample] by blast
  have "lf_fresh lf" using st(5) n(2) x by (simp add: fresh_leaves_def)
  moreover have "lf_cur_version lf < -1" using lf by (simp only:) code_simp
  ultimately have "lf_fresh lf'" by (rule lf_Insert_fresh [OF _ _ linv ins'])
  then have "fresh_leaves st' ?cs" using st(5) st'(4) x by (auto simp: fresh_leaves_def)
  moreover have "unbuffered st'" using all_resultsD [OF unbuffered_insert [OF st(4)] st'(1)] by simp
  moreover have "sp_reach sp_env_sample sp_seek_sample st' [5 \<mapsto> 50]"
    by (rule sp_reach.insert [OF st(7) k _ st(6) st'(1)]) simp
  ultimately show ?thesis using st'(2,3,5) st(3,8) by auto
qed

lemma sp_reach_sample: "\<exists>st. sp_reach sp_env_sample sp_seek_sample st [5 \<mapsto> 50]"
  using sp_fresh_sample by blast

section \<open>Properties\<close>

text \<open>
  C1: On a tree without write buffers every reachable state stands for the map its calls built: a lookup answers
  the value of the key, or 0 for a key that is not there, and a removal answers whether the key was there.
\<close>

theorem sptree_refines_map:
  assumes "sp_reach env seek st V" "seek_ok seek" "kSPTreeMinKey \<le> k" "k < -1"
  shows "sp_lookup env seek k st = Some (case V k of Some v \<Rightarrow> v | None \<Rightarrow> 0) \<and>
    (\<exists>st'. sp_remove env seek k st = Some (V k \<noteq> None, st'))"
proof -
  obtain cs where cs: "st_inv env st cs" "chain_view st cs = V" and plain: "unbuffered st" "0 \<notin> ran V"
    using sp_reach_inv [OF assms(1,2)] by blast
  have "V k \<noteq> Some 0" using plain(2) by (auto simp: ran_def)
  then show ?thesis
    using sp_lookup_ok [OF cs(1) assms(2-4)] sp_remove_ok [OF cs(1) assms(2-4) plain(1)] cs(2) by auto
qed

theorem sptree_refines_map_witness:
  "\<exists>st. sp_reach sp_env_sample sp_seek_sample st [5 \<mapsto> 50] \<and> sp_lookup sp_env_sample sp_seek_sample 5 st = Some 50 \<and>
    sp_lookup sp_env_sample sp_seek_sample 6 st = Some 0 \<and> (\<exists>st'. sp_remove sp_env_sample sp_seek_sample 5 st = Some (True, st'))"
proof -
  obtain st where st: "sp_reach sp_env_sample sp_seek_sample st [5 \<mapsto> 50]" using sp_reach_sample by blast
  have k: "kSPTreeMinKey \<le> 5" "(5 :: u64) < -1" "kSPTreeMinKey \<le> 6" "(6 :: u64) < -1" by code_simp+
  from sptree_refines_map [OF st sp_seek_sample_ok k(1,2)] sptree_refines_map [OF st sp_seek_sample_ok k(3,4)] st
  show ?thesis by auto
qed

text \<open>
  C7: No call gets stuck: in every reachable state an insertion with fresh memory, a lookup and a removal return,
  that is, no lock is left behind that would keep a retry loop going, no pointer is missing and the walk of the
  middle layer finds its node.
\<close>

theorem sptree_calls_return:
  assumes "sp_reach env seek st V" "seek_ok seek" "kSPTreeMinKey \<le> k" "k < -1" "alloc_ok st al"
  shows "\<exists>st1 b st2 u. sp_insert env seek al k v st = Some (True, st1) \<and> sp_remove env seek k st = Some (b, st2) \<and>
    sp_lookup env seek k st = Some u"
proof -
  obtain cs where cs: "st_inv env st cs" "chain_view st cs = V" and plain: "unbuffered st" "0 \<notin> ran V"
    using sp_reach_inv [OF assms(1,2)] by blast
  have "V k \<noteq> Some 0" using plain(2) by (auto simp: ran_def)
  then show ?thesis
    using sp_insert_ok [OF cs(1) assms(2-5) insert_clear_plain [OF plain(1)], of v]
      sp_lookup_ok [OF cs(1) assms(2-4)] sp_remove_ok [OF cs(1) assms(2-4) plain(1)] cs(2) by blast
qed

theorem sptree_calls_return_witness:
  "\<exists>st st1 b st2 u. sp_create_sample = Some st \<and> sp_insert sp_env_sample sp_seek_sample sp_alloc_sample 7 70 st = Some (True, st1) \<and>
    sp_remove sp_env_sample sp_seek_sample 7 st = Some (b, st2) \<and> sp_lookup sp_env_sample sp_seek_sample 7 st = Some u"
proof -
  obtain st where st: "sp_create_sample = Some st" "alloc_ok st sp_alloc_sample" "sp_reach sp_env_sample sp_seek_sample st Map.empty"
    using sp_create_sample_ok by blast
  have k: "kSPTreeMinKey \<le> 7" "(7 :: u64) < -1" by code_simp+
  from sptree_calls_return [OF st(3) sp_seek_sample_ok k st(2), of 70] st(1) show ?thesis by blast
qed












text \<open>
  C12: The walk of \<open>FindTargetMLNode\<close> ends: from whichever node of the list it starts, before or after the target,
  it arrives at the node whose range has the key, so a stale answer of the top layer does no harm.
\<close>

theorem find_target_terminates:
  assumes "chain_ok env st None cs" "start \<in> set cs" "lkey_at st (hd cs) \<le> key" "key < -1"
  shows "\<exists>c n. c \<in> set cs \<and> mid_FindTargetMLNode key (fst start) (st_ml st) = Some (fst c) \<and> st_ml st (fst c) = Some n \<and>
    ml_lkey n \<le> key \<and> key < ml_hkey n"
proof -
  obtain xs c d ys where cs: "cs = xs @ c # d # ys" and r: "lkey_at st c \<le> key" "key < lkey_at st d"
    using chain_locate [OF assms(1,3,4)] by metis
  have "ent_ok env st (last_opt None xs) c d" using assms(1) by (simp add: cs chain_ok_append)
  then obtain n where n: "st_ml st (fst c) = Some n" "ml_hkey n = lkey_at st d" by (auto simp: ent_ok_def)
  then have "ml_lkey n = lkey_at st c" by (simp add: lkey_at_def)
  moreover have "mid_FindTargetMLNode key (fst start) (st_ml st) = Some (fst c)"
    by (rule mid_find_chain [OF assms(1) [unfolded cs] r]) (use assms(2) cs in simp)
  moreover have "c \<in> set cs" by (simp add: cs)
  ultimately show ?thesis using n r by (intro exI [of _ c] exI [of _ n]) simp
qed

theorem find_target_terminates_witness:
  "\<exists>st c n. sp_reach sp_env_sample sp_seek_sample st [5 \<mapsto> 50] \<and> mid_FindTargetMLNode 5 2 (st_ml st) = Some (fst c) \<and>
    st_ml st (fst c) = Some n \<and> ml_lkey n \<le> 5 \<and> 5 < ml_hkey n"
proof -
  let ?cs = "[(1, 10), (2, 11)] :: entry list"
  obtain st where st: "sp_reach sp_env_sample sp_seek_sample st [5 \<mapsto> 50]" "st_inv sp_env_sample st ?cs"
    using sp_fresh_sample by blast
  have ch: "chain_ok sp_env_sample st None ?cs" and hd: "lkey_at st (hd ?cs) = kSPTreeMinKey"
    using st(2) by (simp_all add: st_inv_def)
  have k: "kSPTreeMinKey \<le> 5" "(5 :: u64) < -1" by code_simp+
  have m: "(2, 11) \<in> set ?cs" by simp
  from find_target_terminates [OF ch m _ k(2)] k(1) st(1) hd show ?thesis by auto
qed

text \<open>
  C39: The type of a node never changes and only a tree with write buffers makes nodes with one: insertions and
  removals on a tree whose nodes are all \<open>MLNodeTypeNoBuffer\<close> leave every node, new ones included, of that type,
  so the \<open>exit (1)\<close> of \<open>MLNode::insert\<close>, \<open>lookup\<close> and \<open>remove\<close> on such a node is never reached.
\<close>

theorem sptree_node_types:
  assumes "unbuffered st"
  shows "(sp_insert env seek al k v st = Some (b, st') \<longrightarrow> st_ml st' m = Some n \<longrightarrow> ml_type n = MLNodeTypeNoBuffer) \<and>
    (sp_remove env seek k st = Some (b, st') \<longrightarrow> st_ml st' m = Some n \<longrightarrow> ml_type n = MLNodeTypeNoBuffer)"
  using all_resultsD [OF unbuffered_insert [OF assms]] all_resultsD [OF unbuffered_remove [OF assms]] unbufferedD
  by fastforce

theorem sptree_node_types_witness:
  "\<exists>st st'. sp_create_sample = Some st \<and> sp_insert sp_env_sample sp_seek_sample sp_alloc_sample 7 70 st = Some (True, st') \<and>
    (\<forall>m n. st_ml st' m = Some n \<longrightarrow> ml_type n = MLNodeTypeNoBuffer)"
proof -
  obtain st where st: "sp_create_sample = Some st" "st_inv sp_env_sample st [(1, 10), (2, 11)]" "unbuffered st" "alloc_ok st sp_alloc_sample"
    using sp_create_sample_ok by blast
  have k: "kSPTreeMinKey \<le> 7" "(7 :: u64) < -1" by code_simp+
  obtain st' where ins: "sp_insert sp_env_sample sp_seek_sample sp_alloc_sample 7 70 st = Some (True, st')"
    using sp_insert_ok [OF st(2) sp_seek_sample_ok k st(4) insert_clear_plain [OF st(3)], of 70] by blast
  have "ml_type n = MLNodeTypeNoBuffer" if "st_ml st' m = Some n" for m n
    using sptree_node_types [OF st(3), of sp_env_sample sp_seek_sample sp_alloc_sample 7 70 True st' m n] ins that by blast
  with st(1) ins show ?thesis by blast
qed

end
