(* ===== verification/BTreePmem.thy ===== *)
theory BTreePmem
  imports SPTreeProps
begin

text \<open>
  The B+-tree of the persistent top layer (\<open>spoton-tree/btree_pmem.h\<close>), pages at addresses, as one thread runs
  it: the mutexes are not contended and the loops over \<open>switch_counter\<close> run once. Keys are signed. A pointer is an
  address or null (\<open>None\<close>), in the leaves the values. Cache line flushes are not modelled. Reading past the end of
  \<open>records\<close> reads null. \<open>remove_rebalancing\<close>, which no code calls, is left out.
\<close>

section \<open>Pages\<close>

record bentry =
  be_key :: u64
  be_ptr :: "nat option"

record page =
  pg_leftmost :: "nat option"
  pg_sibling :: "nat option"
  pg_level :: nat
  pg_switch :: u8
  pg_deleted :: bool
  pg_last :: int
  pg_recs :: "bentry list"

definition cardinality :: nat where
  "cardinality = (512 - 32) div 16"

definition IS_FORWARD :: "u8 \<Rightarrow> bool" where
  "IS_FORWARD c \<longleftrightarrow> c AND 1 = 0"

text \<open>\<open>entry ()\<close>: the key is \<open>LONG_MAX\<close>.\<close>

definition entry_new :: bentry where
  "entry_new = \<lparr>be_key = 0x7FFFFFFFFFFFFFFF, be_ptr = None\<rparr>"

definition pg_new :: "nat \<Rightarrow> page" where
  "pg_new level = \<lparr>pg_leftmost = None, pg_sibling = None, pg_level = level, pg_switch = 0, pg_deleted = False, pg_last = -1,
     pg_recs = (replicate cardinality entry_new)[0 := entry_new\<lparr>be_ptr := None\<rparr>]\<rparr>"

definition pg_new_root :: "nat \<Rightarrow> u64 \<Rightarrow> nat \<Rightarrow> nat \<Rightarrow> page" where
  "pg_new_root left key right level =
     (let recs = (replicate cardinality entry_new)[0 := \<lparr>be_key = key, be_ptr = Some right\<rparr>]
      in (pg_new level)\<lparr>pg_leftmost := Some left, pg_recs := recs[1 := (recs ! 1)\<lparr>be_ptr := None\<rparr>], pg_last := 0\<rparr>)"

definition pg_key :: "page \<Rightarrow> nat \<Rightarrow> u64" where
  "pg_key p i = be_key (pg_recs p ! i)"

definition pg_ptr :: "page \<Rightarrow> nat \<Rightarrow> nat option" where
  "pg_ptr p i = (if i < cardinality then be_ptr (pg_recs p ! i) else None)"

text \<open>\<open>count\<close>: from \<open>last_index + 1\<close> in the direction of the last change, then from the left if it fell off.\<close>

function pg_count_walk :: "bool \<Rightarrow> page \<Rightarrow> int \<Rightarrow> int" where
  "pg_count_walk forward p c =
     (if 0 \<le> c \<and> pg_ptr p (nat c) \<noteq> None then pg_count_walk forward p (if forward then c + 1 else c - 1) else c)"
  by pat_completeness auto
termination
  by (relation "measure (\<lambda>(forward, p, c). if forward then nat (31 - c) else nat (c + 1))")
    (auto simp: pg_ptr_def cardinality_def split: if_splits)

declare pg_count_walk.simps [simp del]

definition pg_count :: "page \<Rightarrow> nat" where
  "pg_count p =
     (let c = pg_count_walk (IS_FORWARD (pg_switch p)) p (pg_last p + 1)
      in if c < 0 then nat (pg_count_walk True p 0) else nat c)"

section \<open>Changing one page\<close>

function pg_remove_loop :: "u64 \<Rightarrow> nat \<Rightarrow> bool \<Rightarrow> page \<Rightarrow> bool \<times> page" where
  "pg_remove_loop key i shift p =
     (if pg_ptr p i = None then (shift, p)
      else
        (let found = \<not> shift \<and> pg_key p i = key;
             p1 = (if found then
                     p\<lparr>pg_recs := (pg_recs p)[i := (pg_recs p ! i)\<lparr>be_ptr := (if i = 0 then pg_leftmost p else pg_ptr p (i - 1))\<rparr>]\<rparr>
                   else p);
             shift1 = (shift \<or> found);
             p2 = (if shift1 then p1\<lparr>pg_recs := (pg_recs p1)[i := pg_recs p1 ! (i + 1)]\<rparr> else p1)
         in pg_remove_loop key (i + 1) shift1 p2))"
  by pat_completeness auto
termination
  by (relation "measure (\<lambda>(key, i, shift, p). cardinality - i)") (auto simp: pg_ptr_def split: if_splits)

declare pg_remove_loop.simps [simp del]

definition pg_remove_key :: "u64 \<Rightarrow> page \<Rightarrow> bool \<times> page" where
  "pg_remove_key key p =
     (let p1 = (if IS_FORWARD (pg_switch p) then p\<lparr>pg_switch := pg_switch p + 1\<rparr> else p)
      in case pg_remove_loop key 0 False p1 of
           (shift, p2) \<Rightarrow> (shift, if shift then p2\<lparr>pg_last := pg_last p2 - 1\<rparr> else p2))"

text \<open>The shift of \<open>insert_key\<close>; the index counts down, 0 is the case where no smaller key was met.\<close>

fun pg_insert_loop :: "u64 \<Rightarrow> nat option \<Rightarrow> nat \<Rightarrow> bentry list \<Rightarrow> bentry list" where
  "pg_insert_loop key ptr 0 recs = recs[0 := \<lparr>be_key = key, be_ptr = ptr\<rparr>]"
| "pg_insert_loop key ptr (Suc i) recs =
     (if sint key < sint (be_key (recs ! i))
      then pg_insert_loop key ptr i (recs[i + 1 := recs ! i])
      else recs[i + 1 := \<lparr>be_key = key, be_ptr = ptr\<rparr>])"

definition pg_insert_key :: "u64 \<Rightarrow> nat option \<Rightarrow> nat \<Rightarrow> page \<Rightarrow> nat \<times> page" where
  "pg_insert_key key ptr num_entries p =
     (let p1 = (if \<not> IS_FORWARD (pg_switch p) then p\<lparr>pg_switch := pg_switch p + 1\<rparr> else p);
          recs = pg_recs p1;
          recs1 = (if num_entries = 0 then
                     (let r = recs[0 := \<lparr>be_key = key, be_ptr = ptr\<rparr>] in r[1 := (r ! 1)\<lparr>be_ptr := None\<rparr>])
                   else pg_insert_loop key ptr num_entries
                          (recs[num_entries + 1 := (recs ! (num_entries + 1))\<lparr>be_ptr := be_ptr (recs ! num_entries)\<rparr>]))
      in (num_entries + 1, p1\<lparr>pg_recs := recs1, pg_last := int num_entries\<rparr>))"

section \<open>Searching one page\<close>

text \<open>From the left, starting at \<open>i\<close>: the pointer before the first larger key, or the last one.\<close>

function pg_scan_right :: "u64 \<Rightarrow> nat \<Rightarrow> page \<Rightarrow> nat option" where
  "pg_scan_right key i p =
     (if pg_ptr p i = None then pg_ptr p (i - 1)
      else if sint key < sint (pg_key p i) \<and> pg_ptr p (i - 1) \<noteq> pg_ptr p i then pg_ptr p (i - 1)
      else pg_scan_right key (i + 1) p)"
  by pat_completeness auto
termination
  by (relation "measure (\<lambda>(key, i, p). cardinality - i)") (auto simp: pg_ptr_def split: if_splits)

declare pg_scan_right.simps [simp del]

text \<open>From the right, the index being \<open>i - 1\<close>: the pointer of the last key not above.\<close>

fun pg_scan_left :: "u64 \<Rightarrow> nat \<Rightarrow> page \<Rightarrow> nat option" where
  "pg_scan_left key 0 p = None"
| "pg_scan_left key (Suc i) p =
     (if sint (pg_key p i) \<le> sint key \<and> (if i = 0 then pg_leftmost p else pg_ptr p (i - 1)) \<noteq> pg_ptr p i
      then pg_ptr p i else pg_scan_left key i p)"

text \<open>Both searches end with a look at the first key of the sibling.\<close>

definition pg_to_sibling :: "(nat \<rightharpoonup> page) \<Rightarrow> u64 \<Rightarrow> page \<Rightarrow> bool" where
  "pg_to_sibling H key p \<longleftrightarrow>
     (case pg_sibling p of None \<Rightarrow> False | Some s \<Rightarrow> (case H s of None \<Rightarrow> False | Some sp \<Rightarrow> sint (pg_key sp 0) \<le> sint key))"

definition pg_seekLE :: "(nat \<rightharpoonup> page) \<Rightarrow> u64 \<Rightarrow> page \<Rightarrow> nat option" where
  "pg_seekLE H key p =
     (let ret = (if IS_FORWARD (pg_switch p)
                 then (if sint key < sint (pg_key p 0) then None else pg_scan_right key 1 p)
                 else pg_scan_left key (pg_count p) p)
      in if pg_to_sibling H key p then pg_sibling p else ret)"

text \<open>The leaf search: from the left the first entry of the key, from the right the last one.\<close>

function pg_find_right :: "u64 \<Rightarrow> nat \<Rightarrow> page \<Rightarrow> nat option" where
  "pg_find_right key i p =
     (if pg_ptr p i = None then None
      else if pg_key p i = key \<and> pg_ptr p (i - 1) \<noteq> pg_ptr p i then pg_ptr p i
      else pg_find_right key (i + 1) p)"
  by pat_completeness auto
termination
  by (relation "measure (\<lambda>(key, i, p). cardinality - i)") (auto simp: pg_ptr_def split: if_splits)

declare pg_find_right.simps [simp del]

fun pg_find_left :: "u64 \<Rightarrow> nat \<Rightarrow> page \<Rightarrow> nat option" where
  "pg_find_left key 0 p = None"
| "pg_find_left key (Suc 0) p = (if pg_key p 0 = key then pg_ptr p 0 else None)"
| "pg_find_left key (Suc (Suc i)) p =
     (if pg_key p (Suc i) = key \<and> pg_ptr p i \<noteq> pg_ptr p (Suc i) \<and> pg_ptr p (Suc i) \<noteq> None
      then pg_ptr p (Suc i) else pg_find_left key (Suc i) p)"

definition pg_linear_search :: "(nat \<rightharpoonup> page) \<Rightarrow> u64 \<Rightarrow> page \<Rightarrow> nat option" where
  "pg_linear_search H key p =
     (if pg_leftmost p = None then
        (let ret = (if IS_FORWARD (pg_switch p)
                    then (if pg_key p 0 = key \<and> pg_ptr p 0 \<noteq> None then pg_ptr p 0 else pg_find_right key 1 p)
                    else pg_find_left key (max 1 (pg_count p)) p)
         in if ret \<noteq> None then ret else if pg_to_sibling H key p then pg_sibling p else None)
      else
        (let ret = (if IS_FORWARD (pg_switch p)
                    then (if sint key < sint (pg_key p 0) \<and> pg_leftmost p \<noteq> pg_ptr p 0 then pg_leftmost p
                          else pg_scan_right key 1 p)
                    else pg_scan_left key (pg_count p) p)
         in if pg_to_sibling H key p then pg_sibling p else if ret \<noteq> None then ret else pg_leftmost p))"


section \<open>The tree\<close>

text \<open>\<open>bt_free\<close> are the addresses the allocator will return.\<close>

record btree =
  bt_height :: nat
  bt_root :: nat
  bt_heap :: "nat \<rightharpoonup> page"
  bt_free :: "nat list"

definition bt_new :: "nat \<Rightarrow> nat list \<Rightarrow> btree" where
  "bt_new root free = \<lparr>bt_height = 1, bt_root = root, bt_heap = [root \<mapsto> pg_new 0], bt_free = free\<rparr>"

definition bt_put :: "nat \<Rightarrow> page \<Rightarrow> btree \<Rightarrow> btree" where
  "bt_put a p t = t\<lparr>bt_heap := (bt_heap t)(a \<mapsto> p)\<rparr>"

definition bt_setNewRoot :: "nat \<Rightarrow> btree \<Rightarrow> btree" where
  "bt_setNewRoot new_root t = t\<lparr>bt_root := new_root, bt_height := bt_height t + 1\<rparr>"

definition bt_alloc :: "page \<Rightarrow> btree \<Rightarrow> (nat \<times> btree) option" where
  "bt_alloc p t = (case bt_free t of [] \<Rightarrow> None | a # free \<Rightarrow> Some (a, (bt_put a p t)\<lparr>bt_free := free\<rparr>))"

text \<open>The walk down to a leaf, or to a level.\<close>

partial_function (option) bt_to_leaf :: "(nat \<rightharpoonup> page) \<Rightarrow> u64 \<Rightarrow> nat \<Rightarrow> nat option" where
  "bt_to_leaf H key a =
     Option.bind (H a) (\<lambda>p.
       if pg_leftmost p \<noteq> None then Option.bind (pg_linear_search H key p) (bt_to_leaf H key) else Some a)"

partial_function (option) bt_to_level :: "(nat \<rightharpoonup> page) \<Rightarrow> u64 \<Rightarrow> nat \<Rightarrow> nat \<Rightarrow> nat option" where
  "bt_to_level H key level a =
     Option.bind (H a) (\<lambda>p.
       if level < pg_level p then Option.bind (pg_linear_search H key p) (bt_to_level H key level) else Some a)"

definition bt_seekLE :: "u64 \<Rightarrow> btree \<Rightarrow> nat option option" where
  "bt_seekLE key t =
     Option.bind (bt_to_leaf (bt_heap t) key (bt_root t)) (\<lambda>a.
     Option.bind (bt_heap t a) (\<lambda>p. Some (pg_seekLE (bt_heap t) key p)))"

text \<open>
  The walk along the siblings after the leaf search: the page where it ends (none when it falls off the list)
  and what the search found there.
\<close>

partial_function (option) bt_chase :: "(nat \<rightharpoonup> page) \<Rightarrow> u64 \<Rightarrow> nat \<Rightarrow> (nat option \<times> nat option) option" where
  "bt_chase H key a =
     Option.bind (H a) (\<lambda>p.
       let t = pg_linear_search H key p
       in if t = pg_sibling p then (case t of None \<Rightarrow> Some (None, None) | Some b \<Rightarrow> bt_chase H key b)
          else Some (Some a, t))"

definition bt_search :: "u64 \<Rightarrow> btree \<Rightarrow> nat option option" where
  "bt_search key t =
     Option.bind (bt_to_leaf (bt_heap t) key (bt_root t)) (\<lambda>a.
       map_option snd (bt_chase (bt_heap t) key a))"

section \<open>Insertion\<close>

text \<open>
  The migration of the upper half of an overflowing page to a new sibling: in a leaf from the middle entry
  on, in an inner page the middle pointer becomes the leftmost one.
\<close>

definition pg_migrate :: "nat \<Rightarrow> nat \<Rightarrow> page \<Rightarrow> page \<Rightarrow> nat \<times> page" where
  "pg_migrate start num_entries p sibling =
     fold (\<lambda>i (cnt, s). pg_insert_key (pg_key p i) (pg_ptr p i) cnt s) [start..<num_entries] (0, sibling)"

definition pg_split :: "nat \<Rightarrow> nat \<Rightarrow> page \<Rightarrow> u64 \<times> nat \<times> page \<times> page" where
  "pg_split a num_entries p =
     (let m = num_entries div 2;
          new = pg_new (pg_level p);
          (cnt, s) = (if pg_leftmost p = None then pg_migrate m num_entries p new
                      else (case pg_migrate (m + 1) num_entries p new of (cnt, s) \<Rightarrow> (cnt, s\<lparr>pg_leftmost := pg_ptr p m\<rparr>)));
          s1 = s\<lparr>pg_sibling := pg_sibling p\<rparr>;
          p1 = p\<lparr>pg_sibling := Some a, pg_switch := (if IS_FORWARD (pg_switch p) then pg_switch p + 2 else pg_switch p + 1),
                 pg_recs := (pg_recs p)[m := (pg_recs p ! m)\<lparr>be_ptr := None\<rparr>], pg_last := int m - 1\<rparr>
      in (pg_key p m, cnt, p1, s1))"

text \<open>
  \<open>store\<close> and \<open>btree_insert_internal\<close>; each call and each move to a sibling uses one unit of fuel. The result of
  \<open>store\<close> is the page that took the key, or null when the page was deleted.
\<close>

fun bt_store :: "nat \<Rightarrow> u64 \<Rightarrow> nat \<Rightarrow> nat \<Rightarrow> btree \<Rightarrow> (nat option \<times> btree) option"
  and bt_insert_internal :: "nat \<Rightarrow> u64 \<Rightarrow> nat \<Rightarrow> nat \<Rightarrow> btree \<Rightarrow> btree option" where
  "bt_store 0 key right a t = None"
| "bt_store (Suc fuel) key right a t =
     Option.bind (bt_heap t a) (\<lambda>p.
       if pg_deleted p then Some (None, t)
       else if (case pg_sibling p of None \<Rightarrow> False
                | Some s \<Rightarrow> (case bt_heap t s of None \<Rightarrow> False | Some sp \<Rightarrow> sint (pg_key sp 0) < sint key))
       then Option.bind (pg_sibling p) (\<lambda>s. bt_store fuel key right s t)
       else
         (let num_entries = pg_count p
          in if num_entries < cardinality - 1
             then Some (Some a, bt_put a (snd (pg_insert_key key (Some right) num_entries p)) t)
             else
               Option.bind (bt_alloc (pg_new (pg_level p)) t) (\<lambda>(b, t1).
                 case pg_split b num_entries p of (split_key, cnt, p1, s1) \<Rightarrow>
                   (let low = sint key < sint split_key;
                        p2 = (if low then snd (pg_insert_key key (Some right) (nat (pg_last p1 + 1)) p1) else p1);
                        s2 = (if low then s1 else snd (pg_insert_key key (Some right) cnt s1));
                        t2 = bt_put b s2 (bt_put a p2 t1);
                        ret = Some (if low then a else b)
                    in if bt_root t2 = a
                       then Option.bind (bt_alloc (pg_new_root a split_key b (pg_level p + 1)) t2) (\<lambda>(r, t3).
                              Some (ret, bt_setNewRoot r t3))
                       else Option.bind (bt_insert_internal fuel split_key b (pg_level p + 1) t2) (\<lambda>t3. Some (ret, t3))))))"
| "bt_insert_internal 0 key right level t = None"
| "bt_insert_internal (Suc fuel) key right level t =
     Option.bind (bt_heap t (bt_root t)) (\<lambda>rp.
       if pg_level rp < level then Some t
       else
         Option.bind (bt_to_level (bt_heap t) key level (bt_root t)) (\<lambda>a.
         Option.bind (bt_store fuel key right a t) (\<lambda>(ret, t1).
           if ret = None then bt_insert_internal fuel key right level t1 else Some t1)))"

text \<open>\<open>btree_insert\<close>: again from the root when \<open>store\<close> met a deleted page.\<close>

fun bt_insert :: "nat \<Rightarrow> u64 \<Rightarrow> nat \<Rightarrow> btree \<Rightarrow> btree option" where
  "bt_insert 0 key right t = None"
| "bt_insert (Suc fuel) key right t =
     Option.bind (bt_to_leaf (bt_heap t) key (bt_root t)) (\<lambda>a.
     Option.bind (bt_store fuel key right a t) (\<lambda>(ret, t1).
       if ret = None then bt_insert fuel key right t1 else Some t1))"

section \<open>Deletion and enumeration\<close>

definition pg_remove :: "u64 \<Rightarrow> nat \<Rightarrow> btree \<Rightarrow> (bool \<times> btree) option" where
  "pg_remove key a t = Option.bind (bt_heap t a) (\<lambda>p. case pg_remove_key key p of (ret, p1) \<Rightarrow> Some (ret, bt_put a p1 t))"

text \<open>\<open>btree_delete\<close>: the page in which the search ended loses the key; if it did not have it, again from the root.\<close>

fun bt_delete :: "nat \<Rightarrow> u64 \<Rightarrow> btree \<Rightarrow> btree option" where
  "bt_delete 0 key t = None"
| "bt_delete (Suc fuel) key t =
     Option.bind (bt_to_leaf (bt_heap t) key (bt_root t)) (\<lambda>a.
     Option.bind (bt_chase (bt_heap t) key a) (\<lambda>(p, _).
       case p of None \<Rightarrow> Some t
       | Some b \<Rightarrow> Option.bind (pg_remove key b t) (\<lambda>(ret, t1). if ret then Some t1 else bt_delete fuel key t1)))"

text \<open>\<open>scan_all_record\<close>: the entries of the leaves from the leftmost one on, as the callback receives them.\<close>

partial_function (option) bt_leftmost_leaf :: "(nat \<rightharpoonup> page) \<Rightarrow> nat \<Rightarrow> nat option" where
  "bt_leftmost_leaf H a =
     Option.bind (H a) (\<lambda>p. case pg_leftmost p of None \<Rightarrow> Some a | Some b \<Rightarrow> bt_leftmost_leaf H b)"

function pg_entries_from :: "nat \<Rightarrow> page \<Rightarrow> (u64 \<times> nat) list" where
  "pg_entries_from i p =
     (case pg_ptr p i of None \<Rightarrow> [] | Some v \<Rightarrow> (pg_key p i, v) # pg_entries_from (i + 1) p)"
  by pat_completeness auto
termination
  by (relation "measure (\<lambda>(i, p). cardinality - i)") (auto simp: pg_ptr_def split: if_splits)

declare pg_entries_from.simps [simp del]

partial_function (option) bt_scan_leaves :: "(nat \<rightharpoonup> page) \<Rightarrow> nat \<Rightarrow> (u64 \<times> nat) list option" where
  "bt_scan_leaves H a =
     Option.bind (H a) (\<lambda>p.
       case pg_sibling p of None \<Rightarrow> Some (pg_entries_from 0 p)
       | Some s \<Rightarrow> Option.bind (bt_scan_leaves H s) (\<lambda>rest. Some (pg_entries_from 0 p @ rest)))"

definition bt_scan_all_record :: "btree \<Rightarrow> (u64 \<times> nat) list option" where
  "bt_scan_all_record t = Option.bind (bt_leftmost_leaf (bt_heap t) (bt_root t)) (bt_scan_leaves (bt_heap t))"

section \<open>Range search\<close>

text \<open>
  \<open>linear_search_range\<close> in one page: the pointers of the keys strictly between the bounds, and whether the
  search returned. The first entry is looked at apart, in both directions.
\<close>

definition pg_range_first :: "u64 \<Rightarrow> u64 \<Rightarrow> page \<Rightarrow> nat list \<times> bool" where
  "pg_range_first mn mx p =
     (if sint mn < sint (pg_key p 0)
      then if sint (pg_key p 0) < sint mx then (case pg_ptr p 0 of None \<Rightarrow> ([], False) | Some v \<Rightarrow> ([v], False)) else ([], True)
      else ([], False))"

function pg_range_right :: "u64 \<Rightarrow> u64 \<Rightarrow> nat \<Rightarrow> page \<Rightarrow> nat list \<times> bool" where
  "pg_range_right mn mx i p =
     (case pg_ptr p i of None \<Rightarrow> ([], False)
      | Some v \<Rightarrow>
          if sint mn < sint (pg_key p i)
          then if sint (pg_key p i) < sint mx
               then (case pg_range_right mn mx (i + 1) p of (rest, stop) \<Rightarrow>
                       ((if pg_ptr p i \<noteq> pg_ptr p (i - 1) then v # rest else rest), stop))
               else ([], True)
          else pg_range_right mn mx (i + 1) p)"
  by pat_completeness auto
termination
  by (relation "measure (\<lambda>(mn, mx, i, p). cardinality - i)") (auto simp: pg_ptr_def split: if_splits)

declare pg_range_right.simps [simp del]

fun pg_range_left :: "u64 \<Rightarrow> u64 \<Rightarrow> nat \<Rightarrow> page \<Rightarrow> nat list \<times> bool" where
  "pg_range_left mn mx 0 p = pg_range_first mn mx p"
| "pg_range_left mn mx (Suc i) p =
     (if sint mn < sint (pg_key p (Suc i))
      then if sint (pg_key p (Suc i)) < sint mx
           then (case pg_range_left mn mx i p of (rest, stop) \<Rightarrow>
                   ((if pg_ptr p (Suc i) \<noteq> pg_ptr p i then (case pg_ptr p (Suc i) of None \<Rightarrow> rest | Some v \<Rightarrow> v # rest) else rest), stop))
           else ([], True)
      else pg_range_left mn mx i p)"

definition pg_range :: "u64 \<Rightarrow> u64 \<Rightarrow> page \<Rightarrow> nat list \<times> bool" where
  "pg_range mn mx p =
     (if IS_FORWARD (pg_switch p)
      then (case pg_range_first mn mx p of (first, stop) \<Rightarrow>
              if stop then (first, True)
              else (case pg_range_right mn mx 1 p of (rest, stop') \<Rightarrow> (first @ rest, stop')))
      else pg_range_left mn mx (pg_count p - 1) p)"

partial_function (option) bt_range_leaves :: "(nat \<rightharpoonup> page) \<Rightarrow> u64 \<Rightarrow> u64 \<Rightarrow> nat \<Rightarrow> nat list option" where
  "bt_range_leaves H mn mx a =
     Option.bind (H a) (\<lambda>p.
       let res = pg_range mn mx p
       in if snd res then Some (fst res)
          else (case pg_sibling p of None \<Rightarrow> Some (fst res)
                | Some s \<Rightarrow> Option.bind (bt_range_leaves H mn mx s) (\<lambda>rest. Some (fst res @ rest))))"

definition bt_search_range :: "u64 \<Rightarrow> u64 \<Rightarrow> btree \<Rightarrow> nat list option" where
  "bt_search_range mn mx t = Option.bind (bt_to_leaf (bt_heap t) mn (bt_root t)) (bt_range_leaves (bt_heap t) mn mx)"

declare bt_to_leaf.simps [code] bt_to_level.simps [code] bt_chase.simps [code] bt_leftmost_leaf.simps [code]
  bt_scan_leaves.simps [code] bt_range_leaves.simps [code]

end
