(* ===== verification/BTreePage.thy ===== *)
theory BTreePage
  imports BTreePmem "HOL-Library.Multiset"
begin

text \<open>
  One page of the persistent B+-tree: the invariant of a page with \<open>n\<close> entries, and what counting, inserting,
  removing, searching and splitting do to its sorted list of entries, in either search direction.
\<close>

section \<open>The invariant of a page\<close>

definition pg_live :: "nat \<Rightarrow> page \<Rightarrow> bentry list" where
  "pg_live n p = take n (pg_recs p)"

abbreviation skey :: "bentry \<Rightarrow> int" where
  "skey e \<equiv> sint (be_key e)"

definition pg_ok :: "nat \<Rightarrow> page \<Rightarrow> bool" where
  "pg_ok n p \<longleftrightarrow> length (pg_recs p) = cardinality \<and> n < cardinality \<and> be_ptr (pg_recs p ! n) = None \<and> pg_last p = int n - 1 \<and>
     sorted_wrt (<) (map skey (pg_live n p)) \<and> distinct (pg_leftmost p # map be_ptr (pg_live n p)) \<and>
     None \<notin> be_ptr ` set (pg_live n p) \<and> (n = 0 \<longrightarrow> be_ptr (pg_recs p ! 1) = None)"

text \<open>In a leaf the leftmost pointer is null, in an inner page an address; both differ from the pointers of the entries.\<close>

lemma cardinality_30 [simp]: "cardinality = 30"
  by (simp add: cardinality_def)

lemma pg_ok_length: "pg_ok n p \<Longrightarrow> length (pg_recs p) = 30 \<and> n < 30 \<and> length (pg_live n p) = n"
  by (simp add: pg_ok_def pg_live_def)

lemma pg_live_nth: "pg_ok n p \<Longrightarrow> i < n \<Longrightarrow> pg_live n p ! i = pg_recs p ! i"
  by (simp add: pg_live_def)

lemma pg_ptr_live:
  assumes "pg_ok n p" "i < n"
  shows "pg_ptr p i = be_ptr (pg_live n p ! i) \<and> pg_ptr p i \<noteq> None"
proof -
  have l: "length (pg_live n p) = n" "n < 30" using pg_ok_length assms(1) by blast+
  have "pg_live n p ! i \<in> set (pg_live n p)" using l assms(2) by simp
  moreover have "None \<notin> be_ptr ` set (pg_live n p)" using assms(1) unfolding pg_ok_def by blast
  ultimately have "be_ptr (pg_live n p ! i) \<noteq> None" by (metis image_eqI)
  then show ?thesis using l assms by (simp add: pg_ptr_def pg_live_nth)
qed

lemma pg_ptr_nonnull: "pg_ok n p \<Longrightarrow> i < n \<Longrightarrow> pg_ptr p i \<noteq> None"
  using pg_ptr_live by blast

lemma pg_ptr_end: "pg_ok n p \<Longrightarrow> pg_ptr p n = None"
  by (simp add: pg_ok_def pg_ptr_def)

lemma pg_key_live: "pg_ok n p \<Longrightarrow> i < n \<Longrightarrow> pg_key p i = be_key (pg_live n p ! i)"
  by (simp add: pg_key_def pg_live_nth)

lemma pg_key_less:
  assumes "pg_ok n p" "i < j" "j < n"
  shows "sint (pg_key p i) < sint (pg_key p j)"
proof -
  have l: "length (pg_live n p) = n" using pg_ok_length assms(1) by blast
  have "sorted_wrt (<) (map skey (pg_live n p))" using assms(1) unfolding pg_ok_def by blast
  then have "map skey (pg_live n p) ! i < map skey (pg_live n p) ! j"
    by (rule sorted_wrt_nth_less) (use l assms in simp_all)
  then show ?thesis using l assms by (simp add: pg_key_live)
qed

lemma pg_ptr_inj:
  assumes "pg_ok n p" "i < n" "j < n"
  shows "pg_ptr p i = pg_ptr p j \<longleftrightarrow> i = j"
proof -
  have l: "length (pg_live n p) = n" using pg_ok_length assms(1) by blast
  have "distinct (map be_ptr (pg_live n p))" using assms(1) unfolding pg_ok_def by simp
  then have "map be_ptr (pg_live n p) ! i = map be_ptr (pg_live n p) ! j \<longleftrightarrow> i = j"
    by (rule nth_eq_iff_index_eq) (use l assms in simp_all)
  then show ?thesis using l assms by (simp add: pg_ptr_live)
qed

lemma pg_ptr_leftmost:
  assumes "pg_ok n p" "i < n"
  shows "pg_leftmost p \<noteq> pg_ptr p i"
proof -
  have l: "length (pg_live n p) = n" using pg_ok_length assms(1) by blast
  have "pg_live n p ! i \<in> set (pg_live n p)" using l assms(2) by simp
  moreover have "pg_leftmost p \<notin> be_ptr ` set (pg_live n p)" using assms(1) unfolding pg_ok_def by simp
  ultimately show ?thesis using assms by (metis pg_ptr_live image_eqI)
qed

lemma pg_ok_new: "pg_ok 0 (pg_new level)"
  by (simp add: pg_ok_def pg_live_def pg_new_def entry_new_def cardinality_def)

lemma pg_ok_new_root: "left \<noteq> right \<Longrightarrow> pg_ok 1 (pg_new_root left key right level)"
  by (simp add: pg_ok_def pg_live_def pg_new_root_def pg_new_def Let_def cardinality_def numeral_eq_Suc entry_new_def)

lemma pg_count_ok:
  assumes "pg_ok n p"
  shows "pg_count p = n"
  using pg_ptr_end [OF assms] assms pg_count_walk.simps [of "IS_FORWARD (pg_switch p)" p "int n"]
  by (simp add: pg_count_def pg_ok_def Let_def)

section \<open>Entries\<close>

definition pg_entries :: "nat \<Rightarrow> page \<Rightarrow> (int \<times> nat) list" where
  "pg_entries n p = map (\<lambda>e. (skey e, the (be_ptr e))) (pg_live n p)"

lemma pg_entries_from_ok:
  assumes ok: "pg_ok n p"
  shows "i \<le> n \<Longrightarrow> pg_entries_from i p = map (\<lambda>j. (pg_key p j, the (pg_ptr p j))) [i..<n]"
proof (induction "n - i" arbitrary: i)
  case 0
  then show ?case using pg_ptr_end [OF ok] by (simp add: pg_entries_from.simps [of i])
next
  case (Suc d)
  then have i: "i < n" by simp
  then obtain v where v: "pg_ptr p i = Some v" using pg_ptr_live [OF ok i] by (metis not_None_eq)
  have "pg_entries_from (i + 1) p = map (\<lambda>j. (pg_key p j, the (pg_ptr p j))) [i + 1..<n]"
    using Suc by simp
  then show ?case using i v by (simp add: pg_entries_from.simps [of i] upt_conv_Cons)
qed

lemma pg_entries_nth: "pg_ok n p \<Longrightarrow> i < n \<Longrightarrow> pg_entries n p ! i = (sint (pg_key p i), the (pg_ptr p i))"
  using pg_ok_length [of n p] by (simp add: pg_entries_def pg_key_live pg_ptr_live)

lemma pg_entries_length [simp]: "pg_ok n p \<Longrightarrow> length (pg_entries n p) = n"
  using pg_ok_length [of n p] by (simp add: pg_entries_def)

lemma pg_entries_from_0:
  assumes "pg_ok n p"
  shows "map (\<lambda>(k, v). (sint k, v)) (pg_entries_from 0 p) = pg_entries n p"
  using assms by (intro nth_equalityI) (simp_all add: pg_entries_from_ok [OF assms, of 0] pg_entries_nth)

section \<open>Insertion into a page\<close>

lemma pg_insert_loop_list:
  "n + 1 < length recs \<Longrightarrow> sorted_wrt (<) (map skey (take n recs)) \<Longrightarrow>
   pg_insert_loop key ptr n recs =
     filter (\<lambda>e. skey e \<le> sint key) (take n recs) @ \<lparr>be_key = key, be_ptr = ptr\<rparr> #
     filter (\<lambda>e. sint key < skey e) (take n recs) @ drop (n + 1) recs"
proof (induction n arbitrary: recs)
  case 0
  then show ?case by (cases recs) simp_all
next
  case (Suc n)
  have t: "take (Suc n) recs = take n recs @ [recs ! n]" using Suc.prems(1) by (simp add: take_Suc_conv_app_nth)
  have s: "sorted_wrt (<) (map skey (take n recs))" "\<forall>e \<in> set (take n recs). skey e < skey (recs ! n)"
    using Suc.prems(2) by (auto simp: t sorted_wrt_append)
  show ?case
  proof (cases "sint key < skey (recs ! n)")
    case True
    let ?r = "recs[n + 1 := recs ! n]"
    have "drop (n + 1) ?r = recs ! n # drop (n + 2) recs"
      using Suc.prems(1) by (simp add: drop_update_swap Cons_nth_drop_Suc [symmetric])
    then show ?thesis using Suc.IH [of ?r] Suc.prems(1) s(1) True by (simp add: t)
  next
    case False
    have "filter (\<lambda>e. skey e \<le> sint key) (take n recs) = take n recs"
      "filter (\<lambda>e. sint key < skey e) (take n recs) = []"
      using s(2) False by (force simp: filter_id_conv filter_empty_conv)+
    moreover have "recs[n + 1 := e] = take (n + 1) recs @ e # drop (n + 2) recs" for e
      using Suc.prems(1) by (simp add: upd_conv_take_nth_drop)
    ultimately show ?thesis using False by (simp add: t)
  qed
qed

definition pg_place :: "bentry \<Rightarrow> bentry list \<Rightarrow> bentry list" where
  "pg_place e es = filter (\<lambda>x. skey x \<le> skey e) es @ e # filter (\<lambda>x. skey e < skey x) es"

lemma pg_place_set [simp]: "set (pg_place e es) = insert e (set es)"
  by (auto simp: pg_place_def)

lemma pg_place_length [simp]: "length (pg_place e es) = Suc (length es)"
  using sum_length_filter_compl [of "\<lambda>x. skey x \<le> skey e" es] by (simp add: pg_place_def not_le)

lemma pg_place_sorted:
  "sorted_wrt (<) (map skey es) \<Longrightarrow> skey e \<notin> skey ` set es \<Longrightarrow> sorted_wrt (<) (map skey (pg_place e es))"
  by (auto simp: pg_place_def sorted_wrt_append sorted_wrt_map sorted_wrt_filter less_le image_iff)

lemma pg_place_distinct: "distinct (map be_ptr es) \<Longrightarrow> be_ptr e \<notin> be_ptr ` set es \<Longrightarrow> distinct (map be_ptr (pg_place e es))"
proof -
  assume a: "distinct (map be_ptr es)" "be_ptr e \<notin> be_ptr ` set es"
  have "mset (pg_place e es) = add_mset e (mset es)"
    by (auto simp: pg_place_def mset_filter not_le multiset_eq_iff)
  then have "mset (map be_ptr (pg_place e es)) = mset (map be_ptr (e # es))" by simp
  then show ?thesis using a by (metis distinct.simps(2) list.set_map list.simps(9) mset_eq_imp_distinct_iff)
qed

lemma pg_insert_key_fields [simp]:
  "pg_leftmost (snd (pg_insert_key key ptr n p)) = pg_leftmost p"
  "pg_sibling (snd (pg_insert_key key ptr n p)) = pg_sibling p"
  "pg_level (snd (pg_insert_key key ptr n p)) = pg_level p"
  "pg_deleted (snd (pg_insert_key key ptr n p)) = pg_deleted p"
  "fst (pg_insert_key key ptr n p) = n + 1"
  by (simp_all add: pg_insert_key_def Let_def)

lemma pg_insert_key_recs:
  assumes ok: "pg_ok n p" and n: "n < 29"
  shows "pg_recs (snd (pg_insert_key key ptr n p)) =
    pg_place \<lparr>be_key = key, be_ptr = ptr\<rparr> (pg_live n p) @ (pg_recs p ! (n + 1))\<lparr>be_ptr := None\<rparr> # drop (n + 2) (pg_recs p)"
proof -
  let ?e = "(pg_recs p ! (n + 1))\<lparr>be_ptr := None\<rparr>" and ?r = "(pg_recs p)[n + 1 := (pg_recs p ! (n + 1))\<lparr>be_ptr := None\<rparr>]"
  have l: "length (pg_recs p) = 30" and e: "be_ptr (pg_recs p ! n) = None"
    using ok unfolding pg_ok_def by simp_all
  have srt: "sorted_wrt (<) (map skey (take n (pg_recs p)))" using ok unfolding pg_ok_def pg_live_def by blast
  have d: "drop (n + 1) ?r = ?e # drop (n + 2) (pg_recs p)"
    using l n by (simp add: drop_update_swap Cons_nth_drop_Suc [symmetric])
  show ?thesis
  proof (cases "n = 0")
    case True
    obtain a b rs where "pg_recs p = a # b # rs" using l by (cases "pg_recs p"; cases "tl (pg_recs p)") auto
    then show ?thesis using True by (simp add: pg_insert_key_def Let_def pg_place_def pg_live_def)
  next
    case False
    have "pg_insert_loop key ptr n ?r = pg_place \<lparr>be_key = key, be_ptr = ptr\<rparr> (take n ?r) @ drop (n + 1) ?r"
      by (subst pg_insert_loop_list) (use l n srt in \<open>simp_all add: pg_place_def\<close>)
    moreover have "pg_recs (snd (pg_insert_key key ptr n p)) = pg_insert_loop key ptr n ?r"
      using False e by (simp add: pg_insert_key_def Let_def)
    ultimately show ?thesis using d by (simp add: pg_live_def)
  qed
qed

lemma pg_insert_key_live:
  assumes ok: "pg_ok n p" and n: "n < 29"
  shows "pg_live (n + 1) (snd (pg_insert_key key ptr n p)) = pg_place \<lparr>be_key = key, be_ptr = ptr\<rparr> (pg_live n p)"
  unfolding pg_live_def [of "n + 1"] pg_insert_key_recs [OF assms] using pg_ok_length [OF ok] by simp

lemma pg_insert_key_keys:
  assumes ok: "pg_ok n p" and n: "n < 29"
  shows "be_key ` set (pg_recs (snd (pg_insert_key key ptr n p))) \<subseteq> insert key (be_key ` set (pg_recs p))"
proof -
  have "pg_recs p ! (n + 1) \<in> set (pg_recs p)" using ok n by (simp add: pg_ok_def)
  then show ?thesis
    by (auto simp: pg_insert_key_recs [OF assms] pg_live_def dest: in_set_takeD in_set_dropD)
qed

lemma pg_insert_key_ok:
  assumes ok: "pg_ok n p" and n: "n < 29" and k: "sint key \<notin> skey ` set (pg_live n p)"
    and v: "ptr \<noteq> None" "ptr \<noteq> pg_leftmost p" "ptr \<notin> be_ptr ` set (pg_live n p)"
  shows "pg_ok (n + 1) (snd (pg_insert_key key ptr n p))"
proof -
  let ?p = "snd (pg_insert_key key ptr n p)" and ?e = "\<lparr>be_key = key, be_ptr = ptr\<rparr>"
  have l: "length (pg_recs p) = 30" "length (pg_live n p) = n" "n < 30" using pg_ok_length [OF ok] by blast+
  have live: "pg_live (n + 1) ?p = pg_place ?e (pg_live n p)" by (rule pg_insert_key_live [OF ok n])
  have s: "sorted_wrt (<) (map skey (pg_live n p))" and d: "distinct (map be_ptr (pg_live n p))"
    and lm: "pg_leftmost p \<notin> be_ptr ` set (pg_live n p)" and nn: "None \<notin> be_ptr ` set (pg_live n p)"
    using ok unfolding pg_ok_def by simp_all
  have last: "pg_last ?p = int n" by (simp add: pg_insert_key_def Let_def)
  show ?thesis unfolding pg_ok_def live last
  proof (intro conjI)
    show "length (pg_recs ?p) = cardinality" "be_ptr (pg_recs ?p ! (n + 1)) = None"
      using l n by (simp_all add: pg_insert_key_recs [OF ok n] nth_append)
    show "sorted_wrt (<) (map skey (pg_place ?e (pg_live n p)))" using s k by (intro pg_place_sorted) simp_all
    show "distinct (pg_leftmost ?p # map be_ptr (pg_place ?e (pg_live n p)))"
      using pg_place_distinct [OF d, of ?e] lm v by auto
  qed (use n nn v in auto)
qed

section \<open>Removal from a page\<close>

definition del_at :: "nat \<Rightarrow> nat \<Rightarrow> 'a list \<Rightarrow> 'a list" where
  "del_at i n xs = take i xs @ take (n - i) (drop (i + 1) xs) @ drop n xs"

lemma del_at_step:
  assumes "i < n" "n < length xs"
  shows "del_at (i + 1) n (xs[i := xs ! (i + 1)]) = del_at i n xs"
proof -
  have "take (i + 1) (xs[i := xs ! (i + 1)]) = take i xs @ [xs ! (i + 1)]"
    using assms by (simp add: take_Suc_conv_app_nth)
  moreover have "take (n - i) (drop (i + 1) xs) = xs ! (i + 1) # take (n - (i + 1)) (drop (i + 2) xs)"
    using assms by (simp add: Cons_nth_drop_Suc [symmetric] take_Cons')
  ultimately show ?thesis using assms by (simp add: del_at_def)
qed

lemma pg_switch_simps [simp]:
  "pg_ptr (p\<lparr>pg_switch := s\<rparr>) i = pg_ptr p i" "pg_key (p\<lparr>pg_switch := s\<rparr>) i = pg_key p i"
  "pg_ok n (p\<lparr>pg_switch := s\<rparr>) = pg_ok n p" "pg_live n (p\<lparr>pg_switch := s\<rparr>) = pg_live n p"
  by (simp_all add: pg_ptr_def pg_key_def pg_ok_def pg_live_def)

lemma pg_remove_loop_steps:
  "pg_ptr p i = None \<Longrightarrow> pg_remove_loop key i shift p = (shift, p)"
  "pg_ptr p i \<noteq> None \<Longrightarrow> pg_remove_loop key i True p =
     pg_remove_loop key (i + 1) True (p\<lparr>pg_recs := (pg_recs p)[i := pg_recs p ! (i + 1)]\<rparr>)"
  "pg_ptr p i \<noteq> None \<Longrightarrow> pg_key p i \<noteq> key \<Longrightarrow> pg_remove_loop key i False p = pg_remove_loop key (i + 1) False p"
  "pg_ptr p i \<noteq> None \<Longrightarrow> pg_key p i = key \<Longrightarrow> pg_remove_loop key i False p = pg_remove_loop key i True p"
  using pg_remove_loop.simps [of key i shift p] pg_remove_loop.simps [of key i True p] pg_remove_loop.simps [of key i False p]
  by (simp_all only: simp_thms if_True if_False Let_def) simp_all

lemma pg_remove_loop_shift:
  "length (pg_recs p) = 30 \<Longrightarrow> n < 30 \<Longrightarrow> i \<le> n \<Longrightarrow> pg_ptr p n = None \<Longrightarrow> \<forall>j \<in> {i..<n}. pg_ptr p j \<noteq> None \<Longrightarrow>
   pg_remove_loop key i True p = (True, p\<lparr>pg_recs := del_at i n (pg_recs p)\<rparr>)"
proof (induction "n - i" arbitrary: i p)
  case 0
  then show ?case by (simp add: pg_remove_loop_steps(1) del_at_def)
next
  case (Suc d)
  let ?p = "p\<lparr>pg_recs := (pg_recs p)[i := pg_recs p ! (i + 1)]\<rparr>"
  have i: "i < n" using Suc.hyps(2) by simp
  have "pg_remove_loop key i True p = pg_remove_loop key (i + 1) True ?p"
    using i Suc.prems(5) by (intro pg_remove_loop_steps) simp
  also have "\<dots> = (True, ?p\<lparr>pg_recs := del_at (i + 1) n (pg_recs ?p)\<rparr>)"
    using Suc.prems Suc.hyps(2) i by (intro Suc.hyps(1)) (auto simp: pg_ptr_def)
  finally show ?case using i Suc.prems del_at_step [of i n "pg_recs p"] by simp
qed

lemma pg_remove_loop_search:
  "i \<le> j \<Longrightarrow> \<forall>l \<in> {i..<j}. pg_ptr p l \<noteq> None \<and> pg_key p l \<noteq> key \<Longrightarrow>
   pg_remove_loop key i False p = pg_remove_loop key j False p"
proof (induction "j - i" arbitrary: i)
  case (Suc d)
  then have "pg_remove_loop key i False p = pg_remove_loop key (i + 1) False p"
    by (intro pg_remove_loop_steps) simp_all
  also have "\<dots> = pg_remove_loop key j False p" using Suc by (intro Suc.hyps(1)) simp_all
  finally show ?case .
qed simp

lemma pg_remove_key_absent:
  assumes ok: "pg_ok n p" and k: "sint key \<notin> skey ` set (pg_live n p)"
  shows "\<exists>s. pg_remove_key key p = (False, p\<lparr>pg_switch := s\<rparr>)"
proof -
  have l: "length (pg_live n p) = n" using pg_ok_length [OF ok] by blast
  have "pg_remove_loop key 0 False (p\<lparr>pg_switch := s\<rparr>) = (False, p\<lparr>pg_switch := s\<rparr>)" for s
  proof -
    have "pg_remove_loop key 0 False (p\<lparr>pg_switch := s\<rparr>) = pg_remove_loop key n False (p\<lparr>pg_switch := s\<rparr>)"
    proof (rule pg_remove_loop_search)
      show "\<forall>l \<in> {0..<n}. pg_ptr (p\<lparr>pg_switch := s\<rparr>) l \<noteq> None \<and> pg_key (p\<lparr>pg_switch := s\<rparr>) l \<noteq> key"
        using pg_ptr_live [OF ok] pg_key_live [OF ok] k l by (auto simp: image_iff) (metis nth_mem)+
    qed simp
    then show ?thesis using pg_ptr_end [OF ok] by (simp add: pg_remove_loop_steps(1))
  qed
  from this [of "pg_switch p"] this [of "pg_switch p + 1"]
  have "pg_remove_key key p = (False, p\<lparr>pg_switch := (if IS_FORWARD (pg_switch p) then pg_switch p + 1 else pg_switch p)\<rparr>)"
    by (auto simp: pg_remove_key_def Let_def)
  then show ?thesis by blast
qed

lemma pg_key_eq_iff: "pg_ok n p \<Longrightarrow> i < n \<Longrightarrow> j < n \<Longrightarrow> pg_key p i = pg_key p j \<longleftrightarrow> i = j"
  using pg_key_less [of n p i j] pg_key_less [of n p j i] by (metis less_irrefl linorder_neqE_nat)

lemma pg_remove_key_present_eq:
  assumes ok: "pg_ok n p" and i: "i < n" and k: "pg_key p i = key"
  shows "\<exists>s. pg_remove_key key p = (True, p\<lparr>pg_switch := s, pg_recs := del_at i n (pg_recs p), pg_last := int n - 2\<rparr>)"
proof -
  have l: "length (pg_recs p) = 30" "n < 30" "pg_last p = int n - 1" using ok unfolding pg_ok_def by simp_all
  have loop: "pg_remove_loop key 0 False q = (True, q\<lparr>pg_recs := del_at i n (pg_recs p)\<rparr>)"
    if q: "q = p\<lparr>pg_switch := s\<rparr>" for q s
  proof -
    have "pg_remove_loop key 0 False q = pg_remove_loop key i False q"
    proof (rule pg_remove_loop_search)
      show "\<forall>l \<in> {0..<i}. pg_ptr q l \<noteq> None \<and> pg_key q l \<noteq> key"
        using pg_ptr_nonnull [OF ok] pg_key_eq_iff [OF ok _ i] i by (auto simp: q simp flip: k)
    qed simp
    also have "\<dots> = pg_remove_loop key i True q"
      using pg_ptr_nonnull [OF ok i] k by (intro pg_remove_loop_steps) (auto simp: q)
    also have "\<dots> = (True, q\<lparr>pg_recs := del_at i n (pg_recs q)\<rparr>)"
      using l i pg_ptr_nonnull [OF ok] pg_ptr_end [OF ok] by (intro pg_remove_loop_shift) (auto simp: q)
    finally show ?thesis by (simp add: q)
  qed
  have "pg_remove_key key p = (True, p\<lparr>pg_switch := (if IS_FORWARD (pg_switch p) then pg_switch p + 1 else pg_switch p),
      pg_recs := del_at i n (pg_recs p), pg_last := int n - 2\<rparr>)"
    using loop [of "p\<lparr>pg_switch := pg_switch p + 1\<rparr>" "pg_switch p + 1"] loop [of p "pg_switch p"] l(3)
    by (simp add: pg_remove_key_def Let_def)
  then show ?thesis by blast
qed

lemma take_del_at:
  assumes "i < n" "n < length xs"
  shows "take (n - 1) (del_at i n xs) = take i xs @ drop (i + 1) (take n xs)" "del_at i n xs ! (n - 1) = xs ! n"
proof -
  have "take (n - i) (drop (i + 1) xs) = drop (i + 1) (take (n + 1) xs)" using assms by (simp add: drop_take)
  also have "\<dots> = drop (i + 1) (take n xs) @ [xs ! n]" using assms by (simp add: take_Suc_conv_app_nth)
  finally have e: "del_at i n xs = (take i xs @ drop (i + 1) (take n xs)) @ xs ! n # drop n xs" by (simp add: del_at_def)
  have l: "length (take i xs @ drop (i + 1) (take n xs)) = n - 1" using assms by simp
  show "take (n - 1) (del_at i n xs) = take i xs @ drop (i + 1) (take n xs)" 
    unfolding e by (subst l [symmetric], rule append_eq_conv_conj [THEN iffD1, THEN conjunct1, symmetric, OF refl])
  show "del_at i n xs ! (n - 1) = xs ! n" unfolding e l [symmetric] by (rule nth_append_length)
qed

lemma del_at_set: "i < n \<Longrightarrow> n < length xs \<Longrightarrow> set (del_at i n xs) \<subseteq> set xs"
  by (auto simp: del_at_def dest: in_set_takeD in_set_dropD)

lemma pg_remove_key_present:
  assumes ok: "pg_ok n p" and k: "sint key \<in> skey ` set (pg_live n p)"
  shows "\<exists>p'. pg_remove_key key p = (True, p') \<and> pg_ok (n - 1) p' \<and> 0 < n \<and>
    pg_live (n - 1) p' = filter (\<lambda>e. skey e \<noteq> sint key) (pg_live n p) \<and>
    pg_leftmost p' = pg_leftmost p \<and> pg_sibling p' = pg_sibling p \<and> pg_level p' = pg_level p \<and> pg_deleted p' = pg_deleted p \<and>
    set (pg_recs p') \<subseteq> set (pg_recs p)"
proof -
  let ?L = "pg_live n p"
  have l: "length (pg_recs p) = 30" "n < 30" "length ?L = n" using pg_ok_length [OF ok] by blast+
  from k l(3) obtain i where i: "i < n" "skey (?L ! i) = sint key" by (auto simp: in_set_conv_nth image_iff)
  then have "pg_key p i = key" using pg_key_live [OF ok] by (metis signed_word_eqI)
  then obtain s where r: "pg_remove_key key p =
      (True, p\<lparr>pg_switch := s, pg_recs := del_at i n (pg_recs p), pg_last := int n - 2\<rparr>)" (is "_ = (True, ?q)")
    using pg_remove_key_present_eq [OF ok i(1)] by blast
  have L: "?L = take i ?L @ ?L ! i # drop (i + 1) ?L" using i l by (simp add: id_take_nth_drop)
  have s: "sorted_wrt (<) (map skey ?L)" and d: "distinct (pg_leftmost p # map be_ptr ?L)" and nn: "None \<notin> be_ptr ` set ?L"
    and e: "be_ptr (pg_recs p ! n) = None"
    using ok unfolding pg_ok_def by simp_all
  have s': "sorted_wrt (<) (map skey (take i ?L @ ?L ! i # drop (i + 1) ?L))" using s L by simp
  have f: "filter (\<lambda>e. skey e \<noteq> sint key) ?L = take i ?L @ drop (i + 1) ?L"
  proof -
    have "filter (\<lambda>e. skey e \<noteq> sint key) (take i ?L) = take i ?L"
      "filter (\<lambda>e. skey e \<noteq> sint key) (drop (i + 1) ?L) = drop (i + 1) ?L"
      using s' i(2) by (auto simp: sorted_wrt_append filter_id_conv)
    then show ?thesis by (subst L) (use i(2) in simp)
  qed
  have live: "pg_live (n - 1) ?q = filter (\<lambda>e. skey e \<noteq> sint key) ?L"
    unfolding f using take_del_at(1) [OF i(1), of "pg_recs p"] l i(1) by (simp add: pg_live_def)
  have "pg_ok (n - 1) ?q" unfolding pg_ok_def live
  proof (intro conjI)
    show "length (pg_recs ?q) = cardinality" using l i by (simp add: del_at_def)
    show "be_ptr (pg_recs ?q ! (n - 1)) = None" using take_del_at(2) [OF i(1), of "pg_recs p"] l e by simp
    show "sorted_wrt (<) (map skey (filter (\<lambda>e. skey e \<noteq> sint key) ?L))"
      using s by (simp add: sorted_wrt_map sorted_wrt_filter)
    show "distinct (pg_leftmost ?q # map be_ptr (filter (\<lambda>e. skey e \<noteq> sint key) ?L))"
      using d by (auto simp: distinct_map_filter)
    show "n - 1 = 0 \<longrightarrow> be_ptr (pg_recs ?q ! 1) = None"
    proof
      assume "n - 1 = 0"
      then have "n = 1" "i = 0" using i(1) by simp_all
      then show "be_ptr (pg_recs ?q ! 1) = None"
        using l e by (cases "pg_recs p"; cases "tl (pg_recs p)") (simp_all add: del_at_def)
    qed
  qed (use l i nn in auto)
  then show ?thesis using r live i(1) del_at_set [OF i(1), of "pg_recs p"] l by auto
qed

section \<open>Searching a page\<close>

text \<open>The entries not above a key are the first \<open>m\<close> ones.\<close>

lemma pg_split_point:
  assumes ok: "pg_ok n p"
  shows "\<exists>m \<le> n. (\<forall>l < m. sint (pg_key p l) \<le> sint key) \<and> (\<forall>l. m \<le> l \<and> l < n \<longrightarrow> sint key < sint (pg_key p l))"
proof (cases "\<exists>l < n. sint key < sint (pg_key p l)")
  case True
  define m where "m = (LEAST l. l < n \<and> sint key < sint (pg_key p l))"
  have m: "m < n \<and> sint key < sint (pg_key p m)" unfolding m_def by (rule LeastI_ex) (use True in blast)
  have "sint (pg_key p l) \<le> sint key" if "l < m" for l
    using not_less_Least [of l "\<lambda>l. l < n \<and> sint key < sint (pg_key p l)"] that m by (auto simp: m_def)
  moreover have "sint key < sint (pg_key p l)" if "m \<le> l" "l < n" for l
    using pg_key_less [OF ok, of m l] m that by (cases "m = l") auto
  ultimately show ?thesis using m by (intro exI [of _ m]) auto
qed (intro exI [of _ n], auto)

lemma pg_filter_le:
  assumes ok: "pg_ok n p" and m: "m \<le> n" "\<forall>l < m. sint (pg_key p l) \<le> sint key"
    "\<forall>l. m \<le> l \<and> l < n \<longrightarrow> sint key < sint (pg_key p l)"
  shows "filter (\<lambda>e. skey e \<le> sint key) (pg_live n p) = take m (pg_live n p)"
proof -
  let ?L = "pg_live n p"
  have l: "length ?L = n" using pg_ok_length [OF ok] by blast
  have "\<forall>e \<in> set (take m ?L). skey e \<le> sint key"
    using m l by (auto simp: in_set_conv_nth pg_key_live [OF ok])
  moreover have "\<forall>e \<in> set (drop m ?L). \<not> skey e \<le> sint key"
    using m l by (auto simp: in_set_conv_nth not_le simp flip: pg_key_live [OF ok])
  ultimately have "filter (\<lambda>e. skey e \<le> sint key) (take m ?L @ drop m ?L) = take m ?L"
    unfolding filter_append by (simp add: filter_id_conv filter_empty_conv)
  then show ?thesis by simp
qed

lemma pg_scan_right_ok:
  assumes ok: "pg_ok n p"
  shows "0 < i \<Longrightarrow> i \<le> m \<Longrightarrow> m \<le> n \<Longrightarrow> \<forall>l. i \<le> l \<and> l < m \<longrightarrow> sint (pg_key p l) \<le> sint key \<Longrightarrow>
    m = n \<or> sint key < sint (pg_key p m) \<Longrightarrow> pg_scan_right key i p = pg_ptr p (m - 1)"
proof (induction "m - i" arbitrary: i)
  case 0
  then have "i = m" by simp
  then show ?case
    using 0 pg_ptr_end [OF ok] pg_ptr_inj [OF ok, of "m - 1" m] pg_scan_right.simps [of key m p] by (cases "m = n") auto
next
  case (Suc d)
  then have i: "i < n" "sint (pg_key p i) \<le> sint key" by auto
  have "pg_scan_right key i p = pg_scan_right key (i + 1) p"
    using pg_ptr_nonnull [OF ok i(1)] i(2) by (subst pg_scan_right.simps) (auto simp del: not_None_eq)
  then show ?case using Suc.hyps(1) [of "i + 1"] Suc.hyps(2) Suc.prems by simp
qed

lemma pg_scan_left_ok:
  assumes ok: "pg_ok n p"
  shows "m \<le> i \<Longrightarrow> i \<le> n \<Longrightarrow> \<forall>l. m \<le> l \<and> l < i \<longrightarrow> sint key < sint (pg_key p l) \<Longrightarrow>
    \<forall>l < m. sint (pg_key p l) \<le> sint key \<Longrightarrow>
    pg_scan_left key i p = (if m = 0 then None else pg_ptr p (m - 1))"
proof (induction i)
  case (Suc i)
  show ?case
  proof (cases "m = Suc i")
    case True
    then have "sint (pg_key p i) \<le> sint key" using Suc.prems by simp
    moreover have "(if i = 0 then pg_leftmost p else pg_ptr p (i - 1)) \<noteq> pg_ptr p i"
      using pg_ptr_leftmost [OF ok, of i] pg_ptr_inj [OF ok, of "i - 1" i] Suc.prems by auto
    ultimately show ?thesis using True by simp
  next
    case False
    then have "\<not> sint (pg_key p i) \<le> sint key" using Suc.prems by (auto simp: not_le)
    then have "pg_scan_left key (Suc i) p = pg_scan_left key i p" by simp
    then show ?thesis using Suc False by auto
  qed
qed simp

text \<open>The child that an inner page names for a key.\<close>

definition pg_child :: "u64 \<Rightarrow> nat \<Rightarrow> page \<Rightarrow> nat option" where
  "pg_child key n p = last (pg_leftmost p # map be_ptr (filter (\<lambda>e. skey e \<le> sint key) (pg_live n p)))"

lemma pg_child_index:
  assumes ok: "pg_ok n p" and m: "m \<le> n" "\<forall>l < m. sint (pg_key p l) \<le> sint key"
    "\<forall>l. m \<le> l \<and> l < n \<longrightarrow> sint key < sint (pg_key p l)"
  shows "pg_child key n p = (if m = 0 then pg_leftmost p else pg_ptr p (m - 1))"
proof (cases "m = 0")
  case False
  have l: "length (pg_live n p) = n" using pg_ok_length [OF ok] by blast
  have "take m (pg_live n p) \<noteq> []" using False l m(1) by auto
  then have "pg_child key n p = be_ptr (last (take m (pg_live n p)))"
    by (simp add: pg_child_def pg_filter_le [OF assms] last_map)
  also have "last (take m (pg_live n p)) = pg_live n p ! (m - 1)"
    using False l m(1) by (subst last_conv_nth) (auto simp: min_absorb2)
  finally show ?thesis using False m(1) pg_ptr_live [OF ok, of "m - 1"] by simp
qed (simp add: pg_child_def pg_filter_le [OF assms])

lemma pg_search_inner:
  assumes ok: "pg_ok n p" and n: "0 < n" and inner: "pg_leftmost p \<noteq> None" and s: "\<not> pg_to_sibling H key p"
  shows "pg_linear_search H key p = pg_child key n p"
proof -
  obtain c where c: "pg_leftmost p = Some c" using inner by blast
  obtain m where m: "m \<le> n" "\<forall>l < m. sint (pg_key p l) \<le> sint key"
      "\<forall>l. m \<le> l \<and> l < n \<longrightarrow> sint key < sint (pg_key p l)"
    using pg_split_point [OF ok] by metis
  have nl: "m \<noteq> 0 \<Longrightarrow> \<exists>v. pg_ptr p (m - 1) = Some v" using pg_ptr_nonnull [OF ok, of "m - 1"] m(1) by auto
  show ?thesis
  proof (cases "IS_FORWARD (pg_switch p)")
    case fwd: True
    show ?thesis
    proof (cases "m = 0")
      case True
      then have "sint key < sint (pg_key p 0)" using m n by simp
      then show ?thesis
        using fwd True c s pg_ptr_leftmost [OF ok n] by (auto simp: pg_linear_search_def pg_child_index [OF ok m])
    next
      case False
      then have "\<not> sint key < sint (pg_key p 0)" using m by (simp add: not_less)
      moreover have "pg_scan_right key 1 p = pg_ptr p (m - 1)"
        by (rule pg_scan_right_ok [OF ok]) (use False m in \<open>auto simp: le_less\<close>)
      ultimately show ?thesis
        using fwd False c s nl by (auto simp: pg_linear_search_def Let_def pg_child_index [OF ok m])
    qed
  next
    case False
    have "pg_scan_left key n p = (if m = 0 then None else pg_ptr p (m - 1))"
      by (rule pg_scan_left_ok [OF ok]) (use m in auto)
    then show ?thesis
      using False c s nl by (auto simp: pg_linear_search_def pg_count_ok [OF ok] pg_child_index [OF ok m])
  qed
qed

text \<open>A leaf.\<close>

lemma pg_entries_distinct:
  assumes "pg_ok n p"
  shows "distinct (map fst (pg_entries n p))"
proof -
  have "sorted_wrt (<) (map skey (pg_live n p))" using assms unfolding pg_ok_def by blast
  then show ?thesis by (simp add: pg_entries_def strict_sorted_iff o_def)
qed

lemma pg_get_index:
  assumes ok: "pg_ok n p" and i: "i < n"
  shows "map_of (pg_entries n p) (sint (pg_key p i)) = pg_ptr p i"
proof -
  have "(sint (pg_key p i), the (pg_ptr p i)) \<in> set (pg_entries n p)"
    using i ok by (metis nth_mem pg_entries_length pg_entries_nth)
  then have "map_of (pg_entries n p) (sint (pg_key p i)) = Some (the (pg_ptr p i))"
    by (rule map_of_is_SomeI [OF pg_entries_distinct [OF ok]])
  then show ?thesis using pg_ptr_nonnull [OF ok i] by auto
qed

lemma pg_get_none: "pg_ok n p \<Longrightarrow> \<forall>i < n. pg_key p i \<noteq> key \<Longrightarrow> map_of (pg_entries n p) (sint key) = None"
  by (auto simp: map_of_eq_None_iff in_set_conv_nth pg_entries_nth) (metis signed_word_eqI)

lemma pg_find_right_hit:
  assumes ok: "pg_ok n p" and j: "j < n" "pg_key p j = key"
  shows "0 < i \<Longrightarrow> i \<le> j \<Longrightarrow> pg_find_right key i p = pg_ptr p j"
proof (induction "j - i" arbitrary: i)
  case 0
  then show ?case
    using j pg_ptr_inj [OF ok, of "j - 1" j] pg_ptr_nonnull [OF ok j(1)] pg_find_right.simps [of key j p] by auto
next
  case (Suc d)
  have i: "i < j" using Suc.hyps(2) by simp
  then have "pg_key p i \<noteq> key" using pg_key_eq_iff [OF ok _ j(1), of i] j by auto
  then have "pg_find_right key i p = pg_find_right key (i + 1) p"
    using pg_ptr_nonnull [OF ok, of i] i j by (subst pg_find_right.simps) (auto simp del: not_None_eq)
  then show ?case using Suc.hyps(1) [of "i + 1"] Suc.hyps(2) Suc.prems i by simp
qed

lemma pg_find_right_miss:
  assumes ok: "pg_ok n p" and k: "\<forall>l < n. pg_key p l \<noteq> key"
  shows "i \<le> n \<Longrightarrow> pg_find_right key i p = None"
proof (induction "n - i" arbitrary: i)
  case 0
  then show ?case using pg_ptr_end [OF ok] pg_find_right.simps [of key n p] by simp
next
  case (Suc d)
  have i: "i < n" using Suc.hyps(2) by simp
  then have "pg_find_right key i p = pg_find_right key (i + 1) p"
    using pg_ptr_nonnull [OF ok i] k by (subst pg_find_right.simps) (auto simp del: not_None_eq)
  then show ?case using Suc.hyps(1) [of "i + 1"] Suc.hyps(2) i by simp
qed

lemma pg_find_left_skip: "0 < i \<Longrightarrow> pg_key p i \<noteq> key \<Longrightarrow> pg_find_left key (Suc i) p = pg_find_left key i p"
  by (cases i) simp_all

lemma pg_find_left_hit:
  assumes ok: "pg_ok n p" and j: "j < n" "pg_key p j = key"
  shows "j < i \<Longrightarrow> i \<le> n \<Longrightarrow> pg_find_left key i p = pg_ptr p j"
proof (induction i)
  case (Suc i)
  show ?case
  proof (cases "i = j")
    case True
    then show ?thesis
      using j pg_ptr_inj [OF ok, of "j - 1" j] pg_ptr_nonnull [OF ok j(1)] by (cases j) (auto simp del: not_None_eq)
  next
    case False
    then have "pg_key p i \<noteq> key" using pg_key_eq_iff [OF ok _ j(1), of i] j Suc.prems by auto
    then have "pg_find_left key (Suc i) p = pg_find_left key i p" using False Suc.prems by (intro pg_find_left_skip) simp_all
    then show ?thesis using Suc False by simp
  qed
qed simp

lemma pg_find_left_miss:
  assumes ok: "pg_ok n p" and k: "\<forall>l < n. pg_key p l \<noteq> key"
  shows "i \<le> max 1 n \<Longrightarrow> pg_find_left key i p = None"
proof (induction i)
  case (Suc i)
  show ?case
  proof (cases "i = 0")
    case True
    then show ?thesis using k pg_ptr_end [OF ok] by (cases "n = 0") auto
  next
    case False
    then have "pg_find_left key (Suc i) p = pg_find_left key i p" using k Suc.prems by (intro pg_find_left_skip) auto
    then show ?thesis using Suc by simp
  qed
qed simp

lemma pg_search_leaf:
  assumes ok: "pg_ok n p" and leaf: "pg_leftmost p = None" and s: "\<not> pg_to_sibling H key p"
  shows "pg_linear_search H key p = map_of (pg_entries n p) (sint key)"
proof (cases "\<exists>j < n. pg_key p j = key")
  case True
  then obtain j where j: "j < n" "pg_key p j = key" by blast
  obtain v where v: "pg_ptr p j = Some v" using pg_ptr_nonnull [OF ok j(1)] by blast
  have get: "map_of (pg_entries n p) (sint key) = Some v" using pg_get_index [OF ok j(1)] j v by simp
  have r: "pg_find_right key 1 p = Some v" if "j \<noteq> 0" using pg_find_right_hit [OF ok j, of 1] that v by simp
  have l: "pg_find_left key (max 1 n) p = Some v" using pg_find_left_hit [OF ok j, of n] j v by simp
  have k0: "pg_key p 0 = key \<longleftrightarrow> j = 0" using pg_key_eq_iff [OF ok _ j(1), of 0] j by auto
  show ?thesis
    using leaf s v r l j by (cases "j = 0") (auto simp: pg_linear_search_def get k0 pg_count_ok [OF ok])
next
  case False
  then have k: "\<forall>l < n. pg_key p l \<noteq> key" by blast
  have get: "map_of (pg_entries n p) (sint key) = None" by (rule pg_get_none [OF ok k])
  have f: "\<not> (pg_key p 0 = key \<and> pg_ptr p 0 \<noteq> None)" using k pg_ptr_end [OF ok] by (cases "n = 0") auto
  have r: "pg_find_right key 1 p = None"
  proof (cases "n = 0")
    case True
    then have "pg_ptr p 1 = None" using ok by (simp add: pg_ok_def pg_ptr_def)
    then show ?thesis by (simp add: pg_find_right.simps)
  qed (use pg_find_right_miss [OF ok k, of 1] in simp)
  have l: "pg_find_left key (max 1 n) p = None" by (rule pg_find_left_miss [OF ok k]) simp
  show ?thesis using leaf s f r l by (simp add: pg_linear_search_def get pg_count_ok [OF ok])
qed

lemma pg_seekLE_leaf:
  assumes ok: "pg_ok n p" and leaf: "pg_leftmost p = None" and s: "\<not> pg_to_sibling H key p"
  shows "pg_seekLE H key p = pg_child key n p"
proof -
  obtain m where m: "m \<le> n" "\<forall>l < m. sint (pg_key p l) \<le> sint key"
      "\<forall>l. m \<le> l \<and> l < n \<longrightarrow> sint key < sint (pg_key p l)"
    using pg_split_point [OF ok] by metis
  have left: "pg_scan_left key n p = (if m = 0 then None else pg_ptr p (m - 1))"
    by (rule pg_scan_left_ok [OF ok]) (use m in auto)
  have right: "(if sint key < sint (pg_key p 0) then None else pg_scan_right key 1 p) = (if m = 0 then None else pg_ptr p (m - 1))"
  proof (cases "m = 0")
    case True
    show ?thesis
    proof (cases "n = 0")
      case True
      then have "pg_ptr p 1 = None" "pg_ptr p 0 = None" using ok pg_ptr_end [OF ok] by (simp_all add: pg_ok_def pg_ptr_def)
      then show ?thesis using True m by (simp add: pg_scan_right.simps)
    qed (use True m in simp)
  next
    case False
    then have "pg_scan_right key 1 p = pg_ptr p (m - 1)"
      by (intro pg_scan_right_ok [OF ok]) (use m in \<open>auto simp: le_less\<close>)
    moreover have "\<not> sint key < sint (pg_key p 0)" using m False by (simp add: not_less)
    ultimately show ?thesis using False by simp
  qed
  show ?thesis using s leaf left right by (simp add: pg_seekLE_def pg_count_ok [OF ok] pg_child_index [OF ok m])
qed

section \<open>Splitting a page\<close>

lemma pg_place_last: "\<forall>x \<in> set es. skey x < skey e \<Longrightarrow> pg_place e es = es @ [e]"
  unfolding pg_place_def by (subst filter_True, force, subst filter_False, force, simp)

lemma pg_migrate_Suc: "start \<le> j \<Longrightarrow> pg_migrate start (Suc j) p s =
    (case pg_migrate start j p s of (c, s1) \<Rightarrow> pg_insert_key (pg_key p j) (pg_ptr p j) c s1)"
  by (simp add: pg_migrate_def)

lemma pg_migrate_ok:
  assumes ok: "pg_ok n p" and start: "start \<le> n" and j: "start \<le> j" "j \<le> n"
  shows "\<exists>s. pg_migrate start j p (pg_new level) = (j - start, s) \<and> pg_ok (j - start) s \<and>
    pg_live (j - start) s = take (j - start) (drop start (pg_live n p)) \<and> pg_leftmost s = None \<and> pg_sibling s = None \<and>
    pg_level s = level \<and> \<not> pg_deleted s \<and>
    be_key ` set (pg_recs s) \<subseteq> insert 0x7FFFFFFFFFFFFFFF (be_key ` set (drop start (pg_live n p)))"
  using j
proof (induction j rule: dec_induct)
  case base
  have "be_key ` set (pg_recs (pg_new level)) \<subseteq> {0x7FFFFFFFFFFFFFFF}"
    by (auto simp: pg_new_def entry_new_def dest!: set_update_subset_insert [THEN subsetD])
  then show ?case
    using pg_ok_new [of level] by (auto simp: pg_migrate_def pg_live_def) (auto simp: pg_new_def)
next
  case (step j)
  let ?L = "pg_live n p" and ?c = "j - start"
  have jn: "j < n" "start \<le> j" using step by simp_all
  have l: "length (pg_recs p) = 30" "length ?L = n" "n < 30" using pg_ok_length [OF ok] by blast+
  obtain s where s: "pg_migrate start j p (pg_new level) = (?c, s)" "pg_ok ?c s" "pg_live ?c s = take ?c (drop start ?L)"
    "pg_leftmost s = None" "pg_sibling s = None" "pg_level s = level" "\<not> pg_deleted s"
    "be_key ` set (pg_recs s) \<subseteq> insert 0x7FFFFFFFFFFFFFFF (be_key ` set (drop start ?L))"
    using step.IH jn by auto
  let ?e = "\<lparr>be_key = pg_key p j, be_ptr = pg_ptr p j\<rparr>"
  have e: "?e = ?L ! j" using jn by (simp add: pg_key_live [OF ok] pg_ptr_live [OF ok])
  have "\<exists>i < j. x = ?L ! i" if "x \<in> set (take ?c (drop start ?L))" for x
  proof -
    from that obtain i where "i < ?c" "x = ?L ! (start + i)" using l jn by (auto simp: in_set_conv_nth)
    then show ?thesis by (intro exI [of _ "start + i"]) auto
  qed
  then have prev: "\<exists>i < j. be_key x = pg_key p i \<and> be_ptr x = pg_ptr p i" if "x \<in> set (pg_live ?c s)" for x
    using that s(3) jn pg_key_live [OF ok] pg_ptr_live [OF ok] by (metis order.strict_trans)
  have less: "\<forall>x \<in> set (pg_live ?c s). skey x < skey ?e" using prev pg_key_less [OF ok] jn by fastforce
  let ?s = "snd (pg_insert_key (pg_key p j) (pg_ptr p j) ?c s)"
  have m: "pg_migrate start (Suc j) p (pg_new level) = (Suc ?c, ?s)"
    using jn by (simp add: pg_migrate_Suc s(1) prod_eq_iff)
  have c29: "?c < 29" using jn l by simp
  have sc: "Suc j - start = ?c + 1" using jn by simp
  have ok1: "pg_ok (Suc j - start) ?s" unfolding sc
  proof (rule pg_insert_key_ok [OF s(2) c29])
    show "sint (pg_key p j) \<notin> skey ` set (pg_live ?c s)" using less by fastforce
    show "pg_ptr p j \<notin> be_ptr ` set (pg_live ?c s)" using prev pg_ptr_inj [OF ok] jn by fastforce
  qed (use pg_ptr_nonnull [OF ok jn(1)] s(4) in auto)
  have live1: "pg_live (Suc j - start) ?s = take (Suc j - start) (drop start ?L)"
    unfolding sc pg_insert_key_live [OF s(2) c29] unfolding pg_place_last [OF less] unfolding s(3) e
    using jn l by (simp add: Suc_diff_le take_Suc_conv_app_nth)
  have "drop start ?L ! ?c \<in> set (drop start ?L)" by (rule nth_mem) (use jn l in simp)
  then have "?L ! j \<in> set (drop start ?L)" using jn l by simp
  then have "pg_key p j \<in> be_key ` set (drop start ?L)" using e by (metis bentry.select_convs(1) image_eqI)
  then have keys: "be_key ` set (pg_recs ?s) \<subseteq> insert 0x7FFFFFFFFFFFFFFF (be_key ` set (drop start ?L))"
    by (intro order_trans [OF pg_insert_key_keys [OF s(2) c29]] insert_subsetI insertI2 s(8))
  have "pg_migrate start (Suc j) p (pg_new level) = (Suc j - start, ?s)" by (rule trans [OF m]) (use sc in simp)
  moreover have "pg_leftmost ?s = None" "pg_sibling ?s = None" "pg_level ?s = level" "\<not> pg_deleted ?s"
    using s(4-7) by simp_all
  ultimately show ?case using ok1 live1 keys by blast
qed

lemma pg_split_ok:
  assumes ok: "pg_ok 29 p"
  shows "\<exists>c p1 s1. pg_split b 29 p = (pg_key p 14, c, p1, s1) \<and> pg_ok 14 p1 \<and> pg_ok c s1 \<and>
    c = (if pg_leftmost p = None then 15 else 14) \<and>
    pg_live 14 p1 = take 14 (pg_live 29 p) \<and> pg_live c s1 = drop (29 - c) (pg_live 29 p) \<and>
    pg_leftmost p1 = pg_leftmost p \<and> pg_leftmost s1 = (if pg_leftmost p = None then None else pg_ptr p 14) \<and>
    pg_sibling p1 = Some b \<and> pg_sibling s1 = pg_sibling p \<and> pg_level p1 = pg_level p \<and> pg_level s1 = pg_level p \<and>
    pg_deleted p1 = pg_deleted p \<and> \<not> pg_deleted s1 \<and>
    be_key ` set (pg_recs p1) \<subseteq> be_key ` set (pg_recs p) \<and>
    be_key ` set (pg_recs s1) \<subseteq> insert 0x7FFFFFFFFFFFFFFF (be_key ` set (drop 14 (pg_live 29 p)))"
proof -
  let ?L = "pg_live 29 p" and ?new = "pg_new (pg_level p)"
  define m where "m = (if pg_leftmost p = None then 14 else 15 :: nat)"
  have m: "m \<le> 29" "m = 14 \<and> pg_leftmost p = None \<or> m = 15 \<and> pg_leftmost p \<noteq> None" by (simp_all add: m_def)
  have l: "length (pg_recs p) = 30" "length ?L = 29" using pg_ok_length [OF ok] by blast+
  have S: "sorted_wrt (<) (map skey ?L)" and d: "distinct (pg_leftmost p # map be_ptr ?L)" and nn: "None \<notin> be_ptr ` set ?L"
    using ok unfolding pg_ok_def by simp_all
  obtain s where s: "pg_migrate m 29 p ?new = (29 - m, s)" "pg_ok (29 - m) s"
    "pg_live (29 - m) s = take (29 - m) (drop m ?L)" "pg_leftmost s = None" "pg_sibling s = None" "pg_level s = pg_level p"
    "\<not> pg_deleted s" "be_key ` set (pg_recs s) \<subseteq> insert 0x7FFFFFFFFFFFFFFF (be_key ` set (drop m ?L))"
    using pg_migrate_ok [OF ok m(1), of 29 "pg_level p"] m(1) by auto
  define p1 where "p1 = p\<lparr>pg_sibling := Some b, pg_switch := (if IS_FORWARD (pg_switch p) then pg_switch p + 2 else pg_switch p + 1),
      pg_recs := (pg_recs p)[14 := (pg_recs p ! 14)\<lparr>be_ptr := None\<rparr>], pg_last := 13\<rparr>"
  define s1 where "s1 = s\<lparr>pg_leftmost := (if pg_leftmost p = None then None else pg_ptr p 14), pg_sibling := pg_sibling p\<rparr>"
  have split: "pg_split b 29 p = (pg_key p 14, 29 - m, p1, s1)"
    using s(1,4) m(2) by (auto simp: pg_split_def Let_def p1_def s1_def)
  have p1l: "pg_live 14 p1 = take 14 ?L" by (simp add: pg_live_def p1_def)
  have s1l: "pg_live (29 - m) s1 = drop m ?L" using s(3) l m(1) by (simp add: pg_live_def s1_def)
  have "pg_ok 14 p1" unfolding pg_ok_def p1l
  proof (intro conjI)
    show "sorted_wrt (<) (map skey (take 14 ?L))" using sorted_wrt_take [OF S, of 14] by (simp add: take_map)
    show "distinct (pg_leftmost p1 # map be_ptr (take 14 ?L))"
      using d by (auto simp: p1_def simp flip: take_map dest: in_set_takeD)
    show "None \<notin> be_ptr ` set (take 14 ?L)" using nn by (auto dest: in_set_takeD)
  qed (use l in \<open>simp_all add: p1_def\<close>)
  moreover have "pg_ok (29 - m) s1"
  proof -
    have len: "length (pg_recs s) = cardinality" "29 - m < cardinality" "be_ptr (pg_recs s ! (29 - m)) = None"
      "pg_last s = int (29 - m) - 1" using s(2) unfolding pg_ok_def by blast+
    have e: "pg_ptr p 14 = be_ptr (?L ! 14)" using pg_ptr_live [OF ok, of 14] by simp
    have L: "drop 14 ?L = ?L ! 14 # drop 15 ?L" using l by (simp add: Cons_nth_drop_Suc [symmetric])
    have dd: "distinct (map be_ptr (drop 14 ?L))" "distinct (map be_ptr (drop m ?L))" using d by (simp_all flip: drop_map)
    show ?thesis unfolding pg_ok_def s1l
    proof (intro conjI)
      show "sorted_wrt (<) (map skey (drop m ?L))" using sorted_wrt_drop [OF S, of m] by (simp add: drop_map)
      show "distinct (pg_leftmost s1 # map be_ptr (drop m ?L))"
        using dd nn m(2) unfolding L e s1_def by (auto dest: in_set_dropD)
      show "None \<notin> be_ptr ` set (drop m ?L)" using nn by (auto dest: in_set_dropD)
    qed (use len m(2) in \<open>auto simp: s1_def\<close>)
  qed
  moreover have "be_key ` set (pg_recs p1) \<subseteq> be_key ` set (pg_recs p)"
    using l by (auto simp: p1_def dest!: set_update_subset_insert [THEN subsetD])
  moreover have "set (drop m ?L) \<subseteq> set (drop 14 ?L)" using m by (intro set_drop_subset_set_drop) auto
  then have "be_key ` set (pg_recs s) \<subseteq> insert 0x7FFFFFFFFFFFFFFF (be_key ` set (drop 14 ?L))" using s(8) by blast
  then have "be_key ` set (pg_recs s1) \<subseteq> insert 0x7FFFFFFFFFFFFFFF (be_key ` set (drop 14 ?L))" by (simp add: s1_def)
  moreover have "29 - m = (if pg_leftmost p = None then 15 else 14)" "29 - (29 - m) = m" using m by auto
  ultimately show ?thesis using split p1l s1l s(6,7)
    by (intro exI [of _ "29 - m"] exI [of _ p1] exI [of _ s1] conjI) (simp_all add: p1_def s1_def)
qed

end
