(* ===== verification/BTreeLevels.thy ===== *)
theory BTreeLevels
  imports BTreePage
begin

text \<open>
  The persistent B+-tree as a stack of levels: a level is the list of its pages with their lower bounds, linked
  through the sibling pointers, and the entries of one level are the pages of the level below.
\<close>

section \<open>Sorted lists of keys and values\<close>

definition kv_ins :: "int \<Rightarrow> nat \<Rightarrow> (int \<times> nat) list \<Rightarrow> (int \<times> nat) list" where
  "kv_ins k v xs = filter (\<lambda>x. fst x < k) xs @ (k, v) # filter (\<lambda>x. k < fst x) xs"

abbreviation kv_sorted :: "(int \<times> nat) list \<Rightarrow> bool" where
  "kv_sorted xs \<equiv> sorted_wrt (<) (map fst xs)"

lemma kv_ins_append:
  assumes "\<forall>x \<in> set xs. fst x < k" and "\<forall>x \<in> set zs. k < fst x"
  shows "kv_ins k v (xs @ ys @ zs) = xs @ kv_ins k v ys @ zs"
proof -
  have "filter (\<lambda>x. fst x < k) xs = xs" "filter (\<lambda>x. k < fst x) zs = zs"
    "filter (\<lambda>x. k < fst x) xs = []" "filter (\<lambda>x. fst x < k) zs = []"
    using assms by (force simp: filter_id_conv filter_empty_conv)+
  then show ?thesis by (simp add: kv_ins_def)
qed

lemma kv_ins_set: "k \<notin> fst ` set xs \<Longrightarrow> set (kv_ins k v xs) = insert (k, v) (set xs)"
  by (auto simp: kv_ins_def image_iff)

lemma kv_ins_sorted: "kv_sorted xs \<Longrightarrow> kv_sorted (kv_ins k v xs)"
  by (auto simp: kv_ins_def sorted_wrt_append sorted_wrt_map sorted_wrt_filter)

lemma kv_sorted_distinct: "kv_sorted xs \<Longrightarrow> distinct (map fst xs)"
  by (simp add: strict_sorted_iff)

lemma kv_split_filter:
  "kv_sorted xs \<Longrightarrow> xs = filter (\<lambda>x. fst x \<le> k) xs @ filter (\<lambda>x. k < fst x) xs"
proof (induction xs)
  case (Cons x xs)
  show ?case
  proof (cases "fst x \<le> k")
    case False
    then have "\<forall>y \<in> set xs. k < fst y" using Cons.prems by force
    then have "filter (\<lambda>x. fst x \<le> k) xs = []" "filter (\<lambda>x. k < fst x) xs = xs"
      by (force simp: filter_id_conv filter_empty_conv)+
    then show ?thesis using False by simp
  qed (use Cons in simp)
qed simp

text \<open>The last pair whose key is not above \<open>k\<close>.\<close>

definition lv_find :: "int \<Rightarrow> (int \<times> nat) list \<Rightarrow> int \<times> nat" where
  "lv_find k xs = last (filter (\<lambda>x. fst x \<le> k) xs)"

lemma lv_find_split:
  assumes s: "kv_sorted xs" and ne: "\<exists>x \<in> set xs. fst x \<le> k"
  shows "\<exists>xs1 xs2. xs = xs1 @ lv_find k xs # xs2 \<and> fst (lv_find k xs) \<le> k \<and> (\<forall>x \<in> set xs2. k < fst x)"
proof -
  let ?f = "filter (\<lambda>x. fst x \<le> k) xs"
  have f: "?f \<noteq> []" using ne by (auto simp: filter_empty_conv)
  then have "last ?f \<in> set ?f" by (rule last_in_set)
  then have "fst (lv_find k xs) \<le> k" by (simp add: lv_find_def)
  moreover have "xs = butlast ?f @ lv_find k xs # filter (\<lambda>x. k < fst x) xs"
    using kv_split_filter [OF s, of k] append_butlast_last_id [OF f] unfolding lv_find_def
    by (metis append.assoc append_Cons append_Nil)
  ultimately show ?thesis by (intro exI [of _ "butlast ?f"] exI [of _ "filter (\<lambda>x. k < fst x) xs"]) auto
qed

lemma lv_find_append:
  assumes "\<forall>x \<in> set zs. k < fst x" and "\<exists>y \<in> set ys. fst y \<le> k"
  shows "lv_find k (xs @ ys @ zs) = lv_find k ys"
proof -
  have "filter (\<lambda>x. fst x \<le> k) zs = []" using assms(1) by (force simp: filter_empty_conv)
  moreover have "filter (\<lambda>x. fst x \<le> k) ys \<noteq> []" using assms(2) by (auto simp: filter_empty_conv)
  ultimately show ?thesis by (simp add: lv_find_def)
qed

section \<open>Levels\<close>

definition lv_hi :: "(int \<times> nat) list \<Rightarrow> int" where
  "lv_hi rest = (case rest of [] \<Rightarrow> 2 ^ 63 | x # _ \<Rightarrow> fst x)"

text \<open>
  A page of level \<open>lev\<close> with the lower bound \<open>l\<close>, followed by the pages \<open>rest\<close>. All its records, also those past
  the end, have keys from \<open>l\<close> on, because the searches look at the first record of a sibling that may be empty.
\<close>

definition pg_in :: "nat \<Rightarrow> int \<Rightarrow> (int \<times> nat) list \<Rightarrow> nat \<Rightarrow> page \<Rightarrow> bool" where
  "pg_in lev l rest n p \<longleftrightarrow> pg_ok n p \<and> pg_level p = lev \<and> \<not> pg_deleted p \<and>
     pg_sibling p = (case rest of [] \<Rightarrow> None | x # _ \<Rightarrow> Some (snd x)) \<and>
     (\<forall>k \<in> be_key ` set (pg_recs p). l \<le> sint k) \<and> (\<forall>e \<in> set (pg_live n p). skey e < lv_hi rest) \<and>
     (if lev = 0 then pg_leftmost p = None
      else pg_leftmost p \<noteq> None \<and> 0 < n \<and> (\<forall>e \<in> set (pg_live n p). l < skey e))"

lemma pg_in_leaf: "pg_in 0 l rest n p \<Longrightarrow> pg_leftmost p = None"
  by (simp add: pg_in_def)

lemma pg_in_inner: "pg_in lev l rest n p \<Longrightarrow> lev \<noteq> 0 \<Longrightarrow> \<exists>c. pg_leftmost p = Some c \<and> 0 < n \<and> (\<forall>e \<in> set (pg_live n p). l < skey e)"
  unfolding pg_in_def by (metis option.exhaust)

fun lv_ok :: "(nat \<rightharpoonup> page) \<Rightarrow> nat \<Rightarrow> (int \<times> nat) list \<Rightarrow> bool" where
  "lv_ok H lev [] = True"
| "lv_ok H lev ((l, a) # rest) = ((\<exists>n p. H a = Some p \<and> pg_in lev l rest n p) \<and> lv_ok H lev rest)"

text \<open>The content of a page and of a level: in an inner page the leftmost pointer stands for the lower bound.\<close>

definition pg_cont :: "int \<Rightarrow> page \<Rightarrow> (int \<times> nat) list" where
  "pg_cont l p = (case pg_leftmost p of None \<Rightarrow> [] | Some c \<Rightarrow> [(l, c)]) @ pg_entries (pg_count p) p"

fun lv_cont :: "(nat \<rightharpoonup> page) \<Rightarrow> (int \<times> nat) list \<Rightarrow> (int \<times> nat) list" where
  "lv_cont H [] = []"
| "lv_cont H ((l, a) # rest) = (case H a of None \<Rightarrow> [] | Some p \<Rightarrow> pg_cont l p) @ lv_cont H rest"

lemma lv_cont_append [simp]: "lv_cont H (L1 @ L2) = lv_cont H L1 @ lv_cont H L2"
  by (induction H L1 rule: lv_cont.induct) auto

lemma lv_cont_cong: "\<forall>x \<in> set L. H' (snd x) = H (snd x) \<Longrightarrow> lv_cont H' L = lv_cont H L"
  by (induction H L rule: lv_cont.induct) auto

lemma lv_ok_cong: "\<forall>x \<in> set L. H' (snd x) = H (snd x) \<Longrightarrow> lv_ok H' lev L = lv_ok H lev L"
  by (induction H lev L rule: lv_ok.induct) auto

lemma pg_in_rest: "hd rest = hd rest' \<Longrightarrow> rest = [] \<longleftrightarrow> rest' = [] \<Longrightarrow> pg_in lev l rest n p = pg_in lev l rest' n p"
  by (cases rest; cases rest') (auto simp: pg_in_def lv_hi_def)

lemma lv_ok_prefix:
  assumes "lv_ok H lev (L1 @ X)" and "X \<noteq> []" "Y \<noteq> []" "hd X = hd Y" and "lv_ok H' lev Y" and "\<forall>x \<in> set L1. H' (snd x) = H (snd x)"
  shows "lv_ok H' lev (L1 @ Y)"
  using assms(1,6)
proof (induction L1)
  case (Cons x L1)
  obtain l a where x: "x = (l, a)" by fastforce
  have "pg_in lev l (L1 @ X) n p = pg_in lev l (L1 @ Y) n p" for n p
    using assms(2-4) by (intro pg_in_rest) (cases L1, auto)
  then show ?case using Cons by (auto simp: x)
qed (use assms(5) in simp)

lemma lv_ok_suffix: "lv_ok H lev (L1 @ L2) \<Longrightarrow> lv_ok H lev L2"
  by (induction L1) auto

lemma pg_cont_ok: "pg_ok n p \<Longrightarrow> pg_cont l p = (case pg_leftmost p of None \<Rightarrow> [] | Some c \<Rightarrow> [(l, c)]) @ pg_entries n p"
  by (simp add: pg_cont_def pg_count_ok)

lemma pg_live_recs: "e \<in> set (pg_live n p) \<Longrightarrow> e \<in> set (pg_recs p)"
  unfolding pg_live_def by (rule in_set_takeD)

lemma pg_in_bounds:
  assumes "pg_in lev l rest n p"
  shows "x \<in> set (pg_cont l p) \<Longrightarrow> l \<le> fst x \<and> (fst x < lv_hi rest)"
proof -
  assume x: "x \<in> set (pg_cont l p)"
  have ok: "pg_ok n p" using assms unfolding pg_in_def by blast
  have e: "l \<le> skey e \<and> skey e < lv_hi rest" if "e \<in> set (pg_live n p)" for e
    using assms pg_live_recs [OF that] that unfolding pg_in_def by blast
  show ?thesis
  proof (cases "x \<in> set (pg_entries n p)")
    case True
    then show ?thesis using e by (auto simp: pg_entries_def)
  next
    case False
    then obtain c where f: "x = (l, c)" "pg_leftmost p = Some c" using x by (auto simp: pg_cont_ok [OF ok] split: option.splits)
    then have "0 < n" "\<forall>e \<in> set (pg_live n p). l < skey e" using assms unfolding pg_in_def by (auto split: if_splits)
    moreover have "length (pg_live n p) = n" using pg_ok_length [OF ok] by blast
    ultimately obtain e' where "e' \<in> set (pg_live n p)" "l < skey e'" by (cases "pg_live n p") auto
    then show ?thesis using e f by fastforce
  qed
qed

lemma lv_cont_ge:
  assumes "lv_ok H lev L" "kv_sorted L" "\<forall>x \<in> set L. k < fst x"
  shows "\<forall>x \<in> set (lv_cont H L). k < fst x"
  using assms
proof (induction H lev L rule: lv_ok.induct)
  case (2 H lev l a rest)
  then obtain n p where p: "H a = Some p" "pg_in lev l rest n p" by auto
  show ?case
  proof
    fix x assume "x \<in> set (lv_cont H ((l, a) # rest))"
    then consider "x \<in> set (pg_cont l p)" | "x \<in> set (lv_cont H rest)" using p(1) by auto
    then show "k < fst x"
    proof cases
      case 1
      have "k < l" using "2.prems"(3) by simp
      then show ?thesis using pg_in_bounds [OF p(2) 1] by simp
    next
      case 2
      then show ?thesis using "2.IH" "2.prems" by auto
    qed
  qed
qed simp

lemma lv_cont_less:
  assumes "lv_ok H lev (L1 @ (l, a) # L2)" "kv_sorted (L1 @ (l, a) # L2)"
  shows "\<forall>x \<in> set (lv_cont H L1). fst x < l"
  using assms
proof (induction L1)
  case (Cons y L1)
  obtain u b where y: "y = (u, b)" by fastforce
  obtain n p where p: "H b = Some p" "pg_in lev u (L1 @ (l, a) # L2) n p" using Cons.prems(1) by (auto simp: y)
  have "lv_hi (L1 @ (l, a) # L2) \<le> l" using Cons.prems(2) by (cases L1) (auto simp: lv_hi_def)
  then show ?case using Cons pg_in_bounds [OF p(2)] p(1) by (fastforce simp: y)
qed simp

section \<open>The page that covers a key\<close>

lemma lv_target:
  assumes ok: "lv_ok H lev L" and s: "kv_sorted L" and ne: "\<exists>x \<in> set L. fst x \<le> sint (key :: u64)"
  shows "\<exists>L1 l a L2 n p. L = L1 @ (l, a) # L2 \<and> lv_find (sint key) L = (l, a) \<and> l \<le> sint key \<and> sint key < lv_hi L2 \<and>
    (\<forall>x \<in> set L2. sint key < fst x) \<and> H a = Some p \<and> pg_in lev l L2 n p \<and> lv_ok H lev L2 \<and>
    (\<forall>x \<in> set (lv_cont H L1). fst x < l) \<and> (\<forall>x \<in> set (lv_cont H L2). sint key < fst x)"
proof -
  obtain l a where f: "lv_find (sint key) L = (l, a)" by fastforce
  obtain L1 L2 where L: "L = L1 @ (l, a) # L2" "l \<le> sint key" "\<forall>x \<in> set L2. sint key < fst x"
    using lv_find_split [OF s ne] unfolding f by auto
  have t: "lv_ok H lev ((l, a) # L2)" using ok lv_ok_suffix unfolding L(1) by blast
  then obtain n p where p: "H a = Some p" "pg_in lev l L2 n p" by auto
  have "sint key < 2 ^ 63" using sint_lt [of key] by simp
  then have "sint key < lv_hi L2" using L(3) by (cases L2) (auto simp: lv_hi_def)
  moreover have "\<forall>x \<in> set (lv_cont H L1). fst x < l" using lv_cont_less ok s unfolding L(1) by blast
  moreover have "\<forall>x \<in> set (lv_cont H L2). sint key < fst x"
    using lv_cont_ge [of H lev L2] t s L(3) by (auto simp: L(1) sorted_wrt_append)
  ultimately show ?thesis using L f p t by auto
qed

lemma lv_page:
  assumes "lv_ok H lev L" "kv_sorted L" "\<exists>x \<in> set L. fst x \<le> sint (key :: u64)"
  shows "\<exists>p. H (snd (lv_find (sint key) L)) = Some p \<and> pg_level p = lev \<and> (lev = 0 \<longrightarrow> pg_leftmost p = None)"
proof -
  obtain l a L2 n p where "lv_find (sint key) L = (l, a)" "H a = Some p" "pg_in lev l L2 n p"
    using lv_target [OF assms] by blast
  then show ?thesis by (simp add: pg_in_def)
qed

lemma pg_in_not_sibling:
  assumes p: "pg_in lev l rest n p" and rest: "lv_ok H lev rest" and k: "sint key < lv_hi rest"
  shows "\<not> pg_to_sibling H key p"
proof (cases rest)
  case Nil
  then show ?thesis using p by (simp add: pg_in_def pg_to_sibling_def)
next
  case (Cons x rest')
  obtain u b where x: "x = (u, b)" by fastforce
  obtain m q where q: "H b = Some q" "pg_in lev u rest' m q" using rest by (auto simp: Cons x)
  have "length (pg_recs q) = 30" using q(2) by (simp add: pg_in_def pg_ok_def)
  then have "pg_recs q ! 0 \<in> set (pg_recs q)" by (intro nth_mem) simp
  then have "u \<le> sint (pg_key q 0)" using q(2) unfolding pg_in_def pg_key_def by blast
  moreover have "sint key < u" using k by (simp add: Cons x lv_hi_def)
  moreover have "pg_sibling p = Some b" using p by (simp add: pg_in_def Cons x)
  ultimately show ?thesis using q(1) by (simp add: pg_to_sibling_def)
qed

lemma pg_child_find:
  assumes ok: "pg_ok n p" and c: "pg_leftmost p = Some c" and l: "l \<le> sint key"
  shows "pg_child key n p = Some (snd (lv_find (sint key) (pg_cont l p)))"
proof -
  let ?F = "filter (\<lambda>e. skey e \<le> sint key) (pg_live n p)"
  have "None \<notin> be_ptr ` set (pg_live n p)" using ok unfolding pg_ok_def by blast
  then have "\<forall>e \<in> set ?F. be_ptr e = Some (the (be_ptr e))" by (auto simp: image_iff)
  then have m: "map be_ptr ?F = map (\<lambda>e. Some (the (be_ptr e))) ?F" by (intro map_cong) auto
  have "filter (\<lambda>x. fst x \<le> sint key) (pg_cont l p) = (l, c) # map (\<lambda>e. (skey e, the (be_ptr e))) ?F"
    using l by (simp add: pg_cont_ok [OF ok] c pg_entries_def filter_map o_def)
  then have "Some (snd (lv_find (sint key) (pg_cont l p))) =
      last (map (\<lambda>x. Some (snd x)) ((l, c) # map (\<lambda>e. (skey e, the (be_ptr e))) ?F))"
    by (simp add: lv_find_def last_map del: list.map)
  also have "\<dots> = pg_child key n p" by (simp add: pg_child_def c m o_def)
  finally show ?thesis by simp
qed

text \<open>From a page of an inner level, the search names the page of the level below that covers the key.\<close>

lemma lv_search_inner:
  assumes ok: "lv_ok H (Suc lev) L" and s: "kv_sorted L" and ne: "\<exists>x \<in> set L. fst x \<le> sint key"
    and a: "a = snd (lv_find (sint key) L)"
  shows "\<exists>p. H a = Some p \<and> pg_leftmost p \<noteq> None \<and> pg_level p = Suc lev \<and>
    pg_linear_search H key p = Some (snd (lv_find (sint key) (lv_cont H L)))"
proof -
  obtain L1 l b L2 n p where t: "L = L1 @ (l, b) # L2" "lv_find (sint key) L = (l, b)" "l \<le> sint key" "sint key < lv_hi L2"
      "H b = Some p" "pg_in (Suc lev) l L2 n p" "lv_ok H (Suc lev) L2"
      "\<forall>x \<in> set (lv_cont H L1). fst x < l" "\<forall>x \<in> set (lv_cont H L2). sint key < fst x"
    using lv_target [OF ok s ne] by blast
  have p: "pg_ok n p" "pg_level p = Suc lev" "0 < n" "pg_leftmost p \<noteq> None" using t(6) by (simp_all add: pg_in_def)
  then obtain c where c: "pg_leftmost p = Some c" by blast
  have "pg_linear_search H key p = pg_child key n p"
    by (rule pg_search_inner [OF p(1,3,4)]) (rule pg_in_not_sibling [OF t(6,7,4)])
  also have "\<dots> = Some (snd (lv_find (sint key) (pg_cont l p)))" by (rule pg_child_find [OF p(1) c t(3)])
  also have "lv_find (sint key) (pg_cont l p) = lv_find (sint key) (lv_cont H L1 @ pg_cont l p @ lv_cont H L2)"
    by (rule lv_find_append [symmetric]) (use t(3,9) in \<open>auto simp: pg_cont_def c\<close>)
  also have "lv_cont H L1 @ pg_cont l p @ lv_cont H L2 = lv_cont H L" by (simp add: t(1,5))
  finally show ?thesis using t(2,5) p a by simp
qed

section \<open>The stack of levels\<close>

definition bt_low :: int where
  "bt_low = - (2 ^ 63) - 1"

text \<open>
  \<open>Ls\<close> are the levels from the leaves up. \<open>bt_lv\<close> is what every call keeps at all times; the levels agree when the
  content of each is the level below.
\<close>

definition lvs :: "(nat \<rightharpoonup> page) \<Rightarrow> (int \<times> nat) list list \<Rightarrow> nat list \<Rightarrow> bool" where
  "lvs H Ls free \<longleftrightarrow> (\<forall>i < length Ls. lv_ok H i (Ls ! i) \<and> kv_sorted (Ls ! i) \<and> Ls ! i \<noteq> [] \<and> fst (hd (Ls ! i)) = bt_low) \<and>
     distinct (map snd (concat Ls) @ free) \<and> dom H = snd ` set (concat Ls)"

definition bt_lv :: "btree \<Rightarrow> (int \<times> nat) list list \<Rightarrow> bool" where
  "bt_lv t Ls \<longleftrightarrow> lvs (bt_heap t) Ls (bt_free t) \<and> bt_height t = length Ls \<and> Ls \<noteq> [] \<and> last Ls = [(bt_low, bt_root t)]"

definition lv_agree :: "(nat \<rightharpoonup> page) \<Rightarrow> (int \<times> nat) list list \<Rightarrow> nat \<Rightarrow> bool" where
  "lv_agree H Ls i \<longleftrightarrow> (\<forall>j. i \<le> j \<and> Suc j < length Ls \<longrightarrow> lv_cont H (Ls ! Suc j) = Ls ! j)"

lemma bt_low_le: "bt_low \<le> sint (key :: u64)"
  using sint_ge [of key] by (simp add: bt_low_def)

lemma bt_lv_ok: "bt_lv t Ls \<Longrightarrow> i < length Ls \<Longrightarrow> lv_ok (bt_heap t) i (Ls ! i)"
  unfolding bt_lv_def lvs_def by blast

lemma bt_lv_sorted: "bt_lv t Ls \<Longrightarrow> i < length Ls \<Longrightarrow> kv_sorted (Ls ! i)"
  unfolding bt_lv_def lvs_def by blast

lemma bt_lv_low:
  assumes "bt_lv t Ls" "i < length Ls"
  shows "\<exists>x \<in> set (Ls ! i). fst x \<le> sint (key :: u64)"
proof
  have "Ls ! i \<noteq> []" "fst (hd (Ls ! i)) = bt_low" using assms unfolding bt_lv_def lvs_def by blast+
  then show "hd (Ls ! i) \<in> set (Ls ! i)" "fst (hd (Ls ! i)) \<le> sint key" using bt_low_le by simp_all
qed

lemma bt_to_level_ok:
  assumes t: "bt_lv t Ls" and ag: "lv_agree (bt_heap t) Ls lev"
  shows "lev \<le> i \<Longrightarrow> i < length Ls \<Longrightarrow>
    bt_to_level (bt_heap t) key lev (snd (lv_find (sint key) (Ls ! i))) = Some (snd (lv_find (sint key) (Ls ! lev)))"
proof (induction "i - lev" arbitrary: i)
  case 0
  then have i: "i = lev" by simp
  obtain p where "bt_heap t (snd (lv_find (sint key) (Ls ! lev))) = Some p" "pg_level p = lev"
    using lv_page [OF bt_lv_ok [OF t 0(3)] bt_lv_sorted [OF t 0(3)] bt_lv_low [OF t 0(3)]] i by metis
  then show ?case unfolding i by (subst bt_to_level.simps) simp
next
  case (Suc d)
  then obtain j where j: "i = Suc j" "lev \<le> j" by (cases i) auto
  have "\<exists>p. bt_heap t (snd (lv_find (sint key) (Ls ! i))) = Some p \<and> pg_leftmost p \<noteq> None \<and> pg_level p = Suc j \<and>
      pg_linear_search (bt_heap t) key p = Some (snd (lv_find (sint key) (lv_cont (bt_heap t) (Ls ! i))))"
    using lv_search_inner [OF _ bt_lv_sorted [OF t Suc.prems(2)] bt_lv_low [OF t Suc.prems(2)] refl] bt_lv_ok [OF t Suc.prems(2)]
    unfolding j(1) by blast
  moreover have "lv_cont (bt_heap t) (Ls ! i) = Ls ! j" using ag Suc.prems j by (simp add: lv_agree_def)
  moreover have "bt_to_level (bt_heap t) key lev (snd (lv_find (sint key) (Ls ! j))) = Some (snd (lv_find (sint key) (Ls ! lev)))"
    using Suc.hyps Suc.prems j by simp
  ultimately show ?case using j by (subst bt_to_level.simps) (elim exE conjE, simp)
qed

lemma bt_to_leaf_ok:
  assumes t: "bt_lv t Ls" and ag: "lv_agree (bt_heap t) Ls 0"
  shows "i < length Ls \<Longrightarrow> bt_to_leaf (bt_heap t) key (snd (lv_find (sint key) (Ls ! i))) = Some (snd (lv_find (sint key) (Ls ! 0)))"
proof (induction i)
  case 0
  obtain p where "bt_heap t (snd (lv_find (sint key) (Ls ! 0))) = Some p" "pg_leftmost p = None"
    using lv_page [OF bt_lv_ok [OF t 0] bt_lv_sorted [OF t 0] bt_lv_low [OF t 0]] by metis
  then show ?case by (subst bt_to_leaf.simps) simp
next
  case (Suc i)
  have "\<exists>p. bt_heap t (snd (lv_find (sint key) (Ls ! Suc i))) = Some p \<and> pg_leftmost p \<noteq> None \<and> pg_level p = Suc i \<and>
      pg_linear_search (bt_heap t) key p = Some (snd (lv_find (sint key) (lv_cont (bt_heap t) (Ls ! Suc i))))"
    by (rule lv_search_inner [OF bt_lv_ok [OF t Suc.prems] bt_lv_sorted [OF t Suc.prems] bt_lv_low [OF t Suc.prems] refl])
  moreover have "lv_cont (bt_heap t) (Ls ! Suc i) = Ls ! i" using ag Suc.prems by (simp add: lv_agree_def)
  ultimately show ?case using Suc by (subst bt_to_leaf.simps) (elim exE conjE, simp)
qed

lemma bt_root_find:
  assumes "bt_lv t Ls"
  shows "snd (lv_find (sint (key :: u64)) (Ls ! (length Ls - 1))) = bt_root t"
proof -
  have "Ls ! (length Ls - 1) = [(bt_low, bt_root t)]" using assms unfolding bt_lv_def by (metis last_conv_nth)
  then show ?thesis using bt_low_le [of key] by (simp add: lv_find_def)
qed

end
