(* ===== verification/BTreeOps.thy ===== *)
theory BTreeOps
  imports BTreeLevels
begin

text \<open>
  Insertion into the persistent B+-tree level by level: one page takes the key, or splits and hands the separator to
  the level above, up to a new root.
\<close>

section \<open>One page\<close>

lemma pg_insert_entries:
  assumes ok: "pg_ok n p" and n: "n < 29" and k: "sint key \<notin> fst ` set (pg_entries n p)"
  shows "pg_entries (n + 1) (snd (pg_insert_key key (Some v) n p)) = kv_ins (sint key) v (pg_entries n p)"
proof -
  have "filter (\<lambda>e. skey e \<le> sint key) (pg_live n p) = filter (\<lambda>e. skey e < sint key) (pg_live n p)"
    using k by (intro filter_cong) (auto simp: pg_entries_def le_less image_iff)
  then show ?thesis
    unfolding pg_entries_def pg_insert_key_live [OF ok n] by (simp add: pg_place_def kv_ins_def filter_map o_def)
qed

lemma pg_cont_ptrs:
  assumes ok: "pg_ok n p" and v: "v \<notin> snd ` set (pg_cont l p)"
  shows "Some v \<noteq> pg_leftmost p \<and> Some v \<notin> be_ptr ` set (pg_live n p)"
proof -
  have "Some v \<noteq> be_ptr e" if "e \<in> set (pg_live n p)" for e
  proof
    assume "Some v = be_ptr e"
    then have "(skey e, the (be_ptr e)) \<in> set (pg_entries n p)" "the (be_ptr e) = v"
      using that by (auto simp: pg_entries_def intro: imageI dest: sym)
    then have "(skey e, v) \<in> set (pg_cont l p)" by (simp add: pg_cont_ok [OF ok])
    then show False using v by (metis image_eqI snd_conv)
  qed
  moreover have "Some v \<noteq> pg_leftmost p" using v by (cases "pg_leftmost p") (simp_all add: pg_cont_ok [OF ok])
  ultimately show ?thesis by blast
qed

lemma pg_insert_in:
  assumes p: "pg_in lev l rest n p" and n: "n < 29" and k: "l \<le> sint key" "sint key < lv_hi rest"
    and fresh: "sint key \<notin> fst ` set (pg_cont l p)" "v \<notin> snd ` set (pg_cont l p)"
  defines "p' \<equiv> snd (pg_insert_key key (Some v) n p)"
  shows "pg_in lev l rest (n + 1) p' \<and> pg_cont l p' = kv_ins (sint key) v (pg_cont l p)"
proof -
  have ok: "pg_ok n p" using p unfolding pg_in_def by blast
  have e: "sint key \<notin> fst ` set (pg_entries n p)" using fresh(1) by (auto simp: pg_cont_ok [OF ok])
  then have s: "sint key \<notin> skey ` set (pg_live n p)" by (auto simp: pg_entries_def image_iff)
  have ok': "pg_ok (n + 1) p'"
    unfolding p'_def using pg_cont_ptrs [OF ok fresh(2)] s by (intro pg_insert_key_ok [OF ok n]) auto
  have live: "set (pg_live (n + 1) p') = insert \<lparr>be_key = key, be_ptr = Some v\<rparr> (set (pg_live n p))"
    unfolding p'_def pg_insert_key_live [OF ok n] by simp
  have lk: "l < sint key" if "lev \<noteq> 0"
  proof -
    obtain c where "pg_leftmost p = Some c" using pg_in_inner [OF p \<open>lev \<noteq> 0\<close>] by blast
    then show ?thesis using fresh(1) k(1) by (auto simp: pg_cont_ok [OF ok] le_less)
  qed
  have "be_key ` set (pg_recs p') \<subseteq> insert key (be_key ` set (pg_recs p))"
    unfolding p'_def by (rule pg_insert_key_keys [OF ok n])
  then have "\<forall>x \<in> be_key ` set (pg_recs p'). l \<le> sint x" using p k(1) unfolding pg_in_def by blast
  then have "pg_in lev l rest (n + 1) p'"
    using p ok' live lk k(2) unfolding pg_in_def by (auto simp: p'_def)
  moreover have "pg_cont l p' = kv_ins (sint key) v (pg_cont l p)"
  proof (cases "pg_leftmost p")
    case None
    then show ?thesis
      using pg_insert_entries [OF ok n e, of v] by (simp add: pg_cont_ok [OF ok'] pg_cont_ok [OF ok]) (simp add: p'_def)
  next
    case (Some c)
    then have "lev \<noteq> 0" using pg_in_leaf [of l rest n p] p by (cases lev) auto
    then have "kv_ins (sint key) v ([(l, c)] @ pg_entries n p @ []) = [(l, c)] @ kv_ins (sint key) v (pg_entries n p) @ []"
      using lk by (intro kv_ins_append) auto
    then show ?thesis
      using Some pg_insert_entries [OF ok n e, of v] by (simp add: pg_cont_ok [OF ok'] pg_cont_ok [OF ok]) (simp add: p'_def)
  qed
  ultimately show ?thesis ..
qed

lemma sint_max_key: "sint (0x7FFFFFFFFFFFFFFF :: u64) = 2 ^ 63 - 1"
  by code_simp

lemma pg_split_in:
  assumes p: "pg_in lev l rest 29 p"
  shows "\<exists>c p1 s1. pg_split b 29 p = (pg_key p 14, c, p1, s1) \<and> pg_in lev l ((sint (pg_key p 14), b) # rest) 14 p1 \<and>
    pg_in lev (sint (pg_key p 14)) rest c s1 \<and> c < 29 \<and> pg_last p1 = 13 \<and>
    pg_cont l p = pg_cont l p1 @ pg_cont (sint (pg_key p 14)) s1 \<and> l < sint (pg_key p 14) \<and> sint (pg_key p 14) < lv_hi rest"
proof -
  let ?L = "pg_live 29 p" and ?k = "pg_key p 14"
  have ok: "pg_ok 29 p" using p unfolding pg_in_def by blast
  have len: "length ?L = 29" using pg_ok_length [OF ok] by blast
  obtain c p1 s1 where sp: "pg_split b 29 p = (?k, c, p1, s1)" "pg_ok 14 p1" "pg_ok c s1"
    "c = (if pg_leftmost p = None then 15 else 14)" "pg_live 14 p1 = take 14 ?L" "pg_live c s1 = drop (29 - c) ?L"
    "pg_leftmost p1 = pg_leftmost p" "pg_leftmost s1 = (if pg_leftmost p = None then None else pg_ptr p 14)"
    "pg_sibling p1 = Some b" "pg_sibling s1 = pg_sibling p" "pg_level p1 = pg_level p" "pg_level s1 = pg_level p"
    "pg_deleted p1 = pg_deleted p" "\<not> pg_deleted s1" "be_key ` set (pg_recs p1) \<subseteq> be_key ` set (pg_recs p)"
    "be_key ` set (pg_recs s1) \<subseteq> insert 0x7FFFFFFFFFFFFFFF (be_key ` set (drop 14 ?L))"
    using pg_split_ok [OF ok, of b] by (elim exE conjE) (rule that, assumption+)
  have key: "be_key (?L ! i) = pg_key p i" if "i < 29" for i by (rule pg_key_live [OF ok that, symmetric])
  have lo: "skey e < sint ?k" if e: "e \<in> set (take 14 ?L)" for e
  proof -
    obtain i where i: "i < 14" "e = ?L ! i" using e len by (auto simp: in_set_conv_nth)
    then show ?thesis using pg_key_less [OF ok, of i 14] by (simp add: key)
  qed
  have hi: "sint ?k \<le> skey e" if e: "e \<in> set (drop 14 ?L)" for e
  proof -
    obtain i where i: "i < 15" "e = ?L ! (14 + i)" using e len by (auto simp: in_set_conv_nth)
    then show ?thesis using pg_key_less [OF ok, of 14 "14 + i"] by (cases "i = 0") (simp_all add: key)
  qed
  have hi': "sint ?k < skey e" if e: "e \<in> set (drop 15 ?L)" for e
  proof -
    obtain i where i: "i < 14" "e = ?L ! (15 + i)" using e len by (auto simp: in_set_conv_nth)
    then show ?thesis using pg_key_less [OF ok, of 14 "15 + i"] by (simp add: key)
  qed
  have L: "?L = take 14 ?L @ ?L ! 14 # drop 15 ?L" using id_take_nth_drop [of 14 ?L] len by simp
  have L0: "?L ! 0 \<in> set (take 14 ?L)" using len nth_mem [of 0 "take 14 ?L"] by simp
  have mem: "?L ! 14 \<in> set ?L" "?L ! 0 \<in> set ?L" using len by simp_all
  have keys: "\<forall>k \<in> be_key ` set (pg_recs p). l \<le> sint k" and up: "\<forall>e \<in> set ?L. skey e < lv_hi rest"
    using p unfolding pg_in_def by blast+
  have l: "l < sint ?k" using lo [OF L0] keys pg_live_recs [OF mem(2)] by force
  have h: "sint ?k < lv_hi rest" using up mem(1) key [of 14] by force
  have keys1: "\<forall>k \<in> be_key ` set (pg_recs p1). l \<le> sint k" using sp(15) keys by blast
  have keys2: "\<forall>k \<in> be_key ` set (pg_recs s1). sint ?k \<le> sint k"
  proof
    fix k assume "k \<in> be_key ` set (pg_recs s1)"
    then have "k = 0x7FFFFFFFFFFFFFFF \<or> k \<in> be_key ` set (drop 14 ?L)" using sp(16) by blast
    then show "sint ?k \<le> sint k" using hi sint_lt [of ?k] by (auto simp: sint_max_key)
  qed
  have cont: "pg_cont l p = pg_cont l p1 @ pg_cont (sint ?k) s1"
  proof (cases "pg_leftmost p")
    case None
    then have "c = 15" using sp(4) by simp
    then show ?thesis
      using None sp(5-8) by (simp add: pg_cont_ok [OF ok] pg_cont_ok [OF sp(2)] pg_cont_ok [OF sp(3)] pg_entries_def flip: map_append)
  next
    case (Some d)
    then have c: "c = 14" using sp(4) by simp
    have "pg_leftmost s1 = be_ptr (?L ! 14)" "be_ptr (?L ! 14) \<noteq> None"
      using sp(8) Some pg_ptr_live [OF ok, of 14] pg_ptr_nonnull [OF ok, of 14] by (simp_all del: not_None_eq)
    then obtain q where q: "pg_leftmost s1 = Some q" "be_ptr (?L ! 14) = Some q" by auto
    have "pg_entries 29 p = map (\<lambda>e. (skey e, the (be_ptr e))) (take 14 ?L @ ?L ! 14 # drop 15 ?L)"
      unfolding pg_entries_def by (rule arg_cong [OF L])
    also have "\<dots> = pg_entries 14 p1 @ (sint ?k, q) # pg_entries 14 s1"
      using sp(5,6) c q(2) key [of 14] by (simp add: pg_entries_def)
    finally show ?thesis
      using sp(3,7) c q(1) Some by (simp add: pg_cont_ok [OF ok] pg_cont_ok [OF sp(2)] pg_cont_ok)
  qed
  have "pg_in lev l ((sint ?k, b) # rest) 14 p1"
    using p sp(2,7,9,11,13) keys1 lo pg_in_inner [OF p] unfolding pg_in_def sp(5) by (auto simp: lv_hi_def dest: in_set_takeD)
  moreover have "pg_in lev (sint ?k) rest c s1"
  proof -
    have "\<forall>e \<in> set (pg_live c s1). skey e < lv_hi rest" using up sp(6) by (auto dest: in_set_dropD)
    moreover have "lev \<noteq> 0 \<Longrightarrow> pg_leftmost s1 \<noteq> None \<and> 0 < c \<and> (\<forall>e \<in> set (pg_live c s1). sint ?k < skey e)"
      using pg_in_inner [OF p] sp(4,6,8) hi' pg_ptr_nonnull [OF ok, of 14] by auto
    moreover have "lev = 0 \<Longrightarrow> pg_leftmost s1 = None" using p sp(8) by (auto simp: pg_in_def)
    ultimately show ?thesis using p sp(3,10,12,14) keys2 unfolding pg_in_def by simp
  qed
  moreover have "pg_last p1 = 13" using sp(2) unfolding pg_ok_def by simp
  moreover have "c < 29" using sp(4) by simp
  ultimately show ?thesis using sp(1) cont l h by blast
qed

section \<open>One level\<close>

lemma lvs_ok: "lvs H Ls free \<Longrightarrow> i < length Ls \<Longrightarrow> lv_ok H i (Ls ! i)"
  by (simp add: lvs_def)

lemma lvs_concat: "j < length Ls \<Longrightarrow> x \<in> set (Ls ! j) \<Longrightarrow> x \<in> set (concat Ls)"
  using nth_mem by fastforce

lemma lvs_addrs:
  assumes "lvs H Ls free" "i < length Ls" "Ls ! i = L1 @ (l, a) # L2"
  shows "\<forall>x \<in> set L1 \<union> set L2. snd x \<noteq> a" and "\<forall>j < length Ls. j \<noteq> i \<longrightarrow> (\<forall>x \<in> set (Ls ! j). snd x \<noteq> a)"
    and "a \<notin> set free"
proof -
  have d: "distinct (map snd (concat Ls) @ free)" using assms(1) by (simp add: lvs_def)
  have c: "concat Ls = concat (take i Ls) @ Ls ! i @ concat (drop (Suc i) Ls)"
    by (subst id_take_nth_drop [OF assms(2)]) simp
  show "\<forall>x \<in> set L1 \<union> set L2. snd x \<noteq> a" "a \<notin> set free" using d unfolding c assms(3) by auto
  show "\<forall>j < length Ls. j \<noteq> i \<longrightarrow> (\<forall>x \<in> set (Ls ! j). snd x \<noteq> a)"
  proof (intro allI impI ballI)
    fix j x assume j: "j < length Ls" "j \<noteq> i" "x \<in> set (Ls ! j)"
    have "x \<in> set (concat (take i Ls)) \<union> set (concat (drop (Suc i) Ls))"
    proof (cases "j < i")
      case True
      then have "x \<in> set (concat (take i Ls))" using j lvs_concat [of j "take i Ls" x] by simp
      then show ?thesis by blast
    next
      case False
      then have "x \<in> set (concat (drop (Suc i) Ls))" using j lvs_concat [of "j - Suc i" "drop (Suc i) Ls" x] by simp
      then show ?thesis by blast
    qed
    then have "snd x \<in> snd ` set (concat (take i Ls)) \<union> snd ` set (concat (drop (Suc i) Ls))" by blast
    moreover have "a \<notin> snd ` set (concat (take i Ls)) \<union> snd ` set (concat (drop (Suc i) Ls))"
      using d unfolding c assms(3) map_append set_append distinct_append by auto
    ultimately show "snd x \<noteq> a" by metis
  qed
qed

text \<open>A page of the level is replaced by one of the same bounds.\<close>

lemma lv_ok_page:
  assumes "lv_ok H lev (L1 @ (l, a) # L2)" and "\<forall>x \<in> set L1 \<union> set L2. snd x \<noteq> a" and "pg_in lev l L2 n p"
  shows "lv_ok (H(a \<mapsto> p)) lev (L1 @ (l, a) # L2)"
proof -
  have "lv_ok H lev L2" using lv_ok_suffix [OF assms(1)] by simp
  then have "lv_ok (H(a \<mapsto> p)) lev L2" using assms(2) by (subst lv_ok_cong) auto
  then show ?thesis using assms by (intro lv_ok_prefix [OF assms(1)]) auto
qed

lemma lv_cont_page:
  assumes "\<forall>x \<in> set L1 \<union> set L2. snd x \<noteq> a"
  shows "lv_cont (H(a \<mapsto> p)) (L1 @ (l, a) # L2) = lv_cont H L1 @ pg_cont l p @ lv_cont H L2"
  using assms lv_cont_cong [of L1 "H(a \<mapsto> p)" H] lv_cont_cong [of L2 "H(a \<mapsto> p)" H] by auto

text \<open>A page of the level is split, the new page \<open>b\<close> follows.\<close>

lemma lv_ok_split:
  assumes "lv_ok H lev (L1 @ (l, a) # L2)" and "\<forall>x \<in> set L1 \<union> set L2. snd x \<noteq> a \<and> snd x \<noteq> b" and "a \<noteq> b"
    and "pg_in lev l ((u, b) # L2) n p" "pg_in lev u L2 m q"
  shows "lv_ok (H(a \<mapsto> p, b \<mapsto> q)) lev (L1 @ (l, a) # (u, b) # L2)"
proof -
  have "lv_ok H lev L2" using lv_ok_suffix [OF assms(1)] by simp
  then have "lv_ok (H(a \<mapsto> p, b \<mapsto> q)) lev L2" using assms(2) by (subst lv_ok_cong) auto
  then show ?thesis using assms by (intro lv_ok_prefix [OF assms(1)]) auto
qed

lemma lv_cont_split:
  assumes "\<forall>x \<in> set L1 \<union> set L2. snd x \<noteq> a \<and> snd x \<noteq> b" and "a \<noteq> b"
  shows "lv_cont (H(a \<mapsto> p, b \<mapsto> q)) (L1 @ (l, a) # (u, b) # L2) = lv_cont H L1 @ (pg_cont l p @ pg_cont u q) @ lv_cont H L2"
  using assms lv_cont_cong [of L1 "H(a \<mapsto> p, b \<mapsto> q)" H] lv_cont_cong [of L2 "H(a \<mapsto> p, b \<mapsto> q)" H] by auto

section \<open>The stack of levels\<close>

lemma lvs_page:
  assumes lv: "lvs H Ls free" and i: "i < length Ls" and L: "Ls ! i = L1 @ (l, a) # L2" and p: "pg_in i l L2 n p"
  shows "lvs (H(a \<mapsto> p)) Ls free"
proof -
  have ok: "lv_ok (H(a \<mapsto> p)) j (Ls ! j)" if "j < length Ls" for j
  proof (cases "j = i")
    case True
    show ?thesis using lv_ok_page [OF _ lvs_addrs(1) [OF lv i L] p] lvs_ok [OF lv i] by (simp add: True L)
  next
    case False
    then show ?thesis using lvs_ok [OF lv that] lvs_addrs(2) [OF lv i L] that by (subst lv_ok_cong) auto
  qed
  have "(l, a) \<in> set (Ls ! i)" by (simp add: L)
  then have "(l, a) \<in> set (concat Ls)" using nth_mem [OF i] by auto
  then have "a \<in> snd ` set (concat Ls)" by force
  then have "dom (H(a \<mapsto> p)) = snd ` set (concat Ls)" using lv unfolding lvs_def by (simp add: insert_absorb)
  then show ?thesis using ok lv unfolding lvs_def by blast
qed

lemma lvs_split:
  assumes lv: "lvs H Ls (b # free)" and i: "i < length Ls" and L: "Ls ! i = L1 @ (l, a) # L2"
    and p: "pg_in i l ((u, b) # L2) n p" and q: "pg_in i u L2 m q" and u: "l < u" "u < lv_hi L2"
  shows "lvs (H(a \<mapsto> p, b \<mapsto> q)) (Ls[i := L1 @ (l, a) # (u, b) # L2]) free"
proof -
  let ?H = "H(a \<mapsto> p, b \<mapsto> q)" and ?L = "L1 @ (l, a) # (u, b) # L2"
  have d: "distinct (map snd (concat Ls) @ b # free)" and dom: "dom H = snd ` set (concat Ls)"
    using lv by (simp_all add: lvs_def)
  have b: "snd x \<noteq> b" if "j < length Ls" "x \<in> set (Ls ! j)" for x j
    using d imageI [OF lvs_concat [OF that], of snd] by (metis disjoint_iff distinct_append list.set_intros(1) set_map)
  have ab: "a \<noteq> b" using b [OF i, of "(l, a)"] by (simp add: L)
  have s: "kv_sorted (Ls ! i)" "Ls ! i \<noteq> []" "fst (hd (Ls ! i)) = bt_low" using lv i by (simp_all add: lvs_def)
  have "\<forall>x \<in> set L2. u < fst x" using s(1) u(2) by (cases L2) (auto simp: L lv_hi_def sorted_wrt_append)
  then have s': "kv_sorted ?L" using s(1) u(1) by (auto simp: L sorted_wrt_append)
  have ok: "lv_ok ?H j (Ls[i := ?L] ! j)" if "j < length Ls" for j
  proof (cases "j = i")
    case True
    have "\<forall>x \<in> set L1 \<union> set L2. snd x \<noteq> a \<and> snd x \<noteq> b" using lvs_addrs(1) [OF lv i L] b [OF i] by (auto simp: L)
    then show ?thesis using lv_ok_split [OF _ _ ab p q, of H L1] lvs_ok [OF lv i] i by (simp add: True L)
  next
    case False
    then show ?thesis using lvs_ok [OF lv that] lvs_addrs(2) [OF lv i L] b [OF that] that by (simp, subst lv_ok_cong) auto
  qed
  have c: "concat Ls = concat (take i Ls) @ Ls ! i @ concat (drop (Suc i) Ls)"
    by (subst id_take_nth_drop [OF i]) simp
  have c': "concat (Ls[i := ?L]) = concat (take i Ls) @ ?L @ concat (drop (Suc i) Ls)"
    using i by (simp add: upd_conv_take_nth_drop)
  have "mset (map snd (concat (Ls[i := ?L])) @ free) = mset (map snd (concat Ls) @ b # free)"
    unfolding c c' L by simp
  then have "distinct (map snd (concat (Ls[i := ?L])) @ free)" using d mset_eq_imp_distinct_iff by blast
  moreover have "dom ?H = snd ` set (concat (Ls[i := ?L]))" using dom unfolding c c' L by auto
  moreover have "kv_sorted (Ls[i := ?L] ! j) \<and> Ls[i := ?L] ! j \<noteq> [] \<and> fst (hd (Ls[i := ?L] ! j)) = bt_low" if "j < length Ls" for j
    using that lv s s' i by (cases "j = i") (auto simp: lvs_def L hd_append split: if_splits)
  ultimately show ?thesis using ok unfolding lvs_def by simp
qed

lemma lvs_grow:
  assumes lv: "lvs H Ls (r # free)" and p: "pg_in (length Ls) bt_low [] n p"
  shows "lvs (H(r \<mapsto> p)) (Ls @ [[(bt_low, r)]]) free"
proof -
  have d: "distinct (map snd (concat Ls) @ r # free)" and dom: "dom H = snd ` set (concat Ls)"
    using lv by (simp_all add: lvs_def)
  have r: "snd x \<noteq> r" if "j < length Ls" "x \<in> set (Ls ! j)" for x j
    using d imageI [OF lvs_concat [OF that], of snd] by (metis disjoint_iff distinct_append list.set_intros(1) set_map)
  have "lv_ok (H(r \<mapsto> p)) j ((Ls @ [[(bt_low, r)]]) ! j)" if "j < Suc (length Ls)" for j
  proof (cases "j < length Ls")
    case True
    then show ?thesis using lvs_ok [OF lv True] r [OF True] by (simp add: nth_append, subst lv_ok_cong) auto
  next
    case False
    then have "j = length Ls" using that by simp
    then show ?thesis using p by auto
  qed
  moreover have "dom (H(r \<mapsto> p)) = snd ` set (concat (Ls @ [[(bt_low, r)]]))" using dom by auto
  moreover have "distinct (map snd (concat (Ls @ [[(bt_low, r)]])) @ free)" using d by auto
  ultimately show ?thesis using lv unfolding lvs_def by (auto simp: nth_append less_Suc_eq)
qed

section \<open>Storing a key at a level\<close>

lemma pg_store_full:
  assumes p: "pg_in lev l rest 29 p" and k: "l \<le> sint key" "sint key < lv_hi rest"
    and fresh: "sint key \<notin> fst ` set (pg_cont l p)" "v \<notin> snd ` set (pg_cont l p)"
    and sp: "pg_split b 29 p = (sk, cnt, p1, s1)"
    and p2: "p2 = (if sint key < sint sk then snd (pg_insert_key key (Some v) (nat (pg_last p1 + 1)) p1) else p1)"
    and s2: "s2 = (if sint key < sint sk then s1 else snd (pg_insert_key key (Some v) cnt s1))"
  shows "\<exists>n1 n2. pg_in lev l ((sint sk, b) # rest) n1 p2 \<and> pg_in lev (sint sk) rest n2 s2 \<and>
    pg_cont l p2 @ pg_cont (sint sk) s2 = kv_ins (sint key) v (pg_cont l p) \<and> l < sint sk \<and> sint sk < lv_hi rest"
proof -
  from pg_split_in [OF p, of b] sp have
    in1: "pg_in lev l ((sint sk, b) # rest) 14 p1" and in2: "pg_in lev (sint sk) rest cnt s1" and c: "cnt < 29" "pg_last p1 = 13"
    and cont: "pg_cont l p = pg_cont l p1 @ pg_cont (sint sk) s1" and sk: "l < sint sk" "sint sk < lv_hi rest"
    by auto
  have b1: "\<forall>x \<in> set (pg_cont l p1). fst x < sint sk" using pg_in_bounds [OF in1] by (auto simp: lv_hi_def)
  have b2: "\<forall>x \<in> set (pg_cont (sint sk) s1). sint sk \<le> fst x" using pg_in_bounds [OF in2] by blast
  show ?thesis
  proof (cases "sint key < sint sk")
    case True
    have "pg_in lev l ((sint sk, b) # rest) (14 + 1) (snd (pg_insert_key key (Some v) 14 p1)) \<and>
        pg_cont l (snd (pg_insert_key key (Some v) 14 p1)) = kv_ins (sint key) v (pg_cont l p1)"
      by (rule pg_insert_in [OF in1]) (use True k fresh in \<open>auto simp: lv_hi_def cont\<close>)
    moreover have "kv_ins (sint key) v ([] @ pg_cont l p1 @ pg_cont (sint sk) s1) =
        [] @ kv_ins (sint key) v (pg_cont l p1) @ pg_cont (sint sk) s1"
      by (rule kv_ins_append) (use b2 True in auto)
    ultimately show ?thesis using True in2 sk c by (auto simp: p2 s2 cont)
  next
    case False
    have "pg_in lev (sint sk) rest (cnt + 1) (snd (pg_insert_key key (Some v) cnt s1)) \<and>
        pg_cont (sint sk) (snd (pg_insert_key key (Some v) cnt s1)) = kv_ins (sint key) v (pg_cont (sint sk) s1)"
      by (rule pg_insert_in [OF in2 c(1)]) (use False k fresh in \<open>auto simp: cont\<close>)
    moreover have "kv_ins (sint key) v (pg_cont l p1 @ pg_cont (sint sk) s1 @ []) =
        pg_cont l p1 @ kv_ins (sint key) v (pg_cont (sint sk) s1) @ []"
      by (rule kv_ins_append) (use b1 False in auto)
    ultimately show ?thesis using False in1 sk by (auto simp: p2 s2 cont)
  qed
qed

definition st_post :: "btree \<Rightarrow> (int \<times> nat) list list \<Rightarrow> nat \<Rightarrow> int \<Rightarrow> nat \<Rightarrow> btree \<Rightarrow> (int \<times> nat) list list \<Rightarrow> bool" where
  "st_post t Ls i k v t' Ls' \<longleftrightarrow> bt_lv t' Ls' \<and> length Ls \<le> length Ls' \<and>
     (\<forall>j < i. Ls' ! j = Ls ! j \<and> (\<forall>x \<in> set (Ls ! j). bt_heap t' (snd x) = bt_heap t (snd x))) \<and>
     lv_cont (bt_heap t') (Ls' ! i) = kv_ins k v (lv_cont (bt_heap t) (Ls ! i)) \<and> lv_agree (bt_heap t') Ls' i \<and>
     set (bt_free t') \<union> dom (bt_heap t') \<subseteq> set (bt_free t) \<union> dom (bt_heap t)"

lemma bt_lv_root_level:
  assumes t: "bt_lv t Ls"
  shows "\<exists>rp. bt_heap t (bt_root t) = Some rp \<and> pg_level rp = length Ls - 1"
proof -
  have "Ls \<noteq> []" "last Ls = [(bt_low, bt_root t)]" using t by (simp_all add: bt_lv_def)
  then have "Ls ! (length Ls - 1) = [(bt_low, bt_root t)]" "length Ls - 1 < length Ls" by (metis last_conv_nth, simp)
  then have "lv_ok (bt_heap t) (length Ls - 1) [(bt_low, bt_root t)]" using bt_lv_ok [OF t] by metis
  then show ?thesis by (auto simp: pg_in_def)
qed

lemma bt_lv_is_root:
  assumes t: "bt_lv t Ls" and i: "i < length Ls" and L: "Ls ! i = L1 @ (l, a) # L2"
  shows "a = bt_root t \<longleftrightarrow> i = length Ls - 1" and "i = length Ls - 1 \<Longrightarrow> L1 = [] \<and> L2 = [] \<and> l = bt_low"
proof -
  have lv: "lvs (bt_heap t) Ls (bt_free t)" and ne: "Ls \<noteq> []" "last Ls = [(bt_low, bt_root t)]"
    using t by (simp_all add: bt_lv_def)
  then have r: "Ls ! (length Ls - 1) = [(bt_low, bt_root t)]" by (metis last_conv_nth)
  then show *: "L1 = [] \<and> L2 = [] \<and> l = bt_low" if "i = length Ls - 1"
    using L that by (auto simp: append_eq_Cons_conv Cons_eq_append_conv)
  show "a = bt_root t \<longleftrightarrow> i = length Ls - 1"
  proof
    assume "i = length Ls - 1"
    then show "a = bt_root t" using * L r by auto
  next
    assume "a = bt_root t"
    then show "i = length Ls - 1" using lvs_addrs(2) [OF lv i L] r ne(1) by (metis diff_less length_greater_0_conv less_one list.set_intros(1) snd_conv)
  qed
qed

lemma pg_new_root_in:
  assumes "a \<noteq> b"
  shows "pg_in (Suc lev) bt_low [] 1 (pg_new_root a sk b (Suc lev)) \<and>
    pg_cont bt_low (pg_new_root a sk b (Suc lev)) = [(bt_low, a), (sint sk, b)]"
proof -
  let ?p = "pg_new_root a sk b (Suc lev)"
  have ok: "pg_ok 1 ?p" by (rule pg_ok_new_root [OF assms])
  have f: "pg_level ?p = Suc lev" "\<not> pg_deleted ?p" "pg_sibling ?p = None" "pg_leftmost ?p = Some a"
    by (simp_all add: pg_new_root_def pg_new_def Let_def)
  have l: "pg_live 1 ?p = [\<lparr>be_key = sk, be_ptr = Some b\<rparr>]"
    by (simp add: pg_live_def pg_new_root_def pg_new_def Let_def numeral_eq_Suc)
  have "bt_low < sint sk" using sint_ge [of sk] by (simp add: bt_low_def)
  moreover have "sint sk < lv_hi []" using sint_lt [of sk] by (simp add: lv_hi_def)
  ultimately show ?thesis using ok f l bt_low_le by (simp add: pg_in_def pg_cont_ok [OF ok] pg_entries_def)
qed

lemma lv_cont_other:
  assumes "lvs H Ls free" "i < length Ls" "Ls ! i = L1 @ (l, a) # L2" "j < length Ls" "j \<noteq> i"
  shows "lv_cont (H(a \<mapsto> p)) (Ls ! j) = lv_cont H (Ls ! j)" "x \<in> set (Ls ! j) \<Longrightarrow> (H(a \<mapsto> p)) (snd x) = H (snd x)"
proof -
  have a: "\<forall>x \<in> set (Ls ! j). snd x \<noteq> a" using lvs_addrs(2) [OF assms(1-3)] assms(4,5) by blast
  then show "lv_cont (H(a \<mapsto> p)) (Ls ! j) = lv_cont H (Ls ! j)" by (intro lv_cont_cong) simp
  show "x \<in> set (Ls ! j) \<Longrightarrow> (H(a \<mapsto> p)) (snd x) = H (snd x)" using a by simp
qed

lemma lvs_fresh: "lvs H Ls (b # free) \<Longrightarrow> j < length Ls \<Longrightarrow> x \<in> set (Ls ! j) \<Longrightarrow> snd x \<noteq> b"
  using imageI [OF lvs_concat, of j Ls x snd] unfolding lvs_def by (metis disjoint_iff distinct_append list.set_intros(1) set_map)

lemma st_post_page:
  assumes t: "bt_lv t Ls" and i: "i < length Ls" and ag: "lv_agree (bt_heap t) Ls i" and L: "Ls ! i = L1 @ (l, a) # L2"
    and p0: "bt_heap t a = Some p0" and p: "pg_in i l L2 n p" and c: "pg_cont l p = kv_ins k v (pg_cont l p0)"
    and c1: "\<forall>x \<in> set (lv_cont (bt_heap t) L1). fst x < k" and c2: "\<forall>x \<in> set (lv_cont (bt_heap t) L2). k < fst x"
  shows "st_post t Ls i k v (bt_put a p t) Ls"
proof -
  have lv: "lvs (bt_heap t) Ls (bt_free t)" using t by (simp add: bt_lv_def)
  have "bt_lv (bt_put a p t) Ls" using t lvs_page [OF lv i L p] by (simp add: bt_lv_def bt_put_def)
  moreover have "lv_cont (bt_heap (bt_put a p t)) (Ls ! i) = kv_ins k v (lv_cont (bt_heap t) (Ls ! i))"
    using lv_cont_page [OF lvs_addrs(1) [OF lv i L], of "bt_heap t" p l] kv_ins_append [OF c1 c2, of v "pg_cont l p0"] p0 c
    by (simp add: bt_put_def L)
  moreover have "lv_agree (bt_heap (bt_put a p t)) Ls i"
    using ag lv_cont_other(1) [OF lv i L] by (simp add: lv_agree_def bt_put_def)
  moreover have "dom (bt_heap (bt_put a p t)) = dom (bt_heap t)" using p0 by (auto simp: bt_put_def)
  moreover have "\<forall>j < i. \<forall>x \<in> set (Ls ! j). bt_heap (bt_put a p t) (snd x) = bt_heap t (snd x)"
  proof (intro allI impI ballI)
    fix j x assume j: "j < i" "x \<in> set (Ls ! j)"
    then show "bt_heap (bt_put a p t) (snd x) = bt_heap t (snd x)"
      using lv_cont_other(2) [OF lv i L, of j x p] i by (simp add: bt_put_def)
  qed
  ultimately show ?thesis by (simp add: st_post_def) (simp add: bt_put_def)
qed

text \<open>The state after a split, before the level above learns of the new page.\<close>

lemma split_level:
  assumes lv: "lvs H Ls (b # free)" and i: "i < length Ls" and ag: "lv_agree H Ls i" and L: "Ls ! i = L1 @ (l, a) # L2"
    and p0: "H a = Some p0" and p: "pg_in i l ((u, b) # L2) n p" and q: "pg_in i u L2 m q" and u: "l < u" "u < lv_hi L2"
    and c: "pg_cont l p @ pg_cont u q = kv_ins k v (pg_cont l p0)"
    and c1: "\<forall>x \<in> set (lv_cont H L1). fst x < k" and c2: "\<forall>x \<in> set (lv_cont H L2). k < fst x"
  defines "H' \<equiv> H(a \<mapsto> p, b \<mapsto> q)" and "Ls' \<equiv> Ls[i := L1 @ (l, a) # (u, b) # L2]"
  shows "lvs H' Ls' free" and "lv_cont H' (Ls' ! i) = kv_ins k v (lv_cont H (Ls ! i))"
    and "\<forall>j < length Ls. j \<noteq> i \<longrightarrow> Ls' ! j = Ls ! j \<and> lv_cont H' (Ls ! j) = lv_cont H (Ls ! j) \<and> (\<forall>x \<in> set (Ls ! j). H' (snd x) = H (snd x))"
    and "lv_agree H' Ls' (Suc i)" and "Suc i < length Ls \<Longrightarrow> lv_cont H' (Ls' ! Suc i) = Ls ! i"
    and "kv_ins u b (Ls ! i) = Ls' ! i" and "u \<notin> fst ` set (Ls ! i)" and "b \<notin> snd ` set (Ls ! i)"
proof -
  have b: "snd x \<noteq> b" if "j < length Ls" "x \<in> set (Ls ! j)" for x j using lvs_fresh [OF lv that] .
  have ab: "a \<noteq> b" using b [OF i, of "(l, a)"] by (simp add: L)
  show "lvs H' Ls' free" unfolding H'_def Ls'_def by (rule lvs_split [OF lv i L p q u])
  have "\<forall>x \<in> set L1 \<union> set L2. snd x \<noteq> a \<and> snd x \<noteq> b" using lvs_addrs(1) [OF lv i L] b [OF i] by (auto simp: L)
  from lv_cont_split [OF this ab, of H p q l u]
  show "lv_cont H' (Ls' ! i) = kv_ins k v (lv_cont H (Ls ! i))"
    using kv_ins_append [OF c1 c2, of v "pg_cont l p0"] i p0 c by (simp add: H'_def Ls'_def L)
  show oth: "\<forall>j < length Ls. j \<noteq> i \<longrightarrow> Ls' ! j = Ls ! j \<and> lv_cont H' (Ls ! j) = lv_cont H (Ls ! j) \<and> (\<forall>x \<in> set (Ls ! j). H' (snd x) = H (snd x))"
  proof (intro allI impI)
    fix j assume j: "j < length Ls" "j \<noteq> i"
    have "H' (snd x) = H (snd x)" if "x \<in> set (Ls ! j)" for x
      using lvs_addrs(2) [OF lv i L] j that b [OF j(1) that] by (simp add: H'_def)
    then show "Ls' ! j = Ls ! j \<and> lv_cont H' (Ls ! j) = lv_cont H (Ls ! j) \<and> (\<forall>x \<in> set (Ls ! j). H' (snd x) = H (snd x))"
      using j by (auto simp: Ls'_def intro: lv_cont_cong)
  qed
  have len: "length Ls' = length Ls" by (simp add: Ls'_def)
  show "lv_agree H' Ls' (Suc i)"
    unfolding lv_agree_def len
  proof (intro allI impI, elim conjE)
    fix j assume j: "Suc i \<le> j" "Suc j < length Ls"
    then show "lv_cont H' (Ls' ! Suc j) = Ls' ! j" using oth ag by (simp add: lv_agree_def)
  qed
  show "lv_cont H' (Ls' ! Suc i) = Ls ! i" if "Suc i < length Ls" using oth ag that by (simp add: lv_agree_def)
  have s: "kv_sorted (Ls ! i)" using lv i by (simp add: lvs_def)
  have l2: "\<forall>x \<in> set L2. u < fst x" using s u(2) by (cases L2) (auto simp: L lv_hi_def sorted_wrt_append)
  have l1: "\<forall>x \<in> set (L1 @ [(l, a)]). fst x < u" using s u(1) by (auto simp: L sorted_wrt_append)
  show "kv_ins u b (Ls ! i) = Ls' ! i"
    using kv_ins_append [OF l1 l2, of b "[]"] i by (simp add: L Ls'_def kv_ins_def [of u b "[]"])
  show "u \<notin> fst ` set (Ls ! i)" using l1 l2 by (auto simp: L)
  show "b \<notin> snd ` set (Ls ! i)" using b [OF i] by auto
qed

lemma no_move:
  "\<not> pg_to_sibling H key p \<Longrightarrow>
   \<not> (case pg_sibling p of None \<Rightarrow> False | Some s \<Rightarrow> (case H s of None \<Rightarrow> False | Some sp \<Rightarrow> sint (pg_key sp 0) < sint key))"
  by (auto simp: pg_to_sibling_def split: option.splits)

lemma bt_insert_internal_step:
  assumes t: "bt_lv t Ls" and i: "Suc i < length Ls" and ag: "lv_agree (bt_heap t) Ls (Suc i)"
    and st: "bt_store fuel key v (snd (lv_find (sint key) (Ls ! Suc i))) t = Some (Some b, t')"
  shows "bt_insert_internal (Suc fuel) key v (Suc i) t = Some t'"
proof -
  obtain rp where rp: "bt_heap t (bt_root t) = Some rp" "pg_level rp = length Ls - 1" using bt_lv_root_level [OF t] by blast
  have "bt_to_level (bt_heap t) key (Suc i) (bt_root t) = Some (snd (lv_find (sint key) (Ls ! Suc i)))"
    using bt_to_level_ok [OF t ag, of "length Ls - 1" key] i unfolding bt_root_find [OF t] by simp
  then show ?thesis using rp i st by simp
qed

lemma bt_store_split:
  assumes "bt_heap t a = Some p" and "\<not> pg_deleted p"
    and "\<not> (case pg_sibling p of None \<Rightarrow> False | Some s \<Rightarrow> (case bt_heap t s of None \<Rightarrow> False | Some sp \<Rightarrow> sint (pg_key sp 0) < sint key))"
    and "pg_count p = 29" and "bt_free t = b # fr" and ab: "a \<noteq> b" and sp: "pg_split b 29 p = (sk, cnt, p1, s1)"
    and p2: "p2 = (if sint key < sint sk then snd (pg_insert_key key (Some v) (nat (pg_last p1 + 1)) p1) else p1)"
    and s2: "s2 = (if sint key < sint sk then s1 else snd (pg_insert_key key (Some v) cnt s1))"
    and t2: "t2 = t\<lparr>bt_heap := (bt_heap t)(a \<mapsto> p2, b \<mapsto> s2), bt_free := fr\<rparr>"
  shows "bt_store (Suc f) key v a t =
    (if bt_root t = a
     then Option.bind (bt_alloc (pg_new_root a sk b (pg_level p + 1)) t2)
            (\<lambda>(r, t3). Some (Some (if sint key < sint sk then a else b), bt_setNewRoot r t3))
     else Option.bind (bt_insert_internal f sk b (pg_level p + 1) t2)
            (\<lambda>t3. Some (Some (if sint key < sint sk then a else b), t3)))"
proof -
  define t1 where "t1 = (bt_put b (pg_new (pg_level p)) t)\<lparr>bt_free := fr\<rparr>"
  have al: "bt_alloc (pg_new (pg_level p)) t = Some (b, t1)" using assms(5) by (simp add: bt_alloc_def t1_def)
  have "bt_put b s2 (bt_put a p2 t1) = t2" using ab by (auto simp: bt_put_def t1_def t2 fun_eq_iff)
  then show ?thesis
    using assms(1-4) by (simp add: al sp p2 s2 Let_def) (simp add: t2)
qed

lemma bt_store_ok:
  assumes "bt_lv t Ls" and "i < length Ls" and "lv_agree (bt_heap t) Ls i"
    and "sint key \<notin> fst ` set (lv_cont (bt_heap t) (Ls ! i))" and "v \<notin> snd ` set (lv_cont (bt_heap t) (Ls ! i))"
    and "2 * (length Ls - i) \<le> fuel" and "length Ls - i < length (bt_free t)"
  shows "\<exists>b t' Ls'. bt_store fuel key v (snd (lv_find (sint key) (Ls ! i))) t = Some (Some b, t') \<and> st_post t Ls i (sint key) v t' Ls'"
  using assms
proof (induction "length Ls - i" arbitrary: t Ls i key v fuel)
  case 0
  then show ?case by simp
next
  case (Suc d)
  note t = Suc.prems(1) and i = Suc.prems(2) and ag = Suc.prems(3) and k = Suc.prems(4) and v = Suc.prems(5)
  let ?H = "bt_heap t"
  have lv: "lvs ?H Ls (bt_free t)" using t by (simp add: bt_lv_def)
  obtain L1 l a L2 n p where T: "Ls ! i = L1 @ (l, a) # L2" "lv_find (sint key) (Ls ! i) = (l, a)" "l \<le> sint key"
      "sint key < lv_hi L2" "?H a = Some p" "pg_in i l L2 n p" "lv_ok ?H i L2"
      "\<forall>x \<in> set (lv_cont ?H L1). fst x < l" "\<forall>x \<in> set (lv_cont ?H L2). sint key < fst x"
    using lv_target [OF bt_lv_ok [OF t i] bt_lv_sorted [OF t i] bt_lv_low [OF t i], of key] by blast
  obtain f where f: "fuel = Suc (Suc f)" "2 * (length Ls - Suc i) \<le> f" using Suc.prems(6) Suc.hyps(2)
    by (cases fuel; cases "fuel - 1") auto
  have ok: "pg_ok n p" and nd: "\<not> pg_deleted p" and plev: "pg_level p = i" using T(6) by (simp_all add: pg_in_def)
  have n30: "n < 30" using pg_ok_length [OF ok] by blast
  have cont: "lv_cont ?H (Ls ! i) = lv_cont ?H L1 @ pg_cont l p @ lv_cont ?H L2" by (simp add: T(1,5))
  have kp: "sint key \<notin> fst ` set (pg_cont l p)" "v \<notin> snd ` set (pg_cont l p)" using k v by (auto simp: cont)
  have c1: "\<forall>x \<in> set (lv_cont ?H L1). fst x < sint key" using T(3,8) by fastforce
  have stay: "\<not> (case pg_sibling p of None \<Rightarrow> False | Some s \<Rightarrow> (case ?H s of None \<Rightarrow> False | Some sp \<Rightarrow> sint (pg_key sp 0) < sint key))"
    by (rule no_move [OF pg_in_not_sibling [OF T(6,7,4)]])
  show ?case
  proof (cases "n < 29")
    case True
    let ?p = "snd (pg_insert_key key (Some v) n p)"
    have "pg_in i l L2 (n + 1) ?p \<and> pg_cont l ?p = kv_ins (sint key) v (pg_cont l p)"
      by (rule pg_insert_in [OF T(6) True T(3,4) kp])
    then have "st_post t Ls i (sint key) v (bt_put a ?p t) Ls"
      by (elim conjE, intro st_post_page [OF t i ag T(1,5) _ _ c1 T(9)])
    moreover have "bt_store fuel key v a t = Some (Some a, bt_put a ?p t)"
      using T(5) nd stay True by (simp add: f(1) pg_count_ok [OF ok])
    ultimately show ?thesis unfolding T(2) by auto
  next
    case False
    then have n: "n = 29" using n30 by simp
    obtain b fr where fr: "bt_free t = b # fr" using Suc.prems(7) by (cases "bt_free t") auto
    obtain sk cnt p1 s1 where sp: "pg_split b 29 p = (sk, cnt, p1, s1)" by (metis prod_cases4)
    define p2 where "p2 = (if sint key < sint sk then snd (pg_insert_key key (Some v) (nat (pg_last p1 + 1)) p1) else p1)"
    define s2 where "s2 = (if sint key < sint sk then s1 else snd (pg_insert_key key (Some v) cnt s1))"
    obtain n1 n2 where in2: "pg_in i l ((sint sk, b) # L2) n1 p2" "pg_in i (sint sk) L2 n2 s2"
        "pg_cont l p2 @ pg_cont (sint sk) s2 = kv_ins (sint key) v (pg_cont l p)" "l < sint sk" "sint sk < lv_hi L2"
      using pg_store_full [OF T(6) [unfolded n] T(3,4) kp sp p2_def s2_def] by blast
    have ab: "a \<noteq> b" using lvs_fresh [OF lv [unfolded fr] i, of "(l, a)"] by (simp add: T(1))
    define t2 where "t2 = t\<lparr>bt_heap := ?H(a \<mapsto> p2, b \<mapsto> s2), bt_free := fr\<rparr>"
    define Ls2 where "Ls2 = Ls[i := L1 @ (l, a) # (sint sk, b) # L2]"
    note sl = split_level [OF lv [unfolded fr] i ag T(1,5) in2(1,2,4,5,3) c1 T(9), folded Ls2_def]
    have h2: "bt_heap t2 = ?H(a \<mapsto> p2, b \<mapsto> s2)" "bt_free t2 = fr" "bt_root t2 = bt_root t" "bt_height t2 = bt_height t"
      by (simp_all add: t2_def)
    note oth = sl(3) [folded h2(1)]
    have len2: "length Ls2 = length Ls" by (simp add: Ls2_def)
    note st = bt_store_split [OF T(5) nd stay pg_count_ok [OF ok, unfolded n] fr ab sp p2_def s2_def t2_def, of "Suc f", folded f(1)]
    have dom2: "insert b (set fr) \<union> dom ?H = set (bt_free t) \<union> dom ?H" "dom (bt_heap t2) = insert b (dom ?H)"
      using T(5) by (auto simp: fr h2)
    show ?thesis
    proof (cases "i = length Ls - 1")
      case True
      then have root: "bt_root t = a" and L: "L1 = []" "L2 = []" "l = bt_low" using bt_lv_is_root [OF t i T(1)] by auto
      have si: "Suc i = length Ls" using True i by simp
      obtain r fr2 where fr2: "fr = r # fr2" using Suc.prems(7) True i by (cases fr) (auto simp: fr)
      let ?r = "pg_new_root a sk b (Suc i)"
      define t3 where "t3 = t2\<lparr>bt_heap := (bt_heap t2)(r \<mapsto> ?r), bt_free := fr2, bt_root := r, bt_height := bt_height t2 + 1\<rparr>"
      have run: "bt_store fuel key v a t = Some (Some (if sint key < sint sk then a else b), t3)"
        using st root by (simp add: plev bt_alloc_def h2 fr2 bt_setNewRoot_def bt_put_def t3_def)
      have r: "pg_in (length Ls2) bt_low [] 1 ?r" "pg_cont bt_low ?r = [(bt_low, a), (sint sk, b)]"
        using pg_new_root_in [OF ab, of i sk] si by (simp_all add: len2)
      have lv2: "lvs (bt_heap t2) Ls2 (r # fr2)" using sl(1) by (simp add: h2 fr2)
      have lv3: "lvs (bt_heap t3) (Ls2 @ [[(bt_low, r)]]) fr2" using lvs_grow [OF lv2 r(1)] by (simp add: t3_def)
      have Li: "Ls2 ! i = [(bt_low, a), (sint sk, b)]" using i by (simp add: Ls2_def L)
      have fresh: "\<forall>x \<in> set (Ls2 ! j). snd x \<noteq> r" if "j < length Ls" for j using lvs_fresh [OF lv2, of j] that len2 by auto
      have "bt_lv t3 (Ls2 @ [[(bt_low, r)]])" using lv3 t by (simp add: bt_lv_def t3_def h2 len2)
      moreover have "lv_cont (bt_heap t3) (Ls2 ! i) = kv_ins (sint key) v (lv_cont ?H (Ls ! i))"
        using sl(2) lv_cont_cong [of "Ls2 ! i" "bt_heap t3" "bt_heap t2"] fresh [OF i] by (simp add: t3_def h2)
      moreover have "lv_agree (bt_heap t3) (Ls2 @ [[(bt_low, r)]]) i"
        unfolding lv_agree_def
      proof (intro allI impI, elim conjE)
        fix j assume "i \<le> j" "Suc j < length (Ls2 @ [[(bt_low, r)]])"
        then have "j = i" using si len2 by simp
        then show "lv_cont (bt_heap t3) ((Ls2 @ [[(bt_low, r)]]) ! Suc j) = (Ls2 @ [[(bt_low, r)]]) ! j"
          using si len2 r(2) Li by (simp add: nth_append t3_def)
      qed
      moreover have "\<forall>j < i. Ls2 ! j = Ls ! j \<and> (\<forall>x \<in> set (Ls ! j). bt_heap t3 (snd x) = ?H (snd x))"
      proof (intro allI impI)
        fix j assume j: "j < i"
        then have "j < length Ls" "j \<noteq> i" using i by simp_all
        then have "Ls2 ! j = Ls ! j \<and> (\<forall>x \<in> set (Ls ! j). bt_heap t2 (snd x) = ?H (snd x))" using oth by blast
        moreover have "\<forall>x \<in> set (Ls2 ! j). snd x \<noteq> r" using fresh [of j] j i by simp
        ultimately show "Ls2 ! j = Ls ! j \<and> (\<forall>x \<in> set (Ls ! j). bt_heap t3 (snd x) = ?H (snd x))" by (simp add: t3_def)
      qed
      ultimately have "st_post t Ls i (sint key) v t3 (Ls2 @ [[(bt_low, r)]])"
        using i dom2 by (auto simp: st_post_def len2 nth_append t3_def h2 fr2)
      then show ?thesis using run unfolding T(2) by auto
    next
      case False
      then have root: "bt_root t \<noteq> a" and si: "Suc i < length Ls" using bt_lv_is_root(1) [OF t i T(1)] i by auto
      have "last Ls2 = last Ls" "Ls2 \<noteq> []" 
        using False i by (cases "Ls = []"; simp add: Ls2_def last_list_update)+
      then have t2: "bt_lv t2 Ls2" using t sl(1) by (simp add: bt_lv_def h2 len2)
      have "\<exists>b' t' Ls'. bt_store f sk b (snd (lv_find (sint sk) (Ls2 ! Suc i))) t2 = Some (Some b', t') \<and> st_post t2 Ls2 (Suc i) (sint sk) b t' Ls'"
      proof (rule Suc.hyps(1) [OF _ t2])
        show "d = length Ls2 - Suc i" "Suc i < length Ls2" using Suc.hyps(2) si by (simp_all add: len2)
        show "lv_agree (bt_heap t2) Ls2 (Suc i)" using sl(4) by (simp add: h2)
        show "sint sk \<notin> fst ` set (lv_cont (bt_heap t2) (Ls2 ! Suc i))" "b \<notin> snd ` set (lv_cont (bt_heap t2) (Ls2 ! Suc i))"
          using sl(5) [OF si] sl(7,8) by (simp_all add: h2)
        show "2 * (length Ls2 - Suc i) \<le> f" using f(2) by (simp add: len2)
        show "length Ls2 - Suc i < length (bt_free t2)" using Suc.prems(7) i by (simp add: len2 h2 fr)
      qed
      then obtain b' t' Ls' where ih: "bt_store f sk b (snd (lv_find (sint sk) (Ls2 ! Suc i))) t2 = Some (Some b', t')"
          "st_post t2 Ls2 (Suc i) (sint sk) b t' Ls'" by blast
      have "bt_insert_internal (Suc f) sk b (Suc i) t2 = Some t'"
        by (rule bt_insert_internal_step [OF t2 _ _ ih(1)]) (use si sl(4) in \<open>simp_all add: len2 h2\<close>)
      then have run: "bt_store fuel key v a t = Some (Some (if sint key < sint sk then a else b), t')"
        using st root by (simp add: plev)
      note post = ih(2) [unfolded st_post_def]
      have keep: "Ls' ! j = Ls2 ! j \<and> (\<forall>x \<in> set (Ls2 ! j). bt_heap t' (snd x) = bt_heap t2 (snd x))" if "j \<le> i" for j
        using post that by (simp add: less_Suc_eq_le)
      have pl: "bt_lv t' Ls'" "length Ls \<le> length Ls'" using post len2 by simp_all
      have d2: "set (bt_free t2) \<union> dom (bt_heap t2) = set (bt_free t) \<union> dom ?H"
        unfolding dom2(2) h2(2) dom2(1) [symmetric] by simp
      have "set (bt_free t') \<union> dom (bt_heap t') \<subseteq> set (bt_free t2) \<union> dom (bt_heap t2)" using post by blast
      then have pd: "set (bt_free t') \<union> dom (bt_heap t') \<subseteq> set (bt_free t) \<union> dom ?H" unfolding d2 .
      have "lv_cont (bt_heap t') (Ls' ! i) = lv_cont (bt_heap t2) (Ls2 ! i)"
        using keep [of i] lv_cont_cong by auto
      then have "lv_cont (bt_heap t') (Ls' ! i) = kv_ins (sint key) v (lv_cont ?H (Ls ! i))" using sl(2) by (simp add: h2)
      moreover have "lv_agree (bt_heap t') Ls' i"
        unfolding lv_agree_def
      proof (intro allI impI, elim conjE)
        fix j assume j: "i \<le> j" "Suc j < length Ls'"
        show "lv_cont (bt_heap t') (Ls' ! Suc j) = Ls' ! j"
        proof (cases "j = i")
          case True
          then show ?thesis using post sl(5) [OF si] sl(6) keep [of i] by (simp add: h2)
        next
          case False
          then show ?thesis using post j by (simp add: lv_agree_def)
        qed
      qed
      moreover have "\<forall>j < i. Ls' ! j = Ls ! j \<and> (\<forall>x \<in> set (Ls ! j). bt_heap t' (snd x) = ?H (snd x))"
      proof (intro allI impI)
        fix j assume j: "j < i"
        then have "j < length Ls" "j \<noteq> i" using i by simp_all
        then have "Ls2 ! j = Ls ! j \<and> (\<forall>x \<in> set (Ls ! j). bt_heap t2 (snd x) = ?H (snd x))" using oth by blast
        then show "Ls' ! j = Ls ! j \<and> (\<forall>x \<in> set (Ls ! j). bt_heap t' (snd x) = ?H (snd x))"
          using keep [of j] j by simp
      qed
      ultimately have "st_post t Ls i (sint key) v t' Ls'"
        unfolding st_post_def using pl pd by (intro conjI)
      then show ?thesis using run unfolding T(2) by auto
    qed
  qed
qed

end
