(* ===== verification/BTreeProps.thy ===== *)
theory BTreeProps
  imports BTreeOps
begin

text \<open>
  The persistent B+-tree as a map from signed keys to pointers: what insertion, search, deletion, the search of the
  last key not above and the scan do in every state the calls can reach.
\<close>

section \<open>The invariant between calls\<close>

definition bt_pages :: "btree \<Rightarrow> nat set" where
  "bt_pages t = dom (bt_heap t) \<union> set (bt_free t)"

definition bt_inv :: "btree \<Rightarrow> (int \<times> nat) list list \<Rightarrow> (int \<times> nat) list \<Rightarrow> bool" where
  "bt_inv t Ls E \<longleftrightarrow> bt_lv t Ls \<and> lv_agree (bt_heap t) Ls 0 \<and> lv_cont (bt_heap t) (Ls ! 0) = E \<and> kv_sorted E \<and>
     snd ` set E \<inter> bt_pages t = {}"

lemma bt_inv_len: "bt_inv t Ls E \<Longrightarrow> 0 < length Ls"
  by (simp add: bt_inv_def bt_lv_def)

lemma bt_inv_new:
  assumes "distinct (root # free)"
  shows "bt_inv (bt_new root free) [[(bt_low, root)]] []"
proof -
  have "be_key ` set (pg_recs (pg_new 0)) \<subseteq> UNIV" by simp
  then have "pg_in 0 bt_low [] 0 (pg_new 0)"
    using pg_ok_new [of 0] bt_low_le by (auto simp: pg_in_def pg_live_def pg_new_def)
  moreover have "pg_cont bt_low (pg_new 0) = []"
    by (simp add: pg_cont_ok [OF pg_ok_new] pg_entries_def pg_live_def) (simp add: pg_new_def)
  ultimately show ?thesis
    using assms by (auto simp: bt_inv_def bt_lv_def lvs_def lv_agree_def bt_new_def)
qed

section \<open>Insertion\<close>

lemma bt_leaf_of_root:
  assumes t: "bt_inv t Ls E"
  shows "bt_to_leaf (bt_heap t) key (bt_root t) = Some (snd (lv_find (sint key) (Ls ! 0)))"
  using bt_to_leaf_ok [of t Ls "length Ls - 1" key] bt_root_find [of t Ls key] t bt_inv_len [OF t]
  by (metis bt_inv_def diff_less less_one)

lemma bt_insert_ok:
  assumes t: "bt_inv t Ls E" and k: "sint key \<notin> fst ` set E" and v: "v \<notin> snd ` set E" "v \<notin> bt_pages t"
    and f: "2 * bt_height t < fuel" and free: "bt_height t < length (bt_free t)"
  shows "\<exists>t' Ls'. bt_insert fuel key v t = Some t' \<and> bt_inv t' Ls' (kv_ins (sint key) v E) \<and> bt_pages t' \<subseteq> bt_pages t"
proof -
  have lv: "bt_lv t Ls" and ag: "lv_agree (bt_heap t) Ls 0" and E: "lv_cont (bt_heap t) (Ls ! 0) = E"
    and s: "kv_sorted E" and p: "snd ` set E \<inter> bt_pages t = {}" using t by (simp_all add: bt_inv_def)
  obtain f' where f': "fuel = Suc f'" "2 * length Ls \<le> f'" using f lv by (cases fuel) (auto simp: bt_lv_def)
  have "\<exists>b t' Ls'. bt_store f' key v (snd (lv_find (sint key) (Ls ! 0))) t = Some (Some b, t') \<and> st_post t Ls 0 (sint key) v t' Ls'"
    using lv bt_inv_len [OF t] ag k v E f'(2) free by (intro bt_store_ok) (auto simp: bt_lv_def)
  then obtain b t' Ls' where st: "bt_store f' key v (snd (lv_find (sint key) (Ls ! 0))) t = Some (Some b, t')"
      "st_post t Ls 0 (sint key) v t' Ls'" by blast
  have run: "bt_insert fuel key v t = Some t'" by (simp add: f'(1) bt_leaf_of_root [OF t] st(1))
  have pages: "bt_pages t' \<subseteq> bt_pages t" using st(2) unfolding st_post_def bt_pages_def by blast
  moreover have "snd ` set (kv_ins (sint key) v E) \<inter> bt_pages t = {}" using p v(2) by (auto simp: kv_ins_set [OF k])
  ultimately have "snd ` set (kv_ins (sint key) v E) \<inter> bt_pages t' = {}" by blast
  then have "bt_inv t' Ls' (kv_ins (sint key) v E)"
    using st(2) kv_ins_sorted [OF s] by (simp add: bt_inv_def st_post_def E)
  then show ?thesis using run pages by blast
qed

section \<open>Search\<close>

lemma kv_map_of_split:
  assumes "\<forall>x \<in> set xs. fst x < l" "l \<le> (k :: int)" "\<forall>x \<in> set zs. k < fst x"
  shows "map_of (xs @ ys @ zs) k = map_of ys k"
proof -
  have "k \<notin> fst ` set xs" using assms(1,2) by fastforce
  moreover have "k \<notin> fst ` set zs" using assms(3) by fastforce
  ultimately have "map_of xs k = None" "map_of zs k = None" by (simp_all add: map_of_eq_None_iff)
  then show ?thesis by (simp add: map_add_def split: option.split)
qed

text \<open>The leaf of a key, as the calls see it.\<close>

lemma bt_leaf:
  assumes t: "bt_inv t Ls E"
  shows "\<exists>L1 l a L2 n p. Ls ! 0 = L1 @ (l, a) # L2 \<and> bt_to_leaf (bt_heap t) key (bt_root t) = Some a \<and> l \<le> sint key \<and>
    bt_heap t a = Some p \<and> pg_in 0 l L2 n p \<and> E = lv_cont (bt_heap t) L1 @ pg_entries n p @ lv_cont (bt_heap t) L2 \<and>
    (\<forall>x \<in> set (lv_cont (bt_heap t) L1). fst x < l) \<and> (\<forall>x \<in> set (lv_cont (bt_heap t) L2). sint key < fst x) \<and>
    \<not> pg_to_sibling (bt_heap t) key p \<and> (\<forall>s. pg_sibling p = Some s \<longrightarrow> s \<in> bt_pages t)"
proof -
  have lv: "bt_lv t Ls" using t by (simp add: bt_inv_def)
  note i = bt_inv_len [OF t]
  obtain L1 l a L2 n p where T: "Ls ! 0 = L1 @ (l, a) # L2" "lv_find (sint key) (Ls ! 0) = (l, a)" "l \<le> sint key"
      "sint key < lv_hi L2" "bt_heap t a = Some p" "pg_in 0 l L2 n p" "lv_ok (bt_heap t) 0 L2"
      "\<forall>x \<in> set (lv_cont (bt_heap t) L1). fst x < l" "\<forall>x \<in> set (lv_cont (bt_heap t) L2). sint key < fst x"
    using lv_target [OF bt_lv_ok [OF lv i] bt_lv_sorted [OF lv i] bt_lv_low [OF lv i], of key] by blast
  have ok: "pg_ok n p" using T(6) unfolding pg_in_def by blast
  have "pg_cont l p = pg_entries n p" using pg_in_leaf [OF T(6)] by (simp add: pg_cont_ok [OF ok])
  then have "E = lv_cont (bt_heap t) L1 @ pg_entries n p @ lv_cont (bt_heap t) L2"
    using t T(1,5) by (auto simp: bt_inv_def)
  moreover have "s \<in> bt_pages t" if s: "pg_sibling p = Some s" for s
  proof (cases L2)
    case (Cons x L3)
    then show ?thesis using T(6,7) s by (cases x) (auto simp: pg_in_def bt_pages_def)
  qed (use T(6) s in \<open>simp add: pg_in_def\<close>)
  ultimately show ?thesis using T bt_leaf_of_root [OF t, of key] pg_in_not_sibling [OF T(6,7,4)] by auto
qed

lemma bt_chase_ok:
  assumes t: "bt_inv t Ls E" and a: "bt_to_leaf (bt_heap t) key (bt_root t) = Some a" and p: "bt_heap t a = Some p"
  shows "bt_chase (bt_heap t) key a =
    Some (if map_of E (sint key) = None \<and> pg_sibling p = None then None else Some a, map_of E (sint key))"
proof -
  obtain L1 l L2 n where T: "l \<le> sint key" "pg_in 0 l L2 n p" "E = lv_cont (bt_heap t) L1 @ pg_entries n p @ lv_cont (bt_heap t) L2"
      "\<forall>x \<in> set (lv_cont (bt_heap t) L1). fst x < l" "\<forall>x \<in> set (lv_cont (bt_heap t) L2). sint key < fst x"
      "\<not> pg_to_sibling (bt_heap t) key p" "\<forall>s. pg_sibling p = Some s \<longrightarrow> s \<in> bt_pages t"
    using bt_leaf [OF t, of key] a p by auto
  have ok: "pg_ok n p" using T(2) unfolding pg_in_def by blast
  have "pg_linear_search (bt_heap t) key p = map_of (pg_entries n p) (sint key)"
    by (rule pg_search_leaf [OF ok pg_in_leaf [OF T(2)] T(6)])
  also have "\<dots> = map_of E (sint key)" unfolding T(3) by (rule kv_map_of_split [OF T(4,1,5), symmetric])
  finally have r: "pg_linear_search (bt_heap t) key p = map_of E (sint key)" .
  have "map_of E (sint key) \<noteq> pg_sibling p" if "map_of E (sint key) = Some v" for v
  proof
    assume "map_of E (sint key) = pg_sibling p"
    then have "v \<in> bt_pages t" using T(7) that by simp
    moreover have "v \<in> snd ` set E" using map_of_SomeD [OF that] by force
    ultimately show False using t by (auto simp: bt_inv_def)
  qed
  then show ?thesis
    by (subst bt_chase.simps) (cases "map_of E (sint key)"; cases "pg_sibling p"; auto simp: p r Let_def)
qed

lemma bt_search_ok:
  assumes t: "bt_inv t Ls E"
  shows "bt_search key t = Some (map_of E (sint key))"
proof -
  obtain a p where "bt_to_leaf (bt_heap t) key (bt_root t) = Some a" "bt_heap t a = Some p" using bt_leaf [OF t, of key] by blast
  then show ?thesis using bt_chase_ok [OF t, of key a p] by (simp add: bt_search_def)
qed

section \<open>Deletion\<close>

lemma pg_remove_in:
  assumes p: "pg_in 0 l rest n p" and k: "sint key \<in> fst ` set (pg_entries n p)"
  shows "\<exists>p'. pg_remove_key key p = (True, p') \<and> pg_in 0 l rest (n - 1) p' \<and>
    pg_cont l p' = filter (\<lambda>x. fst x \<noteq> sint key) (pg_cont l p)"
proof -
  have ok: "pg_ok n p" using p unfolding pg_in_def by blast
  have "sint key \<in> skey ` set (pg_live n p)" using k by (auto simp: pg_entries_def)
  then obtain p' where q: "pg_remove_key key p = (True, p')" "pg_ok (n - 1) p'"
      "pg_live (n - 1) p' = filter (\<lambda>e. skey e \<noteq> sint key) (pg_live n p)" "pg_leftmost p' = pg_leftmost p"
      "pg_sibling p' = pg_sibling p" "pg_level p' = pg_level p" "pg_deleted p' = pg_deleted p" "set (pg_recs p') \<subseteq> set (pg_recs p)"
    using pg_remove_key_present [OF ok] by blast
  have "pg_in 0 l rest (n - 1) p'" using p q(2-7) subsetD [OF q(8)] unfolding pg_in_def by auto
  moreover have "pg_cont l p' = filter (\<lambda>x. fst x \<noteq> sint key) (pg_cont l p)"
    using q(3,4) pg_in_leaf [OF p] by (simp add: pg_cont_ok [OF q(2)] pg_cont_ok [OF ok] pg_entries_def filter_map o_def)
  ultimately show ?thesis using q(1) by blast
qed

text \<open>A page of the lowest level is replaced: the other levels keep their content.\<close>

lemma bt_inv_page:
  assumes t: "bt_inv t Ls E" and L: "Ls ! 0 = L1 @ (l, a) # L2" and p0: "bt_heap t a = Some p0" and p: "pg_in 0 l L2 n p"
  shows "bt_lv (bt_put a p t) Ls \<and> lv_agree (bt_heap (bt_put a p t)) Ls 0 \<and> bt_pages (bt_put a p t) = bt_pages t \<and>
    lv_cont (bt_heap (bt_put a p t)) (Ls ! 0) = lv_cont (bt_heap t) L1 @ pg_cont l p @ lv_cont (bt_heap t) L2"
proof -
  have bl: "bt_lv t Ls" and ag: "lv_agree (bt_heap t) Ls 0" using t by (simp_all add: bt_inv_def)
  then have lv: "lvs (bt_heap t) Ls (bt_free t)" by (simp add: bt_lv_def)
  note i = bt_inv_len [OF t]
  have "lv_agree (bt_heap (bt_put a p t)) Ls 0"
    using ag lv_cont_other(1) [OF lv i L] by (simp add: lv_agree_def bt_put_def)
  moreover have "bt_lv (bt_put a p t) Ls" using bl lvs_page [OF lv i L p] by (simp add: bt_lv_def bt_put_def)
  moreover have "bt_pages (bt_put a p t) = bt_pages t" using p0 by (auto simp: bt_pages_def bt_put_def)
  ultimately show ?thesis using lv_cont_page [OF lvs_addrs(1) [OF lv i L], of "bt_heap t" p l] by (simp add: bt_put_def L)
qed

lemma bt_delete_present:
  assumes t: "bt_inv t Ls E" and k: "sint key \<in> fst ` set E"
  shows "\<exists>t'. bt_delete (Suc fuel) key t = Some t' \<and> bt_inv t' Ls (filter (\<lambda>x. fst x \<noteq> sint key) E) \<and> bt_pages t' = bt_pages t \<and>
    bt_height t' = bt_height t \<and> bt_free t' = bt_free t"
proof -
  obtain L1 l a L2 n p where T: "Ls ! 0 = L1 @ (l, a) # L2" "bt_to_leaf (bt_heap t) key (bt_root t) = Some a" "l \<le> sint key"
      "bt_heap t a = Some p" "pg_in 0 l L2 n p" "E = lv_cont (bt_heap t) L1 @ pg_entries n p @ lv_cont (bt_heap t) L2"
      "\<forall>x \<in> set (lv_cont (bt_heap t) L1). fst x < l" "\<forall>x \<in> set (lv_cont (bt_heap t) L2). sint key < fst x"
    using bt_leaf [OF t, of key] by blast
  have "sint key \<in> fst ` set (pg_entries n p)" using k T(3,7,8) by (force simp: T(6))
  then obtain p' where q: "pg_remove_key key p = (True, p')" "pg_in 0 l L2 (n - 1) p'"
      "pg_cont l p' = filter (\<lambda>x. fst x \<noteq> sint key) (pg_cont l p)"
    using pg_remove_in [OF T(5)] by blast
  obtain v where v: "map_of E (sint key) = Some v" using k by (metis map_of_eq_None_iff option.exhaust)
  have run: "bt_delete (Suc fuel) key t = Some (bt_put a p' t)"
    using bt_chase_ok [OF t T(2,4)] v by (simp add: T(2,4) pg_remove_def q(1))
  note b = bt_inv_page [OF t T(1,4) q(2)]
  have ok: "pg_ok n p" using T(5) unfolding pg_in_def by blast
  have "pg_cont l p = pg_entries n p" using pg_in_leaf [OF T(5)] by (simp add: pg_cont_ok [OF ok])
  moreover have "filter (\<lambda>x. fst x \<noteq> sint key) (lv_cont (bt_heap t) L1) = lv_cont (bt_heap t) L1"
    "filter (\<lambda>x. fst x \<noteq> sint key) (lv_cont (bt_heap t) L2) = lv_cont (bt_heap t) L2"
    using T(3,7,8) by (force simp: filter_id_conv)+
  ultimately have E': "lv_cont (bt_heap (bt_put a p' t)) (Ls ! 0) = filter (\<lambda>x. fst x \<noteq> sint key) E"
    using b q(3) by (simp add: T(6))
  have "kv_sorted (filter (\<lambda>x. fst x \<noteq> sint key) E)" using t by (simp add: bt_inv_def sorted_wrt_map sorted_wrt_filter)
  moreover have "snd ` set (filter (\<lambda>x. fst x \<noteq> sint key) E) \<inter> bt_pages t = {}" using t by (auto simp: bt_inv_def)
  ultimately have "bt_inv (bt_put a p' t) Ls (filter (\<lambda>x. fst x \<noteq> sint key) E)"
    unfolding bt_inv_def using b E' by metis
  moreover have "bt_height (bt_put a p' t) = bt_height t" "bt_free (bt_put a p' t) = bt_free t" by (simp_all add: bt_put_def)
  ultimately show ?thesis using run b by blast
qed

text \<open>
  A key that is not there: in the last leaf the search falls off the list of leaves and the call ends; in any other
  leaf the removal fails and the call starts again, for ever.
\<close>

lemma bt_delete_absent_last:
  assumes t: "bt_inv t Ls E" and k: "sint key \<notin> fst ` set E"
    and a: "bt_to_leaf (bt_heap t) key (bt_root t) = Some a" "bt_heap t a = Some p" "pg_sibling p = None"
  shows "bt_delete (Suc fuel) key t = Some t"
  using bt_chase_ok [OF t a(1,2)] k a by (simp add: map_of_eq_None_iff)

lemma bt_delete_absent_loop:
  assumes t: "bt_inv t Ls E" and k: "sint key \<notin> fst ` set E"
    and a: "bt_to_leaf (bt_heap t) key (bt_root t) = Some a" "bt_heap t a = Some p" "pg_sibling p \<noteq> None"
  shows "bt_delete fuel key t = None"
  using t a
proof (induction fuel arbitrary: t p)
  case (Suc fuel)
  obtain L1 l L2 n where T: "Ls ! 0 = L1 @ (l, a) # L2" "pg_in 0 l L2 n p"
      "E = lv_cont (bt_heap t) L1 @ pg_entries n p @ lv_cont (bt_heap t) L2"
    using bt_leaf [OF Suc.prems(1), of key] Suc.prems(2,3) by auto
  have ok: "pg_ok n p" using T(2) unfolding pg_in_def by blast
  have "sint key \<notin> skey ` set (pg_live n p)" using k unfolding T(3) pg_entries_def set_append set_map image_Un image_image by simp
  then obtain s where s: "pg_remove_key key p = (False, p\<lparr>pg_switch := s\<rparr>)" using pg_remove_key_absent [OF ok] by blast
  let ?p = "p\<lparr>pg_switch := s\<rparr>"
  have p': "pg_in 0 l L2 n ?p" using T(2) by (simp add: pg_in_def)
  note b = bt_inv_page [OF Suc.prems(1) T(1) Suc.prems(3) p']
  have "pg_cont l ?p = pg_entries n p"
    using pg_in_leaf [OF T(2)] pg_cont_ok [of n ?p] ok by (simp add: pg_entries_def)
  then have inv: "bt_inv (bt_put a ?p t) Ls E" using b Suc.prems(1) by (simp add: bt_inv_def T(3))
  have "bt_to_leaf (bt_heap (bt_put a ?p t)) key (bt_root (bt_put a ?p t)) = Some a"
    using bt_leaf_of_root [OF inv] bt_leaf_of_root [OF Suc.prems(1)] Suc.prems(2) by simp
  then have "bt_delete fuel key (bt_put a ?p t) = None"
    by (rule Suc.IH [OF inv, of ?p]) (use Suc.prems(4) in \<open>simp_all add: bt_put_def\<close>)
  moreover have "map_of E (sint key) = None" using k by (simp add: map_of_eq_None_iff)
  ultimately show ?case
    using bt_chase_ok [OF Suc.prems(1-3)] Suc.prems(2-4) by (simp add: pg_remove_def s)
qed simp

section \<open>The last key not above, and the scan\<close>

lemma bt_seekLE_ok:
  assumes t: "bt_inv t Ls E"
  shows "\<exists>r. bt_seekLE key t = Some r \<and>
    (r = None \<or> (\<exists>x \<in> set E. fst x \<le> sint key) \<and> r = Some (snd (lv_find (sint key) E)))"
proof -
  obtain L1 l a L2 n p where T: "Ls ! 0 = L1 @ (l, a) # L2" "bt_to_leaf (bt_heap t) key (bt_root t) = Some a" "l \<le> sint key"
      "bt_heap t a = Some p" "pg_in 0 l L2 n p" "E = lv_cont (bt_heap t) L1 @ pg_entries n p @ lv_cont (bt_heap t) L2"
      "\<forall>x \<in> set (lv_cont (bt_heap t) L2). sint key < fst x" "\<not> pg_to_sibling (bt_heap t) key p"
    using bt_leaf [OF t, of key] by blast
  have ok: "pg_ok n p" using T(5) unfolding pg_in_def by blast
  have run: "bt_seekLE key t = Some (pg_child key n p)"
    using pg_seekLE_leaf [OF ok pg_in_leaf [OF T(5)] T(8)] by (simp add: bt_seekLE_def T(2,4))
  show ?thesis
  proof (cases "\<exists>x \<in> set (pg_entries n p). fst x \<le> sint key")
    case False
    then have "filter (\<lambda>e. skey e \<le> sint key) (pg_live n p) = []" by (auto simp: pg_entries_def filter_empty_conv)
    then have "pg_child key n p = None" using pg_in_leaf [OF T(5)] by (simp add: pg_child_def)
    then show ?thesis using run by simp
  next
    case True
    have "lv_find (sint key) E = lv_find (sint key) (pg_entries n p)" unfolding T(6) by (rule lv_find_append [OF T(7) True])
    moreover have "pg_child key n p = Some (snd (lv_find (sint key) (pg_entries n p)))"
    proof -
      let ?F = "filter (\<lambda>e. skey e \<le> sint key) (pg_live n p)"
      have "?F \<noteq> []" using True by (auto simp: pg_entries_def filter_empty_conv)
      then have "last ?F \<in> set ?F" by (rule last_in_set)
      moreover have "None \<notin> be_ptr ` set (pg_live n p)" using ok unfolding pg_ok_def by blast
      ultimately have "be_ptr (last ?F) \<noteq> None" by (metis filter_is_subset image_eqI subsetD)
      then show ?thesis
        using \<open>?F \<noteq> []\<close> by (auto simp: pg_child_def lv_find_def pg_entries_def filter_map o_def last_map)
    qed
    moreover have "\<exists>x \<in> set E. fst x \<le> sint key" using True by (auto simp: T(6))
    ultimately show ?thesis using run by metis
  qed
qed

lemma bt_leftmost_ok:
  assumes t: "bt_lv t Ls" and ag: "lv_agree (bt_heap t) Ls 0"
  shows "i < length Ls \<Longrightarrow> bt_leftmost_leaf (bt_heap t) (snd (hd (Ls ! i))) = Some (snd (hd (Ls ! 0)))"
proof (induction i)
  case 0
  obtain l a L where L: "Ls ! 0 = (l, a) # L" using t 0 by (cases "Ls ! 0") (auto simp: bt_lv_def lvs_def)
  obtain n p where "bt_heap t a = Some p" "pg_in 0 l L n p" using bt_lv_ok [OF t 0] by (auto simp: L)
  then show ?case using pg_in_leaf by (subst bt_leftmost_leaf.simps) (fastforce simp: L)
next
  case (Suc i)
  obtain l a L where L: "Ls ! Suc i = (l, a) # L" using t Suc.prems by (cases "Ls ! Suc i") (auto simp: bt_lv_def lvs_def)
  obtain n p where p: "bt_heap t a = Some p" "pg_in (Suc i) l L n p" using bt_lv_ok [OF t Suc.prems] by (auto simp: L)
  obtain c where c: "pg_leftmost p = Some c" using pg_in_inner [OF p(2)] by blast
  have "Ls ! i = lv_cont (bt_heap t) (Ls ! Suc i)" using ag Suc.prems by (simp add: lv_agree_def)
  also have "\<dots> = (l, c) # pg_entries (pg_count p) p @ lv_cont (bt_heap t) L" using p(1) c by (simp add: L pg_cont_def)
  finally have "Ls ! i = (l, c) # pg_entries (pg_count p) p @ lv_cont (bt_heap t) L" .
  then have "snd (hd (Ls ! i)) = c" by simp
  then show ?case using Suc p(1) c by (subst bt_leftmost_leaf.simps) (simp add: L)
qed

lemma bt_scan_leaves_ok:
  "lv_ok H 0 ((l, a) # L) \<Longrightarrow> \<exists>xs. bt_scan_leaves H a = Some xs \<and> map (\<lambda>(k, v). (sint k, v)) xs = lv_cont H ((l, a) # L)"
proof (induction L arbitrary: l a)
  case Nil
  then obtain n p where p: "H a = Some p" "pg_in 0 l [] n p" by auto
  then have ok: "pg_ok n p" "pg_sibling p = None" by (simp_all add: pg_in_def)
  then show ?case
    using p pg_entries_from_0 [OF ok(1)] pg_in_leaf [OF p(2)]
    by (subst bt_scan_leaves.simps) (simp add: pg_cont_ok)
next
  case (Cons x L)
  obtain u b where x: "x = (u, b)" by fastforce
  obtain n p where p: "H a = Some p" "pg_in 0 l (x # L) n p" using Cons.prems by auto
  then have ok: "pg_ok n p" "pg_sibling p = Some b" by (simp_all add: pg_in_def x)
  have "lv_ok H 0 ((u, b) # L)" using Cons.prems by (simp add: x)
  then obtain xs where xs: "bt_scan_leaves H b = Some xs" "map (\<lambda>(k, v). (sint k, v)) xs = lv_cont H ((u, b) # L)"
    using Cons.IH by blast
  then show ?case
    using p(1) ok(2) pg_entries_from_0 [OF ok(1)] pg_in_leaf [OF p(2)]
    by (subst bt_scan_leaves.simps) (simp add: pg_cont_ok [OF ok(1)] x)
qed

lemma bt_scan_ok:
  assumes t: "bt_inv t Ls E"
  shows "\<exists>xs. bt_scan_all_record t = Some xs \<and> map (\<lambda>(k, v). (sint k, v)) xs = E"
proof -
  have bl: "bt_lv t Ls" and ag: "lv_agree (bt_heap t) Ls 0" and E: "lv_cont (bt_heap t) (Ls ! 0) = E"
    using t by (simp_all add: bt_inv_def)
  note i = bt_inv_len [OF t]
  obtain l a L where L: "Ls ! 0 = (l, a) # L" using bl i by (cases "Ls ! 0") (auto simp: bt_lv_def lvs_def)
  have "Ls ! (length Ls - 1) = [(bt_low, bt_root t)]" using bl by (metis bt_lv_def last_conv_nth)
  then have "bt_leftmost_leaf (bt_heap t) (bt_root t) = Some a"
    using bt_leftmost_ok [OF bl ag, of "length Ls - 1"] i by (simp add: L)
  moreover obtain xs where "bt_scan_leaves (bt_heap t) a = Some xs" "map (\<lambda>(k, v). (sint k, v)) xs = E"
    using bt_scan_leaves_ok [of "bt_heap t" l a L] bt_lv_ok [OF bl i] E by (auto simp: L)
  ultimately show ?thesis by (simp add: bt_scan_all_record_def)
qed

section \<open>Reachable states\<close>

text \<open>
  What the calls can build. The fuel is enough for a split on every level, and the allocator has a page for each;
  the new pointer is neither a page nor already stored, as two allocations differ.
\<close>

inductive bt_reach :: "btree \<Rightarrow> (int \<rightharpoonup> nat) \<Rightarrow> bool" where
  reach_new: "distinct (root # free) \<Longrightarrow> bt_reach (bt_new root free) Map.empty"
| reach_insert: "bt_reach t M \<Longrightarrow> M (sint key) = None \<Longrightarrow> v \<notin> ran M \<Longrightarrow> v \<notin> bt_pages t \<Longrightarrow>
    2 * bt_height t < fuel \<Longrightarrow> bt_height t < length (bt_free t) \<Longrightarrow> bt_insert fuel key v t = Some t' \<Longrightarrow>
    bt_reach t' (M(sint key \<mapsto> v))"
| reach_delete: "bt_reach t M \<Longrightarrow> bt_delete fuel key t = Some t' \<Longrightarrow> bt_reach t' (M(sint key := None))"

lemma kv_ins_map_of:
  "map_of (kv_ins k v E) = (map_of E)(k \<mapsto> v)"
proof
  fix x
  have a: "map_of (filter (\<lambda>y. fst y < k) E) x = (if x < k then map_of E x else None)"
    "map_of (filter (\<lambda>y. k < fst y) E) x = (if k < x then map_of E x else None)"
    by (induction E) auto
  show "map_of (kv_ins k v E) x = ((map_of E)(k \<mapsto> v)) x"
    using a by (cases x k rule: linorder_cases) (simp_all add: kv_ins_def map_add_def split: option.splits)
qed

lemma filter_map_of: "map_of (filter (\<lambda>x. fst x \<noteq> k) E) = (map_of E)(k := None)"
  by (induction E) (auto simp: fun_eq_iff)

lemma ran_map_of_sub: "distinct (map fst E) \<Longrightarrow> ran (map_of E) = snd ` set E"
  by (simp add: ran_distinct)

lemma bt_reach_inv: "bt_reach t M \<Longrightarrow> \<exists>Ls E. bt_inv t Ls E \<and> map_of E = M"
proof (induction rule: bt_reach.induct)
  case (reach_new root free)
  then show ?case using bt_inv_new by (metis map_of.simps(1))
next
  case (reach_insert t M key v fuel t')
  then obtain Ls E where E: "bt_inv t Ls E" "map_of E = M" by blast
  have d: "distinct (map fst E)" using E(1) by (simp add: bt_inv_def kv_sorted_distinct)
  have k: "sint key \<notin> fst ` set E" using reach_insert.hyps(2) E(2) by (metis map_of_eq_None_iff)
  have v: "v \<notin> snd ` set E" using reach_insert.hyps(3) E(2) ran_map_of_sub [OF d] by simp
  obtain t1 Ls' where "bt_insert fuel key v t = Some t1" "bt_inv t1 Ls' (kv_ins (sint key) v E)"
    using bt_insert_ok [OF E(1) k v reach_insert.hyps(4,5,6)] by blast
  then have "bt_inv t' Ls' (kv_ins (sint key) v E)" using reach_insert.hyps(7) by simp
  then show ?case using kv_ins_map_of [of "sint key" v E] E(2) by blast
next
  case (reach_delete t M fuel key t')
  then obtain Ls E where E: "bt_inv t Ls E" "map_of E = M" by blast
  obtain f where f: "fuel = Suc f" using reach_delete.hyps(2) by (cases fuel) auto
  show ?case
  proof (cases "sint key \<in> fst ` set E")
    case True
    then show ?thesis using bt_delete_present [OF E(1) True, of f] reach_delete.hyps(2) f E(2) filter_map_of by (metis option.inject)
  next
    case False
    then have M: "M(sint key := None) = M" using E(2) by (metis fun_upd_triv map_of_eq_None_iff)
    obtain a p where a: "bt_to_leaf (bt_heap t) key (bt_root t) = Some a" "bt_heap t a = Some p" using bt_leaf [OF E(1), of key] by blast
    have "pg_sibling p = None" using bt_delete_absent_loop [OF E(1) False a] reach_delete.hyps(2) by (metis option.distinct(1))
    then have "t' = t" using bt_delete_absent_last [OF E(1) False a, of f] reach_delete.hyps(2) f by simp
    then show ?thesis using E M by auto
  qed
qed

lemma bt_reach_insert_step:
  assumes M: "M (sint key) = None" and r: "bt_reach t M" and v: "v \<notin> ran M" "v \<notin> bt_pages t" and f: "bt_height t < length (bt_free t)"
  shows "\<exists>t'. bt_insert (2 * bt_height t + 1) key v t = Some t' \<and> bt_reach t' (M(sint key \<mapsto> v)) \<and> bt_pages t' \<subseteq> bt_pages t"
proof -
  obtain Ls E where E: "bt_inv t Ls E" "map_of E = M" using bt_reach_inv [OF r] by blast
  have d: "distinct (map fst E)" using E(1) by (simp add: bt_inv_def kv_sorted_distinct)
  have k: "sint key \<notin> fst ` set E" using M E(2) by (metis map_of_eq_None_iff)
  have v': "v \<notin> snd ` set E" using v(1) E(2) ran_map_of_sub [OF d] by simp
  obtain t' where "bt_insert (2 * bt_height t + 1) key v t = Some t'" "bt_pages t' \<subseteq> bt_pages t"
    using bt_insert_ok [OF E(1) k v' v(2) less_add_one f] by blast
  then show ?thesis using reach_insert [OF r M v less_add_one f] by blast
qed

lemma bt_reach_delete_step:
  assumes M: "M (sint key) \<noteq> None" and r: "bt_reach t M"
  shows "\<exists>t'. bt_delete 1 key t = Some t' \<and> bt_reach t' (M(sint key := None)) \<and> bt_pages t' = bt_pages t"
proof -
  obtain Ls E where E: "bt_inv t Ls E" "map_of E = M" using bt_reach_inv [OF r] by blast
  have k: "sint key \<in> fst ` set E" using M E(2) by (metis map_of_eq_None_iff)
  obtain t' where "bt_delete 1 key t = Some t'" "bt_pages t' = bt_pages t" using bt_delete_present [OF E(1) k, of 0] by auto
  then show ?thesis using reach_delete [OF r] by blast
qed

section \<open>A sample\<close>

text \<open>A tree with the page 0 as its root and four more pages to allocate, after two insertions.\<close>

definition bt_sample :: btree where
  "bt_sample = the (bt_insert 3 (- 7) 101 (the (bt_insert 3 5 100 (bt_new 0 [1, 2, 3, 4]))))"

definition bt_sample_map :: "int \<rightharpoonup> nat" where
  "bt_sample_map = [5 \<mapsto> 100, - 7 \<mapsto> 101]"

lemma bt_sample_reach: "bt_reach bt_sample bt_sample_map \<and> bt_pages bt_sample \<subseteq> {0, 1, 2, 3, 4}"
proof -
  let ?t0 = "bt_new 0 [1, 2, 3, 4]"
  have t0: "bt_reach ?t0 Map.empty" by (rule reach_new) simp
  have p0: "bt_pages ?t0 = {0, 1, 2, 3, 4}" "bt_height ?t0 = 1" "length (bt_free ?t0) = 4" by (auto simp: bt_pages_def bt_new_def)
  have n3: "2 * 1 + 1 = (3 :: nat)" by simp
  have k5: "sint (5 :: u64) = 5" by code_simp
  have k7: "sint (- 7 :: u64) = - 7" by code_simp
  have a: "Map.empty (5 :: int) = (None :: nat option)" "100 \<notin> ran (Map.empty :: int \<rightharpoonup> nat)" "100 \<notin> {0, 1, 2, 3, 4 :: nat}"
    "(1 :: nat) < 4" by simp_all
  obtain t1 where t1: "bt_insert 3 5 100 ?t0 = Some t1" "bt_reach t1 [5 \<mapsto> 100]" "bt_pages t1 \<subseteq> {0, 1, 2, 3, 4}"
    using bt_reach_insert_step [OF _ t0, where key = 5 and v = 100, unfolded p0 n3 k5, OF a] by blast
  have "map_option (\<lambda>t. (bt_height t, length (bt_free t))) (bt_insert 3 5 100 ?t0) = Some (1, 4)" by code_simp
  then have h1: "bt_height t1 = 1" "length (bt_free t1) = 4" unfolding t1(1) by simp_all
  have b: "[5 \<mapsto> 100] (- 7 :: int) = (None :: nat option)" "101 \<notin> ran [5 :: int \<mapsto> 100 :: nat]" "101 \<notin> bt_pages t1" "(1 :: nat) < 4"
    using t1(3) by auto
  obtain t2 where t2: "bt_insert 3 (- 7) 101 t1 = Some t2" "bt_reach t2 [5 \<mapsto> 100, - 7 \<mapsto> 101]" "bt_pages t2 \<subseteq> bt_pages t1"
    using bt_reach_insert_step [OF _ t1(2), where key = "- 7" and v = 101, unfolded h1 n3 k7, OF b] by blast
  have "bt_sample = t2" by (simp only: bt_sample_def t1(1) t2(1) option.sel)
  then show ?thesis using t2(2) subset_trans [OF t2(3) t1(3)] by (simp only: bt_sample_map_def)
qed

section \<open>Properties\<close>

text \<open>
  C2: in every state the calls can reach, however many splits and new roots it took, a search answers what a map
  with the same insertions and deletions has, and the scan of all records gives exactly the bindings of the map in
  ascending order of the signed keys.
\<close>

theorem btree_refines_map:
  assumes "bt_reach t M"
  shows "bt_search key t = Some (M (sint key)) \<and>
    (\<exists>xs. bt_scan_all_record t = Some xs \<and> sorted_wrt (<) (map (sint \<circ> fst) xs) \<and> map_of (map (\<lambda>(k, v). (sint k, v)) xs) = M)"
proof -
  obtain Ls E where E: "bt_inv t Ls E" "map_of E = M" using bt_reach_inv [OF assms] by blast
  obtain xs where xs: "bt_scan_all_record t = Some xs" "map (\<lambda>(k, v). (sint k, v)) xs = E" using bt_scan_ok [OF E(1)] by blast
  have "map (sint \<circ> fst) xs = map fst E" by (auto simp flip: xs(2))
  then have "sorted_wrt (<) (map (sint \<circ> fst) xs)" using E(1) by (simp add: bt_inv_def)
  then show ?thesis using bt_search_ok [OF E(1)] xs E(2) by auto
qed

theorem btree_refines_map_witness:
  "bt_search (- 7) bt_sample = Some (Some 101) \<and> bt_search 6 bt_sample = Some None"
proof -
  have "sint (- 7 :: u64) = - 7" "sint (6 :: u64) = 6" by (code_simp, code_simp)
  then show ?thesis
    using btree_refines_map [of bt_sample bt_sample_map "- 7"] btree_refines_map [of bt_sample bt_sample_map 6] bt_sample_reach
    by (simp add: bt_sample_map_def)
qed


text \<open>
  C10: with a page per level and one more, an insertion of a new key returns, whatever splits it causes, and so does the
  deletion of a stored key at its first attempt; both lead to a reachable state with the changed map.
\<close>

theorem btree_calls_return:
  assumes "bt_reach t M" and "v \<notin> ran M" and "v \<notin> bt_pages t" and "bt_height t < length (bt_free t)"
  shows "if M (sint key) = None
    then \<exists>t'. bt_insert (2 * bt_height t + 1) key v t = Some t' \<and> bt_reach t' (M(sint key \<mapsto> v)) \<and> bt_pages t' \<subseteq> bt_pages t
    else \<exists>t'. bt_delete 1 key t = Some t' \<and> bt_reach t' (M(sint key := None)) \<and> bt_pages t' = bt_pages t"
proof (cases "M (sint key) = None")
  case True
  show ?thesis unfolding if_P [OF True] by (rule bt_reach_insert_step [OF True assms])
next
  case False
  show ?thesis unfolding if_not_P [OF False] by (rule bt_reach_delete_step [OF False assms(1)])
qed

theorem btree_calls_return_witness:
  "(\<exists>t'. bt_insert (2 * bt_height bt_sample + 1) 9 102 bt_sample = Some t') \<and> (\<exists>t'. bt_delete 1 5 bt_sample = Some t')"
proof -
  have k: "sint (9 :: u64) = 9" "sint (5 :: u64) = 5" by (code_simp, code_simp)
  have h: "bt_height bt_sample < length (bt_free bt_sample)" by code_simp
  have r: "bt_reach bt_sample bt_sample_map" and v: "102 \<notin> ran bt_sample_map" "102 \<notin> bt_pages bt_sample"
    using bt_sample_reach by (auto simp: bt_sample_map_def ran_def)
  have m: "bt_sample_map 9 = None" "bt_sample_map 5 \<noteq> None" by (simp_all add: bt_sample_map_def)
  show ?thesis
    using btree_calls_return [OF r v h, where key = 9, unfolded k if_P [OF m(1)]]
      btree_calls_return [OF r v h, where key = 5, unfolded k if_not_P [OF m(2)]] by blast
qed

text \<open>
  C30: the deletion of a key that is not stored ends only if the leaf that would hold it is the last one; in every
  other leaf \<open>btree_delete\<close> calls itself for ever.
\<close>

theorem btree_delete_absent:
  assumes "bt_reach t M" and "M (sint key) = None"
  shows "\<exists>a p. bt_to_leaf (bt_heap t) key (bt_root t) = Some a \<and> bt_heap t a = Some p \<and>
    (if pg_sibling p = None then bt_delete (Suc fuel) key t = Some t else bt_delete fuel key t = None)"
proof -
  obtain Ls E where E: "bt_inv t Ls E" "map_of E = M" using bt_reach_inv [OF assms(1)] by blast
  have k: "sint key \<notin> fst ` set E" using assms(2) E(2) by (metis map_of_eq_None_iff)
  obtain a p where a: "bt_to_leaf (bt_heap t) key (bt_root t) = Some a" "bt_heap t a = Some p" using bt_leaf [OF E(1), of key] by blast
  show ?thesis
    using a bt_delete_absent_last [OF E(1) k a, of fuel] bt_delete_absent_loop [OF E(1) k a, of fuel] by (cases "pg_sibling p") auto
qed

theorem btree_delete_absent_witness: "bt_delete 1 6 bt_sample = Some bt_sample"
proof -
  have "sint (6 :: u64) = 6" by code_simp
  then obtain a p where a: "bt_to_leaf (bt_heap bt_sample) 6 (bt_root bt_sample) = Some a" "bt_heap bt_sample a = Some p"
      "if pg_sibling p = None then bt_delete (Suc 0) 6 bt_sample = Some bt_sample else bt_delete 0 6 bt_sample = None"
    using btree_delete_absent [of bt_sample bt_sample_map 6 0] bt_sample_reach by (auto simp: bt_sample_map_def)
  have "Option.bind (bt_to_leaf (bt_heap bt_sample) 6 (bt_root bt_sample)) (\<lambda>a. map_option pg_sibling (bt_heap bt_sample a)) = Some None"
    by code_simp
  then have "pg_sibling p = None" using a(1,2) by simp
  then show ?thesis using a(3) by simp
qed


text \<open>
  C11: \<open>btree_seekLE\<close> answers the pointer of the greatest stored key not above the given one, or null; null also
  when the leaf that covers the key lost all its entries up to the key.
\<close>

theorem btree_seekLE_sound:
  assumes "bt_reach t M"
  shows "\<exists>r. bt_seekLE key t = Some r \<and>
    (\<forall>v. r = Some v \<longrightarrow> (\<exists>k \<le> sint key. M k = Some v \<and> (\<forall>k'. k < k' \<and> k' \<le> sint key \<longrightarrow> M k' = None)))"
proof -
  obtain Ls E where E: "bt_inv t Ls E" "map_of E = M" using bt_reach_inv [OF assms(1)] by blast
  have s: "kv_sorted E" using E(1) by (simp add: bt_inv_def)
  obtain r where r: "bt_seekLE key t = Some r"
      "r = None \<or> (\<exists>x \<in> set E. fst x \<le> sint key) \<and> r = Some (snd (lv_find (sint key) E))"
    using bt_seekLE_ok [OF E(1)] by blast
  have "\<exists>k \<le> sint key. M k = Some v \<and> (\<forall>k'. k < k' \<and> k' \<le> sint key \<longrightarrow> M k' = None)" if v: "r = Some v" for v
  proof -
    have ne: "\<exists>x \<in> set E. fst x \<le> sint key" and v': "v = snd (lv_find (sint key) E)" using r(2) v by auto
    obtain E1 E2 where E12: "E = E1 @ lv_find (sint key) E # E2" "fst (lv_find (sint key) E) \<le> sint key" "\<forall>x \<in> set E2. sint key < fst x"
      using lv_find_split [OF s ne] by blast
    obtain k where k: "lv_find (sint key) E = (k, v)" using v' by (metis prod.collapse)
    have mem: "(k, v) \<in> set E" using E12(1) by (metis k in_set_conv_decomp)
    have "M k' = None" if "k < k'" "k' \<le> sint key" for k'
    proof -
      have s': "kv_sorted (E1 @ (k, v) # E2)" using s E12(1) by (simp add: k)
      have "k' \<notin> fst ` set (E1 @ (k, v) # E2)" using s' that E12(3) by (auto simp: sorted_wrt_append)
      then show ?thesis using E(2) E12(1) by (metis k map_of_eq_None_iff)
    qed
    then show ?thesis using E12(2) k map_of_is_SomeI [OF kv_sorted_distinct [OF s] mem] E(2) by auto
  qed
  then show ?thesis using r(1) by blast
qed

theorem btree_seekLE_sound_witness: "bt_seekLE 3 bt_sample = Some (Some 101) \<and> bt_sample_map (- 7) = Some 101"
proof -
  have r: "bt_seekLE 3 bt_sample = Some (Some 101)" by code_simp
  then have "\<exists>k \<le> sint (3 :: u64). bt_sample_map k = Some 101"
    using btree_seekLE_sound [of bt_sample bt_sample_map 3] bt_sample_reach by auto
  then show ?thesis using r by (auto simp: bt_sample_map_def split: if_splits)
qed


end
