(* ===== verification/CCEH.thy ===== *)
theory CCEH
  imports ByteMem
begin

text \<open>
  The extendible hash table CCEH (\<open>CCEH/src/CCEH.h\<close>, \<open>CCEH.cpp\<close>, and the hash functions of \<open>hash.h\<close> it uses), as
  one thread runs it. \<open>inplace\<close> is the build flag \<open>INPLACE\<close>; \<open>CUCKOO\<close> is not set by any build and left out.
  The first hash function is the C++ library's \<open>_Hash_bytes\<close> and a parameter \<open>hf\<close> on keys; the second is \<open>jenkins\<close>.
  A directory entry is the address of a segment; \<open>None\<close> is a loop that waits for another thread, a null pointer or
  the end of the fuel. Fresh memory has arbitrary contents.
\<close>

section \<open>Hash functions\<close>

text \<open>\<open>char\<close> is signed.\<close>

definition jenkins_step :: "u64 \<Rightarrow> u8 \<Rightarrow> u64" where
  "jenkins_step hash c =
     (let h1 = hash + scast c;
          h2 = h1 + push_bit 10 h1
      in h2 XOR drop_bit 6 h2)"

definition jenkins :: "u8 list \<Rightarrow> u64" where
  "jenkins bs =
     (let h = foldl jenkins_step 0 bs;
          h1 = h + push_bit 3 h;
          h2 = h1 XOR drop_bit 11 h1
      in h2 + push_bit 15 h2)"

definition cc_s_hash :: "u64 \<Rightarrow> u64" where
  "cc_s_hash key = jenkins (le_bytes 8 key)"

section \<open>Segments\<close>

definition SENTINEL :: u64 where "SENTINEL = - 2"
definition INVALID :: u64 where "INVALID = - 1"
definition NONE :: u64 where "NONE = 0"

definition kSegmentBits :: nat where "kSegmentBits = 8"
definition kMask :: u64 where "kMask = push_bit kSegmentBits 1 - 1"
definition kSegmentSize :: nat where "kSegmentSize = 2 ^ kSegmentBits * 16 * 4"
definition kNumPairPerCacheLine :: nat where "kNumPairPerCacheLine = 4"
definition kNumCacheLine :: nat where "kNumCacheLine = 8"
definition kNumSlot :: nat where "kNumSlot = kSegmentSize div 16"

record cpair =
  cp_key :: u64
  cp_val :: u64

record segment =
  sg_bucket :: "cpair list"
  sg_sema :: int
  sg_depth :: nat

definition seg_initSegment :: "nat \<Rightarrow> cpair list \<Rightarrow> segment" where
  "seg_initSegment depth raw = \<lparr>sg_bucket = map (\<lambda>p. p\<lparr>cp_key := INVALID\<rparr>) raw, sg_sema = 0, sg_depth = depth\<rparr>"

text \<open>
  The semaphore, the same code in \<open>Segment\<close> and \<open>Directory\<close>: \<open>lock\<close> fails on a negative value; \<open>suspend\<close> fails too, and
  otherwise waits until the holders it found have unlocked, which nobody does when one thread runs alone.
\<close>

definition sem_lock :: "int \<Rightarrow> int option" where
  "sem_lock sema = (if sema > -1 then Some (sema + 1) else None)"

definition sem_unlock :: "int \<Rightarrow> int" where
  "sem_unlock sema = sema - 1"

definition sem_suspend :: "int \<Rightarrow> int option" where
  "sem_suspend sema = (if sema = 0 then Some (-1) else None)"

text \<open>The slots a hash value may use: 32 from its home on, around the end.\<close>

definition cc_home :: "u64 \<Rightarrow> nat" where
  "cc_home h = unat (h AND kMask) * kNumPairPerCacheLine"

definition cc_locs :: "nat \<Rightarrow> nat list" where
  "cc_locs idx = map (\<lambda>i. (idx + i) mod kNumSlot) [0..<kNumPairPerCacheLine * kNumCacheLine]"

definition seg_key :: "segment \<Rightarrow> nat \<Rightarrow> u64" where
  "seg_key s i = cp_key (sg_bucket s ! i)"

definition seg_put :: "nat \<Rightarrow> u64 \<Rightarrow> u64 \<Rightarrow> segment \<Rightarrow> segment" where
  "seg_put loc key val s = s\<lparr>sg_bucket := (sg_bucket s)[loc := \<lparr>cp_key = key, cp_val = val\<rparr>]\<rparr>"

definition seg_Insert4split :: "u64 \<Rightarrow> u64 \<Rightarrow> nat \<Rightarrow> segment \<Rightarrow> bool \<times> segment" where
  "seg_Insert4split key val loc s =
     (case find (\<lambda>slot. seg_key s slot = INVALID) (cc_locs loc) of
        None \<Rightarrow> (False, s) | Some slot \<Rightarrow> (True, seg_put slot key val s))"

text \<open>
  \<open>Split\<close>. In place, the pairs whose next bit is set are copied to the new segment, to their first or their second home;
  otherwise all pairs are copied to one of two new segments, to their first home only. Pairs that find no slot are
  dropped by the code; they are collected here.
\<close>

definition seg_place2 :: "(u64 \<Rightarrow> u64) \<Rightarrow> cpair \<Rightarrow> segment \<times> cpair list \<Rightarrow> segment \<times> cpair list" where
  "seg_place2 hf p = (\<lambda>(s, dropped).
     case seg_Insert4split (cp_key p) (cp_val p) (cc_home (hf (cp_key p))) s of
       (True, s1) \<Rightarrow> (s1, dropped)
     | (False, s1) \<Rightarrow>
         (case seg_Insert4split (cp_key p) (cp_val p) (cc_home (cc_s_hash (cp_key p))) s1 of
            (True, s2) \<Rightarrow> (s2, dropped) | (False, s2) \<Rightarrow> (s2, dropped @ [p])))"

definition seg_place1 :: "(u64 \<Rightarrow> u64) \<Rightarrow> cpair \<Rightarrow> segment \<times> cpair list \<Rightarrow> segment \<times> cpair list" where
  "seg_place1 hf p = (\<lambda>(s, dropped).
     case seg_Insert4split (cp_key p) (cp_val p) (cc_home (hf (cp_key p))) s of
       (True, s1) \<Rightarrow> (s1, dropped) | (False, s1) \<Rightarrow> (s1, dropped @ [p]))"

definition seg_Split_inplace :: "(u64 \<Rightarrow> u64) \<Rightarrow> cpair list \<Rightarrow> segment \<Rightarrow> segment \<times> cpair list" where
  "seg_Split_inplace hf raw s =
     fold (\<lambda>p acc. if bit (hf (cp_key p)) (64 - sg_depth s - 1) then seg_place2 hf p acc else acc)
       (sg_bucket s) (seg_initSegment (sg_depth s + 1) raw, [])"

definition seg_Split_copy :: "(u64 \<Rightarrow> u64) \<Rightarrow> cpair list \<Rightarrow> cpair list \<Rightarrow> segment \<Rightarrow> segment \<times> segment \<times> cpair list" where
  "seg_Split_copy hf raw0 raw1 s =
     fold (\<lambda>p (s0, s1, dropped).
         if bit (hf (cp_key p)) (64 - sg_depth s - 1)
         then (case seg_place1 hf p (s1, dropped) of (s1, dropped) \<Rightarrow> (s0, s1, dropped))
         else (case seg_place1 hf p (s0, dropped) of (s0, dropped) \<Rightarrow> (s0, s1, dropped)))
       (sg_bucket s) (seg_initSegment (sg_depth s + 1) raw0, seg_initSegment (sg_depth s + 1) raw1, [])"

section \<open>Directory and table\<close>

record directory =
  di_segment :: "nat list"
  di_sema :: int
  di_capacity :: nat
  di_depth :: nat

text \<open>\<open>cc_free\<close> are the addresses the allocator will return, with the contents of the memory.\<close>

record cceh =
  cc_crashed :: bool
  cc_dir :: directory
  cc_segs :: "nat \<rightharpoonup> segment"
  cc_free :: "(nat \<times> cpair list) list"

definition di_initDirectory :: "nat \<Rightarrow> nat list \<Rightarrow> directory" where
  "di_initDirectory depth segs = \<lparr>di_segment = segs, di_sema = 0, di_capacity = 2 ^ depth, di_depth = depth\<rparr>"

text \<open>\<open>initCCEH (pop, initCap)\<close>: the depth is \<open>log2\<close> of the capacity, truncated.\<close>

fun cc_log2 :: "nat \<Rightarrow> nat" where
  "cc_log2 n = (if n < 2 then 0 else Suc (cc_log2 (n div 2)))"

declare cc_log2.simps [simp del]

definition cc_initCCEH :: "nat \<Rightarrow> (nat \<times> cpair list) list \<Rightarrow> cceh option" where
  "cc_initCCEH initCap free =
     (let depth = cc_log2 initCap; new = take (2 ^ depth) free
      in if length new < 2 ^ depth then None
         else Some \<lparr>cc_crashed = True, cc_dir = di_initDirectory depth (map fst new),
                    cc_segs = map_of (map (\<lambda>(a, raw). (a, seg_initSegment depth raw)) new), cc_free = drop (2 ^ depth) free\<rparr>)"

definition cc_index :: "u64 \<Rightarrow> nat \<Rightarrow> nat" where
  "cc_index h depth = unat (drop_bit (64 - depth) h)"

text \<open>A slot may take a new pair when it is empty or its pair belongs to another segment by now.\<close>

definition seg_usable :: "(u64 \<Rightarrow> u64) \<Rightarrow> u64 \<Rightarrow> segment \<Rightarrow> nat \<Rightarrow> bool" where
  "seg_usable hf pattern s loc \<longleftrightarrow>
     (drop_bit (64 - sg_depth s) (hf (seg_key s loc)) \<noteq> pattern \<or> seg_key s loc = INVALID) \<and> seg_key s loc \<noteq> SENTINEL"

definition seg_find_slot :: "(u64 \<Rightarrow> u64) \<Rightarrow> u64 \<Rightarrow> segment \<Rightarrow> nat option" where
  "seg_find_slot hf key s =
     (let pattern = drop_bit (64 - sg_depth s) (hf key)
      in case find (seg_usable hf pattern s) (cc_locs (cc_home (hf key))) of
           Some loc \<Rightarrow> Some loc
         | None \<Rightarrow> find (seg_usable hf pattern s) (cc_locs (cc_home (cc_s_hash key))))"

text \<open>The directory with twice the entries, and the update of the entries of a divided segment.\<close>

definition di_double :: "nat \<Rightarrow> nat \<Rightarrow> nat \<Rightarrow> directory \<Rightarrow> directory" where
  "di_double x s0 s1 d =
     di_initDirectory (di_depth d + 1)
       (concat (map (\<lambda>i. if i = x then [s0, s1] else [di_segment d ! i, di_segment d ! i]) [0..<di_capacity d]))"

definition di_split :: "bool \<Rightarrow> nat \<Rightarrow> nat \<Rightarrow> nat \<Rightarrow> nat \<Rightarrow> directory \<Rightarrow> directory" where
  "di_split inplace x depth s0 s1 d =
     d\<lparr>di_segment :=
        (if di_depth d = depth + 1 then
           (if x mod 2 = 0
            then (let d1 = (di_segment d)[x + 1 := s1] in if inplace then d1 else d1[x := s0])
            else (let d1 = (di_segment d)[x := s1] in if inplace then d1 else d1[x - 1 := s0]))
         else
           (let stride = 2 ^ (di_depth d - depth); loc = x - x mod stride;
                d1 = fold (\<lambda>i d. d[loc + stride div 2 + i := s1]) [0..<stride div 2] (di_segment d)
            in if inplace then d1 else fold (\<lambda>i d. d[loc + i := s0]) [0..<stride div 2] d1))\<rparr>"

text \<open>One round of \<open>Insert\<close>: either the pair is stored, or the segment is divided and the insertion starts again.\<close>

definition cc_split_segment :: "bool \<Rightarrow> (u64 \<Rightarrow> u64) \<Rightarrow> nat \<Rightarrow> segment \<Rightarrow> cceh \<Rightarrow> (nat \<times> nat \<times> cceh \<times> cpair list) option" where
  "cc_split_segment inplace hf target s t =
     (if inplace then
        (case cc_free t of
           (b, raw) # free \<Rightarrow>
             (case seg_Split_inplace hf raw s of (s1, dropped) \<Rightarrow>
                Some (target, b, t\<lparr>cc_segs := (cc_segs t)(b \<mapsto> s1), cc_free := free\<rparr>, dropped))
         | [] \<Rightarrow> None)
      else
        (case cc_free t of
           (a, raw0) # (b, raw1) # free \<Rightarrow>
             (case seg_Split_copy hf raw0 raw1 s of (s0, s1, dropped) \<Rightarrow>
                Some (a, b, t\<lparr>cc_segs := (cc_segs t)(a \<mapsto> s0, b \<mapsto> s1), cc_free := free\<rparr>, dropped))
         | _ \<Rightarrow> None))"

definition cc_set_dir :: "bool \<Rightarrow> u64 \<Rightarrow> nat \<Rightarrow> nat \<Rightarrow> nat \<Rightarrow> cceh \<Rightarrow> cceh option" where
  "cc_set_dir inplace f_hash depth s0 s1 t =
     (let d = cc_dir t; x = cc_index f_hash (di_depth d)
      in if depth = di_depth d
         then Option.bind (sem_suspend (di_sema d)) (\<lambda>_. Some (t\<lparr>cc_dir := di_double x s0 s1 d\<rparr>))
         else Option.bind (sem_lock (di_sema d)) (\<lambda>v.
                Some (t\<lparr>cc_dir := (di_split inplace x depth s0 s1 (d\<lparr>di_sema := v\<rparr>))\<lparr>di_sema := sem_unlock v\<rparr>\<rparr>)))"

definition cc_divide :: "bool \<Rightarrow> (u64 \<Rightarrow> u64) \<Rightarrow> u64 \<Rightarrow> nat \<Rightarrow> segment \<Rightarrow> cceh \<Rightarrow> (cceh \<times> cpair list) option" where
  "cc_divide inplace hf f_hash target s t =
     Option.bind (sem_suspend (sg_sema s)) (\<lambda>v.
       let s1 = s\<lparr>sg_sema := v\<rparr>; t1 = t\<lparr>cc_segs := (cc_segs t)(target \<mapsto> s1)\<rparr>
       in Option.bind (cc_split_segment inplace hf target s1 t1) (\<lambda>(a, b, t2, dropped).
          map_option (\<lambda>t3.
              (if inplace then t3\<lparr>cc_segs := (cc_segs t3)(target \<mapsto> s1\<lparr>sg_depth := sg_depth s1 + 1, sg_sema := 0\<rparr>)\<rparr> else t3,
               dropped))
            (cc_set_dir inplace f_hash (sg_depth s1) a b t2)))"

fun cc_Insert :: "nat \<Rightarrow> bool \<Rightarrow> (u64 \<Rightarrow> u64) \<Rightarrow> u64 \<Rightarrow> u64 \<Rightarrow> cceh \<Rightarrow> (cceh \<times> cpair list) option" where
  "cc_Insert 0 inplace hf key val t = None"
| "cc_Insert (Suc fuel) inplace hf key val t =
     (let f_hash = hf key; target = di_segment (cc_dir t) ! cc_index f_hash (di_depth (cc_dir t))
      in Option.bind (cc_segs t target) (\<lambda>s0.
         Option.bind (sem_lock (sg_sema s0)) (\<lambda>v.
           let s = s0\<lparr>sg_sema := v\<rparr>
           in case seg_find_slot hf key s of
                Some loc \<Rightarrow>
                  Some (t\<lparr>cc_segs := (cc_segs t)(target \<mapsto> (seg_put loc key val s)\<lparr>sg_sema := sem_unlock v\<rparr>)\<rparr>, [])
              | None \<Rightarrow>
                  Option.bind (cc_divide inplace hf f_hash target (s\<lparr>sg_sema := sem_unlock v\<rparr>) t) (\<lambda>(t1, dropped).
                    map_option (\<lambda>(t2, more). (t2, dropped @ more)) (cc_Insert fuel inplace hf key val t1)))))"

declare cc_Insert.simps(2) [simp del]

section \<open>Search\<close>

definition seg_search :: "(u64 \<Rightarrow> u64) \<Rightarrow> u64 \<Rightarrow> segment \<Rightarrow> u64 option" where
  "seg_search hf key s =
     (case find (\<lambda>loc. seg_key s loc = key) (cc_locs (cc_home (hf key))) of
        Some loc \<Rightarrow> Some (cp_val (sg_bucket s ! loc))
      | None \<Rightarrow>
          (case find (\<lambda>loc. seg_key s loc = key) (cc_locs (cc_home (cc_s_hash key))) of
             Some loc \<Rightarrow> Some (cp_val (sg_bucket s ! loc)) | None \<Rightarrow> None))"

definition cc_Get :: "bool \<Rightarrow> (u64 \<Rightarrow> u64) \<Rightarrow> u64 \<Rightarrow> cceh \<Rightarrow> u64 option" where
  "cc_Get inplace hf key t =
     (if di_sema (cc_dir t) < 0 then None
      else Option.bind (cc_segs t (di_segment (cc_dir t) ! cc_index (hf key) (di_depth (cc_dir t)))) (\<lambda>s.
             if inplace \<and> sem_lock (sg_sema s) = None then None
             else Some (case seg_search hf key s of Some v \<Rightarrow> v | None \<Rightarrow> NONE)))"

definition cc_Delete :: "u64 \<Rightarrow> cceh \<Rightarrow> bool \<times> cceh" where
  "cc_Delete key t = (False, t)"

definition cc_FindAnyway :: "u64 \<Rightarrow> cceh \<Rightarrow> u64 option" where
  "cc_FindAnyway key t =
     map_option (case_option NONE id) (fold (\<lambda>i acc. Option.bind acc (\<lambda>r.
         if r \<noteq> None then Some r
         else map_option (\<lambda>s. map_option cp_val (find (\<lambda>p. cp_key p = key) (sg_bucket s))) (cc_segs t (di_segment (cc_dir t) ! i))))
       [0..<di_capacity (cc_dir t)] (Some None))"

section \<open>Recovery and capacity\<close>

text \<open>\<open>Recovery\<close>: within the group of a segment, entries of another depth are set back; the loop stops before the last group.
  A segment deeper than the directory has no group (\<open>pow (2, depth - depth_cur)\<close> overflows): \<open>None\<close>.\<close>

definition cc_fix_group :: "(nat \<rightharpoonup> segment) \<Rightarrow> nat \<Rightarrow> nat \<Rightarrow> nat \<Rightarrow> nat list \<Rightarrow> nat list option" where
  "cc_fix_group H i buddy depth_cur d =
     fold (\<lambda>j acc. Option.bind acc (\<lambda>d. Option.bind (H (d ! j)) (\<lambda>s.
         Some (if sg_depth s \<noteq> depth_cur then d[j := d ! i] else d))))
       (rev [i + 1..<buddy]) (Some d)"

function cc_recover_loop :: "(nat \<rightharpoonup> segment) \<Rightarrow> nat \<Rightarrow> nat \<Rightarrow> nat \<Rightarrow> nat list \<Rightarrow> nat list option" where
  "cc_recover_loop H capacity depth i d =
     (if i < capacity then
        Option.bind (H (d ! i)) (\<lambda>s. if depth < sg_depth s then None else
          let stride = 2 ^ (depth - sg_depth s); buddy = i + stride
          in if buddy = capacity then Some d
             else Option.bind (cc_fix_group H i buddy (sg_depth s) d) (cc_recover_loop H capacity depth (i + stride)))
      else Some d)"
  by pat_completeness auto
termination
  by (relation "measure (\<lambda>(H, capacity, depth, i, d). capacity - i)") (auto simp: diff_less_mono2)

declare cc_recover_loop.simps [simp del]

definition cc_Recovery :: "cceh \<Rightarrow> cceh option" where
  "cc_Recovery t =
     map_option (\<lambda>d. t\<lparr>cc_dir := (cc_dir t)\<lparr>di_segment := d\<rparr>\<rparr>)
       (cc_recover_loop (cc_segs t) (di_capacity (cc_dir t)) (di_depth (cc_dir t)) 0 (di_segment (cc_dir t)))"

text \<open>
  \<open>Utilization\<close> and \<open>Capacity\<close> step from segment to segment; the first counts the live pairs and the segments.
\<close>

function cc_usage :: "(u64 \<Rightarrow> u64) \<Rightarrow> (nat \<rightharpoonup> segment) \<Rightarrow> nat \<Rightarrow> nat \<Rightarrow> nat \<Rightarrow> nat list \<Rightarrow> (nat \<times> nat) option" where
  "cc_usage hf H capacity depth i d =
     (if i < capacity then
        Option.bind (H (d ! i)) (\<lambda>s. if depth < sg_depth s then None else
          let pattern = i div 2 ^ (depth - sg_depth s);
              live = length (filter (\<lambda>p. unat (drop_bit (64 - sg_depth s) (hf (cp_key p))) = pattern \<and> cp_key p \<noteq> INVALID) (sg_bucket s))
          in map_option (\<lambda>(sum, cnt). (sum + live, Suc cnt)) (cc_usage hf H capacity depth (i + 2 ^ (depth - sg_depth s)) d))
      else Some (0, 0))"
  by pat_completeness auto
termination
  by (relation "measure (\<lambda>(hf, H, capacity, depth, i, d). capacity - i)") (auto simp: diff_less_mono2)

declare cc_usage.simps [simp del]

text \<open>\<open>Utilization\<close> returns \<open>sum / (cnt * kNumSlot) * 100\<close> as a \<open>double\<close>; here the two counts.\<close>

definition cc_Utilization :: "(u64 \<Rightarrow> u64) \<Rightarrow> cceh \<Rightarrow> (nat \<times> nat) option" where
  "cc_Utilization hf t =
     map_option (\<lambda>(sum, cnt). (sum, cnt * kNumSlot))
       (cc_usage hf (cc_segs t) (di_capacity (cc_dir t)) (di_depth (cc_dir t)) 0 (di_segment (cc_dir t)))"

function cc_count :: "(nat \<rightharpoonup> segment) \<Rightarrow> nat \<Rightarrow> nat \<Rightarrow> nat \<Rightarrow> nat list \<Rightarrow> nat option" where
  "cc_count H capacity depth i d =
     (if i < capacity then
        Option.bind (H (d ! i)) (\<lambda>s. if depth < sg_depth s then None else map_option Suc (cc_count H capacity depth (i + 2 ^ (depth - sg_depth s)) d))
      else Some 0)"
  by pat_completeness auto
termination
  by (relation "measure (\<lambda>(H, capacity, depth, i, d). capacity - i)") (auto simp: diff_less_mono2)

declare cc_count.simps [simp del]

definition cc_Capacity :: "cceh \<Rightarrow> nat option" where
  "cc_Capacity t =
     map_option (\<lambda>cnt. cnt * kNumSlot)
       (cc_count (cc_segs t) (di_capacity (cc_dir t)) (di_depth (cc_dir t)) 0 (di_segment (cc_dir t)))"

end
