(* ===== verification/CCEHInv.thy ===== *)
theory CCEHInv
  imports CCEH
begin

text \<open>
  Correctness of CCEH for one thread: each hash value selects one segment, the segments divide the hash values by prefix,
  and the pairs of a segment lie in the slots of one of their two homes. With that \<open>Get\<close> answers the map of the
  insertions, up to the pairs that \<open>Split\<close> dropped.
\<close>

section \<open>Prefixes of hash values\<close>

definition cc_pre :: "u64 \<Rightarrow> nat \<Rightarrow> nat" where
  "cc_pre h n = unat (drop_bit (64 - n) h)"

lemma cc_pre_div: "n \<le> 64 \<Longrightarrow> cc_pre h n = unat h div 2 ^ (64 - n)"
  by (simp add: cc_pre_def unat_drop_bit_eq drop_bit_eq_div [where ?'a = nat])

lemma cc_pre_less: "n \<le> 64 \<Longrightarrow> cc_pre h n < 2 ^ n"
proof -
  assume n: "n \<le> 64"
  have "unat h < 2 ^ 64" using unsigned_less [of h] by simp
  also have "(2::nat) ^ 64 = 2 ^ n * 2 ^ (64 - n)" using n by (simp flip: power_add)
  finally show ?thesis using n by (simp add: cc_pre_div less_mult_imp_div_less)
qed

lemma cc_pre_shorter: "a \<le> n \<Longrightarrow> n \<le> 64 \<Longrightarrow> cc_pre h a = cc_pre h n div 2 ^ (n - a)"
  by (simp add: cc_pre_div flip: div_mult2_eq power_add)

lemma cc_pre_Suc: "n < 64 \<Longrightarrow> cc_pre h (Suc n) = 2 * cc_pre h n + of_bool (bit h (63 - n))"
proof -
  assume n: "n < 64"
  have 1: "cc_pre h (Suc n) div 2 = cc_pre h n"
    using n cc_pre_shorter [of n "Suc n" h] by simp
  have 2: "cc_pre h (Suc n) mod 2 = of_bool (bit h (63 - n))"
  proof -
    have "odd (cc_pre h (Suc n)) \<longleftrightarrow> bit (unat (drop_bit (63 - n) h)) 0"
      using n by (simp add: cc_pre_def bit_0 Suc_diff_Suc)
    also have "\<dots> \<longleftrightarrow> bit h (63 - n)"
      by (simp add: bit_unsigned_iff bit_drop_bit_eq)
    finally show ?thesis by (cases "bit h (63 - n)") (simp_all add: odd_iff_mod_2_eq_one even_iff_mod_2_eq_zero)
  qed
  show ?thesis using 1 2 div_mult_mod_eq [of "cc_pre h (Suc n)" 2] by simp
qed

lemma cc_pre_Suc_eq:
  "n < 64 \<Longrightarrow> cc_pre h (Suc n) = cc_pre h' (Suc n) \<longleftrightarrow> cc_pre h n = cc_pre h' n \<and> (bit h (63 - n) \<longleftrightarrow> bit h' (63 - n))"
  by (auto simp: cc_pre_Suc dest: arg_cong [of _ _ "\<lambda>x. x div 2"] arg_cong [of _ _ "\<lambda>x. x mod 2"])

lemma cc_pattern_eq [simp]: "drop_bit (64 - n) h = drop_bit (64 - n) h' \<longleftrightarrow> cc_pre h n = cc_pre h' n" for h h' :: u64
  by (simp add: cc_pre_def word_unat_eq_iff)

lemma cc_index_pre: "cc_index h n = cc_pre h n"
  by (simp add: cc_index_def cc_pre_def)

section \<open>Slots\<close>

lemma kNumSlot_pos [simp]: "0 < kNumSlot" "kNumSlot \<noteq> 0"
  by (simp_all add: kNumSlot_def kSegmentSize_def kSegmentBits_def)

lemma cc_locs_less: "i \<in> set (cc_locs idx) \<Longrightarrow> i < kNumSlot"
  by (auto simp: cc_locs_def)

definition cc_homes :: "(u64 \<Rightarrow> u64) \<Rightarrow> u64 \<Rightarrow> nat set" where
  "cc_homes hf k = set (cc_locs (cc_home (hf k))) \<union> set (cc_locs (cc_home (cc_s_hash k)))"

lemma cc_homes_less: "i \<in> cc_homes hf k \<Longrightarrow> i < kNumSlot"
  by (auto simp: cc_homes_def dest: cc_locs_less)

definition seg_ok :: "(u64 \<Rightarrow> u64) \<Rightarrow> segment \<Rightarrow> bool" where
  "seg_ok hf s \<longleftrightarrow> length (sg_bucket s) = kNumSlot
     \<and> (\<forall>i<kNumSlot. seg_key s i \<noteq> INVALID \<longrightarrow> i \<in> cc_homes hf (seg_key s i))"

definition seg_pairs :: "segment \<Rightarrow> (u64 \<times> u64) set" where
  "seg_pairs s = {(cp_key p, cp_val p) |p. p \<in> set (sg_bucket s) \<and> cp_key p \<noteq> INVALID}"

lemma seg_pairs_nth:
  "length (sg_bucket s) = kNumSlot \<Longrightarrow>
     (k, v) \<in> seg_pairs s \<longleftrightarrow> k \<noteq> INVALID \<and> (\<exists>i<kNumSlot. seg_key s i = k \<and> cp_val (sg_bucket s ! i) = v)"
  unfolding seg_pairs_def seg_key_def by (auto simp: in_set_conv_nth)

lemma seg_put_sema [simp]: "sg_depth (seg_put loc k v s) = sg_depth s" "sg_sema (seg_put loc k v s) = sg_sema s"
  by (simp_all add: seg_put_def)

lemma seg_key_put: "length (sg_bucket s) = kNumSlot \<Longrightarrow> loc < kNumSlot \<Longrightarrow>
  seg_key (seg_put loc k v s) i = (if i = loc then k else seg_key s i)"
  by (simp add: seg_key_def seg_put_def nth_list_update)

lemma seg_val_put: "length (sg_bucket s) = kNumSlot \<Longrightarrow> loc < kNumSlot \<Longrightarrow>
  cp_val (sg_bucket (seg_put loc k v s) ! i) = (if i = loc then v else cp_val (sg_bucket s ! i))"
  by (simp add: seg_put_def nth_list_update)

lemma seg_put_ok: "seg_ok hf s \<Longrightarrow> loc \<in> cc_homes hf k \<Longrightarrow> seg_ok hf (seg_put loc k v s)"
  using cc_homes_less [of loc hf k] by (auto simp: seg_ok_def seg_key_put) (simp add: seg_put_def)

lemma seg_pairs_put:
  assumes "length (sg_bucket s) = kNumSlot" "loc < kNumSlot" "k \<noteq> INVALID"
  shows "insert (k, v) (seg_pairs s - {(seg_key s loc, cp_val (sg_bucket s ! loc))}) \<subseteq> seg_pairs (seg_put loc k v s)"
    and "seg_pairs (seg_put loc k v s) \<subseteq> insert (k, v) (seg_pairs s)"
proof -
  have len: "length (sg_bucket (seg_put loc k v s)) = kNumSlot" using assms by (simp add: seg_put_def)
  show "seg_pairs (seg_put loc k v s) \<subseteq> insert (k, v) (seg_pairs s)"
    using assms len by (auto simp: seg_pairs_nth seg_key_put seg_val_put split: if_splits)
  show "insert (k, v) (seg_pairs s - {(seg_key s loc, cp_val (sg_bucket s ! loc))}) \<subseteq> seg_pairs (seg_put loc k v s)"
    using assms len by (auto simp: seg_pairs_nth seg_key_put seg_val_put split: if_splits)
qed

lemma seg_ok_update [simp]:
  "seg_ok hf (s\<lparr>sg_sema := v\<rparr>) = seg_ok hf s" "seg_ok hf (s\<lparr>sg_depth := n\<rparr>) = seg_ok hf s"
  "seg_pairs (s\<lparr>sg_sema := v\<rparr>) = seg_pairs s" "seg_pairs (s\<lparr>sg_depth := n\<rparr>) = seg_pairs s"
  by (simp_all add: seg_ok_def seg_pairs_def seg_key_def)

lemma seg_init_ok: "length raw = kNumSlot \<Longrightarrow> seg_ok hf (seg_initSegment n raw)"
  by (auto simp: seg_ok_def seg_initSegment_def seg_key_def)

lemma seg_init_pairs [simp]: "seg_pairs (seg_initSegment n raw) = {}" "sg_depth (seg_initSegment n raw) = n"
  "sg_sema (seg_initSegment n raw) = 0"
  by (auto simp: seg_pairs_def seg_initSegment_def)

text \<open>\<open>seg_search\<close> finds a pair of the segment under the key when there is one.\<close>

lemma seg_search_Some:
  assumes "seg_ok hf s" "seg_search hf k s = Some v" "k \<noteq> INVALID"
  shows "(k, v) \<in> seg_pairs s"
  using assms by (auto simp: seg_search_def seg_ok_def seg_pairs_nth find_Some_iff dest: nth_mem cc_locs_less split: option.splits)

lemma seg_search_None:
  assumes "seg_ok hf s" "seg_search hf k s = None"
  shows "(k, v) \<notin> seg_pairs s"
proof
  assume "(k, v) \<in> seg_pairs s"
  then obtain i where i: "i < kNumSlot" "seg_key s i = k" "k \<noteq> INVALID" using assms(1) by (auto simp: seg_ok_def seg_pairs_nth)
  hence "i \<in> cc_homes hf k" using assms(1) by (auto simp: seg_ok_def)
  with i assms(2) show False by (auto simp: seg_search_def cc_homes_def find_None_iff split: option.splits)
qed

section \<open>Split\<close>

definition pset :: "cpair list \<Rightarrow> (u64 \<times> u64) set" where
  "pset ps = {(cp_key p, cp_val p) |p. p \<in> set ps \<and> cp_key p \<noteq> INVALID}"

lemma seg_pairs_pset: "seg_pairs s = pset (sg_bucket s)"
  by (simp add: seg_pairs_def pset_def)

lemma pset_simps [simp]: "pset [] = {}" "pset (ps @ qs) = pset ps \<union> pset qs"
  by (auto simp: pset_def)

lemma seg_Insert4split_cases:
  assumes "seg_Insert4split k v loc s = (r, s')" "seg_ok hf s" "loc = cc_home (hf k) \<or> loc = cc_home (cc_s_hash k)"
  shows "seg_ok hf s'" "sg_depth s' = sg_depth s" "sg_sema s' = sg_sema s"
    and "seg_pairs s' = (if r then seg_pairs s \<union> pset [\<lparr>cp_key = k, cp_val = v\<rparr>] else seg_pairs s)"
proof -
  have len: "length (sg_bucket s) = kNumSlot" using assms(2) by (simp add: seg_ok_def)
  show "sg_depth s' = sg_depth s" "sg_sema s' = sg_sema s"
    using assms(1) by (auto simp: seg_Insert4split_def split: option.splits)
  have "seg_ok hf s' \<and> seg_pairs s' = (if r then seg_pairs s \<union> pset [\<lparr>cp_key = k, cp_val = v\<rparr>] else seg_pairs s)"
  proof (cases r)
    case False
    thus ?thesis using assms(1,2) by (auto simp: seg_Insert4split_def split: option.splits)
  next
    case True
    then obtain slot where slot: "slot \<in> set (cc_locs loc)" "seg_key s slot = INVALID" "s' = seg_put slot k v s"
      using assms(1) by (auto simp: seg_Insert4split_def find_Some_iff dest: nth_mem split: option.splits)
    have lt: "slot < kNumSlot" using slot(1) by (rule cc_locs_less)
    have home: "slot \<in> cc_homes hf k" using slot(1) assms(3) by (auto simp: cc_homes_def)
    have ok: "seg_ok hf s'" using seg_put_ok [OF assms(2) home] slot(3) by simp
    have old: "(INVALID, w) \<notin> seg_pairs s" for w by (auto simp: seg_pairs_def)
    show ?thesis
    proof (cases "k = INVALID")
      case False
      have "seg_pairs s' = insert (k, v) (seg_pairs s)"
        using seg_pairs_put [OF len lt False, of v] slot old by auto
      thus ?thesis using ok True False by (auto simp: pset_def)
    next
      case inv: True
      have l': "length (sg_bucket s') = kNumSlot" using ok by (simp add: seg_ok_def)
      have "seg_pairs s' = seg_pairs s"
        using slot(2) len lt l' inv unfolding slot(3) by (auto simp: seg_pairs_nth seg_key_put seg_val_put split: if_splits)
      thus ?thesis using ok True inv by (auto simp: pset_def)
    qed
  qed
  thus "seg_ok hf s'" "seg_pairs s' = (if r then seg_pairs s \<union> pset [\<lparr>cp_key = k, cp_val = v\<rparr>] else seg_pairs s)" by auto
qed

definition split_inv :: "(u64 \<Rightarrow> u64) \<Rightarrow> nat \<Rightarrow> (u64 \<times> u64) set \<Rightarrow> segment \<times> cpair list \<Rightarrow> bool" where
  "split_inv hf n Q = (\<lambda>(s, dr). seg_ok hf s \<and> sg_depth s = n \<and> sg_sema s = 0 \<and> seg_pairs s \<union> pset dr = Q)"

lemma split_inv_Insert4split:
  assumes "split_inv hf n Q (s, dr)" "seg_Insert4split (cp_key p) (cp_val p) loc s = (r, s')"
    "loc = cc_home (hf (cp_key p)) \<or> loc = cc_home (cc_s_hash (cp_key p))"
  shows "if r then split_inv hf n (Q \<union> pset [p]) (s', dr) else s' = s"
proof -
  have ok: "seg_ok hf s" using assms(1) by (simp add: split_inv_def)
  note c = seg_Insert4split_cases [OF assms(2) ok assms(3)]
  have f: "\<not> r \<Longrightarrow> s' = s" using assms(2) by (auto simp: seg_Insert4split_def split: option.splits)
  have p: "\<lparr>cp_key = cp_key p, cp_val = cp_val p\<rparr> = p" by simp
  show ?thesis using assms(1) c f unfolding p split_inv_def by auto
qed

lemma split_inv_drop: "split_inv hf n Q (s, dr) \<Longrightarrow> split_inv hf n (Q \<union> pset [p]) (s, dr @ [p])"
  by (auto simp: split_inv_def)

lemma seg_place1_inv: "split_inv hf n Q acc \<Longrightarrow> split_inv hf n (Q \<union> pset [p]) (seg_place1 hf p acc)"
proof -
  assume i: "split_inv hf n Q acc"
  obtain s dr where acc: "acc = (s, dr)" by (cases acc)
  obtain r1 s1 where 1: "seg_Insert4split (cp_key p) (cp_val p) (cc_home (hf (cp_key p))) s = (r1, s1)"
    by (cases "seg_Insert4split (cp_key p) (cp_val p) (cc_home (hf (cp_key p))) s")
  note a = split_inv_Insert4split [OF i [unfolded acc] 1]
  show ?thesis using a 1 split_inv_drop [OF i [unfolded acc], of p]
    by (cases r1) (simp_all add: seg_place1_def acc)
qed

lemma seg_place2_inv: "split_inv hf n Q acc \<Longrightarrow> split_inv hf n (Q \<union> pset [p]) (seg_place2 hf p acc)"
proof -
  assume i: "split_inv hf n Q acc"
  obtain s dr where acc: "acc = (s, dr)" by (cases acc)
  obtain r1 s1 where 1: "seg_Insert4split (cp_key p) (cp_val p) (cc_home (hf (cp_key p))) s = (r1, s1)"
    by (cases "seg_Insert4split (cp_key p) (cp_val p) (cc_home (hf (cp_key p))) s")
  obtain r2 s2 where 2: "seg_Insert4split (cp_key p) (cp_val p) (cc_home (cc_s_hash (cp_key p))) s1 = (r2, s2)"
    by (cases "seg_Insert4split (cp_key p) (cp_val p) (cc_home (cc_s_hash (cp_key p))) s1")
  note a = split_inv_Insert4split [OF i [unfolded acc] 1]
  show ?thesis
  proof (cases r1)
    case True
    thus ?thesis using a 1 by (simp add: seg_place2_def acc)
  next
    case False
    hence s1: "s1 = s" using a by simp
    note b = split_inv_Insert4split [OF i [unfolded acc] 2 [unfolded s1]]
    show ?thesis using False 1 2 s1 b split_inv_drop [OF i [unfolded acc], of p]
      by (cases r2) (simp_all add: seg_place2_def acc)
  qed
qed

lemma split_fold_inv:
  assumes "\<And>acc p Q. split_inv hf n Q acc \<Longrightarrow> split_inv hf n (Q \<union> pset [p]) (f p acc)" "split_inv hf n Q acc"
  shows "split_inv hf n (Q \<union> pset (filter P ps)) (fold (\<lambda>p acc. if P p then f p acc else acc) ps acc)"
  using assms(2)
proof (induction ps arbitrary: Q acc)
  case Nil thus ?case by simp
next
  case (Cons p ps)
  have p: "pset (p # filter P ps) = pset [p] \<union> pset (filter P ps)" by (auto simp: pset_def)
  show ?case
  proof (cases "P p")
    case True
    show ?thesis using Cons.IH [OF assms(1) [OF Cons.prems, of p]] True by (simp add: p Un_assoc)
  next
    case False thus ?thesis using Cons by simp
  qed
qed

definition seg_half :: "(u64 \<Rightarrow> u64) \<Rightarrow> bool \<Rightarrow> segment \<Rightarrow> (u64 \<times> u64) set" where
  "seg_half hf b s = {(k, v). (k, v) \<in> seg_pairs s \<and> (bit (hf k) (63 - sg_depth s) \<longleftrightarrow> b)}"

lemma seg_half_filter:
  "seg_half hf b s = pset (filter (\<lambda>p. bit (hf (cp_key p)) (64 - sg_depth s - 1) \<longleftrightarrow> b) (sg_bucket s))"
  unfolding seg_half_def seg_pairs_pset pset_def by auto

lemma split_inv_init: "length raw = kNumSlot \<Longrightarrow> split_inv hf n {} (seg_initSegment n raw, [])"
  by (simp add: split_inv_def seg_init_ok)

text \<open>In place: the new segment and the dropped pairs are the pairs of the segment whose next bit is set.\<close>

lemma seg_Split_inplace_inv:
  assumes "length raw = kNumSlot"
  shows "split_inv hf (Suc (sg_depth s)) (seg_half hf True s) (seg_Split_inplace hf raw s)"
  using split_fold_inv [where f = "seg_place2 hf", OF seg_place2_inv split_inv_init [OF assms],
      of "Suc (sg_depth s)" "\<lambda>p. bit (hf (cp_key p)) (64 - sg_depth s - 1)" "sg_bucket s"]
  by (simp add: seg_Split_inplace_def seg_half_filter)

text \<open>By copy: each new segment holds pairs of its half, and both with the dropped pairs are the whole.\<close>

definition copy_inv :: "(u64 \<Rightarrow> u64) \<Rightarrow> nat \<Rightarrow> (u64 \<times> u64) set \<Rightarrow> (u64 \<times> u64) set \<Rightarrow> segment \<times> segment \<times> cpair list \<Rightarrow> bool" where
  "copy_inv hf n Q0 Q1 = (\<lambda>(s0, s1, dr). seg_ok hf s0 \<and> seg_ok hf s1 \<and> sg_depth s0 = n \<and> sg_depth s1 = n
     \<and> sg_sema s0 = 0 \<and> sg_sema s1 = 0 \<and> seg_pairs s0 \<subseteq> Q0 \<and> seg_pairs s1 \<subseteq> Q1
     \<and> Q0 \<union> Q1 \<subseteq> seg_pairs s0 \<union> seg_pairs s1 \<union> pset dr \<and> pset dr \<subseteq> Q0 \<union> Q1)"

lemma seg_place1_cases:
  assumes "seg_ok hf s" "sg_sema s = 0" "seg_place1 hf p (s, dr) = (s', dr')"
  shows "seg_ok hf s' \<and> sg_depth s' = sg_depth s \<and> sg_sema s' = 0 \<and> seg_pairs s \<subseteq> seg_pairs s' \<and> seg_pairs s' \<subseteq> seg_pairs s \<union> pset [p]
    \<and> pset [p] \<subseteq> seg_pairs s' \<union> pset dr' \<and> pset dr \<subseteq> pset dr' \<and> pset dr' \<subseteq> pset dr \<union> pset [p]"
proof -
  obtain r s1 where 1: "seg_Insert4split (cp_key p) (cp_val p) (cc_home (hf (cp_key p))) s = (r, s1)"
    by (cases "seg_Insert4split (cp_key p) (cp_val p) (cc_home (hf (cp_key p))) s")
  have p: "\<lparr>cp_key = cp_key p, cp_val = cp_val p\<rparr> = p" by simp
  note c = seg_Insert4split_cases [OF 1 assms(1), unfolded p]
  have f: "\<not> r \<Longrightarrow> s1 = s" using 1 by (auto simp: seg_Insert4split_def split: option.splits)
  show ?thesis using assms c f by (cases r) (auto simp: seg_place1_def 1)
qed

lemma copy_fold_inv:
  "copy_inv hf n Q0 Q1 acc \<Longrightarrow>
   copy_inv hf n (Q0 \<union> pset (filter (\<lambda>p. \<not> P p) ps)) (Q1 \<union> pset (filter P ps))
     (fold (\<lambda>p (s0, s1, dropped).
       if P p then (case seg_place1 hf p (s1, dropped) of (s1, dropped) \<Rightarrow> (s0, s1, dropped))
       else (case seg_place1 hf p (s0, dropped) of (s0, dropped) \<Rightarrow> (s0, s1, dropped))) ps acc)"
proof (induction ps arbitrary: Q0 Q1 acc)
  case Nil thus ?case by simp
next
  case (Cons p ps)
  have p: "pset (p # qs) = pset [p] \<union> pset qs" for qs by (auto simp: pset_def)
  obtain s0 s1 dr where acc: "acc = (s0, s1, dr)" by (cases acc)
  have i: "copy_inv hf n Q0 Q1 (s0, s1, dr)" using Cons.prems acc by simp
  show ?case
  proof (cases "P p")
    case True
    obtain s' dr' where 1: "seg_place1 hf p (s1, dr) = (s', dr')" by (cases "seg_place1 hf p (s1, dr)")
    have "copy_inv hf n Q0 (Q1 \<union> pset [p]) (s0, s', dr')"
      using i seg_place1_cases [OF _ _ 1] unfolding copy_inv_def by (auto; blast)
    from Cons.IH [OF this] show ?thesis using True 1 by (simp add: acc p [of "filter P ps"] Un_assoc)
  next
    case False
    obtain s' dr' where 1: "seg_place1 hf p (s0, dr) = (s', dr')" by (cases "seg_place1 hf p (s0, dr)")
    have "copy_inv hf n (Q0 \<union> pset [p]) Q1 (s', s1, dr')"
      using i seg_place1_cases [OF _ _ 1] unfolding copy_inv_def by (auto; blast)
    from Cons.IH [OF this] show ?thesis using False 1 by (simp add: acc p [of "filter _ ps"] Un_assoc)
  qed
qed

lemma seg_Split_copy_inv:
  assumes "length raw0 = kNumSlot" "length raw1 = kNumSlot"
  shows "copy_inv hf (Suc (sg_depth s)) (seg_half hf False s) (seg_half hf True s) (seg_Split_copy hf raw0 raw1 s)"
proof -
  have "copy_inv hf (Suc (sg_depth s)) {} {} (seg_initSegment (sg_depth s + 1) raw0, seg_initSegment (sg_depth s + 1) raw1, [])"
    using assms by (simp add: copy_inv_def seg_init_ok)
  from copy_fold_inv [OF this, of "\<lambda>p. bit (hf (cp_key p)) (64 - sg_depth s - 1)" "sg_bucket s"]
  show ?thesis by (simp add: seg_Split_copy_def seg_half_filter)
qed

section \<open>The directory\<close>

definition di_ok :: "directory \<Rightarrow> bool" where
  "di_ok d \<longleftrightarrow> 0 < di_depth d \<and> di_depth d < 64 \<and> di_capacity d = 2 ^ di_depth d
     \<and> length (di_segment d) = 2 ^ di_depth d \<and> di_sema d = 0"

definition cc_look :: "directory \<Rightarrow> u64 \<Rightarrow> nat" where
  "cc_look d h = di_segment d ! cc_index h (di_depth d)"

lemma nth_pairs: "y < 2 * n \<Longrightarrow> concat (map (\<lambda>i. [f i, g i]) [0..<n]) ! y = (if even y then f (y div 2) else g (y div 2))"
proof (induction n)
  case 0 thus ?case by simp
next
  case (Suc n)
  have len: "length (concat (map (\<lambda>i. [f i, g i]) [0..<n])) = 2 * n" by (induction n) simp_all
  consider "y < 2 * n" | "y = 2 * n" | "y = 2 * n + 1" using Suc.prems by fastforce
  thus ?case using Suc.IH len by cases (simp_all add: nth_append)
qed

lemma di_double_ok: "di_ok d \<Longrightarrow> di_depth d < 63 \<Longrightarrow> di_ok (di_double x a b d)"
proof -
  have len: "length (concat (map (\<lambda>i. if P i then [a, b] else [f i, f i]) [0..<n])) = 2 * n" for P n and f :: "nat \<Rightarrow> nat"
    by (induction n) simp_all
  assume "di_ok d" "di_depth d < 63" thus ?thesis by (simp add: di_ok_def di_double_def di_initDirectory_def len)
qed

lemma di_double_look:
  assumes ok: "di_ok d" and t: "\<And>h. cc_look d h = target \<longleftrightarrow> cc_pre h (di_depth d) = cc_pre h0 (di_depth d)"
  shows "cc_look (di_double (cc_index h0 (di_depth d)) a b d) h
    = (if cc_look d h = target then (if bit h (63 - di_depth d) then b else a) else cc_look d h)"
proof -
  let ?n = "di_depth d" and ?x = "cc_index h0 (di_depth d)"
  have n: "?n < 64" and cap: "di_capacity d = 2 ^ ?n" using ok by (auto simp: di_ok_def)
  let ?f = "\<lambda>i. if i = ?x then a else di_segment d ! i" and ?g = "\<lambda>i. if i = ?x then b else di_segment d ! i"
  have eq: "concat (map (\<lambda>i. if i = ?x then [a, b] else [di_segment d ! i, di_segment d ! i]) [0..<di_capacity d])
    = concat (map (\<lambda>i. [?f i, ?g i]) [0..<2 ^ ?n])"
    unfolding cap by (rule arg_cong [of _ _ concat]) simp
  have lt: "cc_pre h (Suc ?n) < 2 * 2 ^ ?n" using cc_pre_less [of "Suc ?n" h] n by simp
  have "cc_look (di_double ?x a b d) h = concat (map (\<lambda>i. [?f i, ?g i]) [0..<2 ^ ?n]) ! cc_pre h (Suc ?n)"
    using eq by (simp add: cc_look_def di_double_def di_initDirectory_def cc_index_pre [of h])
  also have "\<dots> = (if bit h (63 - ?n) then ?g (cc_pre h ?n) else ?f (cc_pre h ?n))"
    using nth_pairs [OF lt, of ?f ?g] n by (simp add: cc_pre_Suc)
  finally show ?thesis using t [of h] by (auto simp: cc_look_def cc_index_pre)
qed

lemma length_fold_update [simp]: "length (fold (\<lambda>i d. d[f i := v]) is xs) = length xs"
  by (induction "is" arbitrary: xs) simp_all

lemma nth_fold_update:
  "y < length xs \<Longrightarrow> fold (\<lambda>i d. d[c + i := v]) [0..<n] xs ! y = (if c \<le> y \<and> y < c + n then v else xs ! y)"
proof (induction n)
  case 0 thus ?case by auto
next
  case (Suc n)
  thus ?case by (cases "y = c + n") auto
qed

lemma group_iff:
  assumes "(0::nat) < st"
  shows "y div st = x div st \<longleftrightarrow> st * (x div st) \<le> y \<and> y < st * (x div st) + st"
proof
  assume "y div st = x div st"
  thus "st * (x div st) \<le> y \<and> y < st * (x div st) + st"
    using div_mult_mod_eq [of y st] mod_less_divisor [OF assms, of y] by (metis add_less_cancel_left le_add1 mult.commute)
next
  assume "st * (x div st) \<le> y \<and> y < st * (x div st) + st"
  thus "y div st = x div st" by (intro div_nat_eqI) (auto simp: mult.commute)
qed

lemma di_split_meta [simp]: "di_depth (di_split ip x l a b d) = di_depth d" "di_sema (di_split ip x l a b d) = di_sema d"
  "di_capacity (di_split ip x l a b d) = di_capacity d" "length (di_segment (di_split ip x l a b d)) = length (di_segment d)"
  by (simp_all add: di_split_def Let_def)

text \<open>Both ways of writing the entries come to one: the group of \<open>x\<close> is divided in the middle.\<close>

lemma di_split_nth:
  assumes "l < di_depth d" "x < length (di_segment d)" "y < length (di_segment d)" "2 ^ (di_depth d - l) dvd length (di_segment d)"
  shows "di_segment (di_split ip x l a b d) ! y =
    (let st = 2 ^ (di_depth d - l)
     in if y div st = x div st then (if st div 2 \<le> y mod st then b else if ip then di_segment d ! y else a) else di_segment d ! y)"
proof -
  define st :: nat where "st = 2 ^ (di_depth d - l)"
  have st: "0 < st" by (simp add: st_def)
  have ev: "st = 2 * (st div 2)" using assms(1) by (simp add: st_def)
  have dm: "y = st * (y div st) + y mod st" "x = st * (x div st) + x mod st" by simp_all
  have lt: "y mod st < st" using st by simp
  show ?thesis
  proof (cases "di_depth d = l + 1")
    case True
    hence 2: "st = 2" by (simp add: st_def)
    show ?thesis
    proof (cases "even x")
      case e: True
      then obtain m where m: "x = 2 * m" by blast
      show ?thesis using True assms 2 unfolding di_split_def Let_def st_def [symmetric] m
        by (auto simp: nth_list_update)
    next
      case o: False
      then obtain m where m: "x = 2 * m + 1" using oddE by blast
      show ?thesis using True assms 2 unfolding di_split_def Let_def st_def [symmetric] m
        by (auto simp: nth_list_update)
    qed
  next
    case False
    define c where "c = x - x mod st"
    have c: "c = st * (x div st)" by (simp add: c_def minus_mod_eq_mult_div)
    note grp = group_iff [OF st, of y x, folded c]
    have y: "y = c + y mod st" if "y div st = x div st" using dm(1) that c by simp
    have in_up: "c + st div 2 \<le> y \<and> y < c + st div 2 + st div 2 \<longleftrightarrow> y div st = x div st \<and> st div 2 \<le> y mod st"
      using grp y ev by linarith
    have in_lo: "c \<le> y \<and> y < c + st div 2 \<longleftrightarrow> y div st = x div st \<and> \<not> st div 2 \<le> y mod st"
      using grp y ev by linarith
    show ?thesis using False assms(3) in_up in_lo unfolding di_split_def Let_def st_def [symmetric] c_def [symmetric]
      by (simp add: nth_fold_update)
  qed
qed

lemma di_split_look:
  assumes ok: "di_ok d" and l: "l < di_depth d" and ip: "ip \<Longrightarrow> a = target"
    and t: "\<And>h. cc_look d h = target \<longleftrightarrow> cc_pre h l = cc_pre h0 l"
  shows "cc_look (di_split ip (cc_index h0 (di_depth d)) l a b d) h
    = (if cc_look d h = target then (if bit h (63 - l) then b else a) else cc_look d h)"
proof -
  let ?n = "di_depth d"
  define st :: nat where "st = 2 ^ (?n - l)"
  have n: "?n < 64" and len: "length (di_segment d) = 2 ^ ?n" using ok by (auto simp: di_ok_def)
  have x: "cc_pre h' ?n < length (di_segment d)" for h' using cc_pre_less [of ?n h'] n by (simp add: len)
  have dvd: "2 ^ (?n - l) dvd length (di_segment d)" by (simp add: len le_imp_power_dvd)
  have grp: "cc_pre h' ?n div st = cc_pre h' l" for h' using cc_pre_shorter [of l ?n h'] l n by (simp add: st_def)
  have half: "st div 2 \<le> cc_pre h ?n mod st \<longleftrightarrow> bit h (63 - l)"
  proof -
    define hs :: nat where "hs = 2 ^ (?n - Suc l)"
    have st: "st = hs * 2" using l by (simp add: st_def hs_def Suc_diff_Suc flip: power_Suc2)
    have q: "cc_pre h ?n div hs = cc_pre h (Suc l)" using cc_pre_shorter [of "Suc l" ?n h] l n by (simp add: hs_def)
    have "cc_pre h ?n mod st = hs * (cc_pre h (Suc l) mod 2) + cc_pre h ?n mod hs"
      unfolding st mod_mult2_eq q ..
    moreover have "cc_pre h (Suc l) mod 2 = of_bool (bit h (63 - l))" using l n by (simp add: cc_pre_Suc)
    moreover have "cc_pre h ?n mod hs < hs" by (simp add: hs_def)
    ultimately show ?thesis by (cases "bit h (63 - l)") (simp_all add: st)
  qed
  show ?thesis
    using di_split_nth [OF l x [of h0] x [of h] dvd, of ip a b] t [of h] half grp [of h] grp [of h0] ip
    by (auto simp: cc_look_def cc_index_pre Let_def st_def [symmetric])
qed

section \<open>The table\<close>

definition cc_free_ok :: "cceh \<Rightarrow> bool" where
  "cc_free_ok t \<longleftrightarrow> distinct (map fst (cc_free t))
     \<and> (\<forall>(a, raw)\<in>set (cc_free t). cc_segs t a = None \<and> length raw = kNumSlot)"

definition cc_seg_ok :: "(u64 \<Rightarrow> u64) \<Rightarrow> directory \<Rightarrow> u64 \<Rightarrow> segment \<Rightarrow> bool" where
  "cc_seg_ok hf d h s \<longleftrightarrow> seg_ok hf s \<and> sg_sema s = 0 \<and> 0 < sg_depth s \<and> sg_depth s \<le> di_depth d
     \<and> (\<forall>h'. cc_look d h' = cc_look d h \<longleftrightarrow> cc_pre h' (sg_depth s) = cc_pre h (sg_depth s))"

definition cc_inv :: "(u64 \<Rightarrow> u64) \<Rightarrow> cceh \<Rightarrow> bool" where
  "cc_inv hf t \<longleftrightarrow> di_ok (cc_dir t) \<and> cc_free_ok t
     \<and> (\<forall>h. \<exists>s. cc_segs t (cc_look (cc_dir t) h) = Some s \<and> cc_seg_ok hf (cc_dir t) h s)"

definition cc_has :: "(u64 \<Rightarrow> u64) \<Rightarrow> cceh \<Rightarrow> u64 \<Rightarrow> u64 \<Rightarrow> bool" where
  "cc_has hf t k v \<longleftrightarrow> (\<exists>s. cc_segs t (cc_look (cc_dir t) (hf k)) = Some s \<and> (k, v) \<in> seg_pairs s)"

lemma cc_invD:
  assumes "cc_inv hf t"
  obtains s where "cc_segs t (cc_look (cc_dir t) h) = Some s" "cc_seg_ok hf (cc_dir t) h s"
proof -
  from assms have "\<exists>s. cc_segs t (cc_look (cc_dir t) h) = Some s \<and> cc_seg_ok hf (cc_dir t) h s"
    by (simp add: cc_inv_def)
  thus thesis using that by blast
qed

lemma cc_inv_seg: "cc_inv hf t \<Longrightarrow> cc_segs t (cc_look (cc_dir t) h) = Some s \<Longrightarrow> cc_seg_ok hf (cc_dir t) h s"
  by (erule cc_invD [where h = h]) simp

lemma cc_free_not_used:
  assumes "cc_inv hf t" "(a, raw) \<in> set (cc_free t)"
  shows "cc_look (cc_dir t) h \<noteq> a"
proof -
  obtain s where "cc_segs t (cc_look (cc_dir t) h) = Some s" using cc_invD [OF assms(1)] .
  moreover have "cc_segs t a = None" using assms by (auto simp: cc_free_ok_def cc_inv_def)
  ultimately show ?thesis by auto
qed

text \<open>A division: the hash values of \<open>target\<close> go to \<open>a\<close> or to \<open>b\<close> by their next bit, the others stay.\<close>

lemma cc_divide_inv:
  assumes inv: "cc_inv hf t" and seg: "cc_segs t target = Some s" "cc_look (cc_dir t) h0 = target"
    and d': "di_ok (cc_dir t')" "sg_depth s < di_depth (cc_dir t')" "di_depth (cc_dir t) \<le> di_depth (cc_dir t')"
    and look': "\<And>h. cc_look (cc_dir t') h =
      (if cc_look (cc_dir t) h = target then (if bit h (63 - sg_depth s) then b else a) else cc_look (cc_dir t) h)"
    and segs': "cc_segs t' a = Some sa" "cc_segs t' b = Some sb"
      "\<And>y. y \<noteq> a \<Longrightarrow> y \<noteq> b \<Longrightarrow> y \<noteq> target \<Longrightarrow> cc_segs t' y = cc_segs t y"
    and new: "seg_ok hf sa" "seg_ok hf sb" "sg_sema sa = 0" "sg_sema sb = 0"
      "sg_depth sa = Suc (sg_depth s)" "sg_depth sb = Suc (sg_depth s)"
    and fresh: "a \<noteq> b" "a = target \<or> (\<forall>h. cc_look (cc_dir t) h \<noteq> a)" "\<And>h. cc_look (cc_dir t) h \<noteq> b"
    and free: "cc_free_ok t'"
  shows "cc_inv hf t'"
proof -
  let ?d = "cc_dir t" and ?d' = "cc_dir t'"
  have tgt: "cc_seg_ok hf ?d h0 s" using cc_inv_seg [OF inv] seg by blast
  have l: "sg_depth s < 64" using d' by (simp add: di_ok_def)
  have grp: "cc_look ?d h = target \<longleftrightarrow> cc_pre h (sg_depth s) = cc_pre h0 (sg_depth s)" for h
    using tgt seg(2) by (auto simp: cc_seg_ok_def)
  have "\<exists>s'. cc_segs t' (cc_look ?d' h) = Some s' \<and> cc_seg_ok hf ?d' h s'" for h
  proof (cases "cc_look ?d h = target")
    case True
    have iff: "cc_look ?d' h' = cc_look ?d' h \<longleftrightarrow> cc_pre h' (Suc (sg_depth s)) = cc_pre h (Suc (sg_depth s))" for h'
    proof -
      have "cc_look ?d' h' = cc_look ?d' h \<longleftrightarrow> cc_look ?d h' = target \<and> (bit h' (63 - sg_depth s) \<longleftrightarrow> bit h (63 - sg_depth s))"
        unfolding look' using True fresh by auto
      also have "\<dots> \<longleftrightarrow> cc_pre h' (Suc (sg_depth s)) = cc_pre h (Suc (sg_depth s))"
        unfolding cc_pre_Suc_eq [OF l] using True grp by auto
      finally show ?thesis .
    qed
    have "cc_look ?d' h = (if bit h (63 - sg_depth s) then b else a)" using look' True by simp
    hence "cc_segs t' (cc_look ?d' h) = Some (if bit h (63 - sg_depth s) then sb else sa)" using segs' by simp
    moreover have "cc_seg_ok hf ?d' h (if bit h (63 - sg_depth s) then sb else sa)"
      using new d'(2) iff by (simp add: cc_seg_ok_def)
    ultimately show ?thesis by blast
  next
    case False
    obtain s' where s': "cc_segs t (cc_look ?d h) = Some s'" "cc_seg_ok hf ?d h s'" using cc_invD [OF inv] .
    have lk: "cc_look ?d' h = cc_look ?d h" using look' False by simp
    have ne: "cc_look ?d h \<noteq> a" "cc_look ?d h \<noteq> b" using False fresh by auto
    have "cc_segs t' (cc_look ?d' h) = Some s'" using segs'(3) [OF ne False] s'(1) lk by simp
    moreover have "cc_look ?d' h' = cc_look ?d' h \<longleftrightarrow> cc_look ?d h' = cc_look ?d h" for h'
      using ne False lk by (simp add: look')
    hence "cc_seg_ok hf ?d' h s'" using s'(2) d'(3) by (simp add: cc_seg_ok_def)
    ultimately show ?thesis by blast
  qed
  thus ?thesis using d'(1) free by (simp add: cc_inv_def)
qed

lemma cc_divide_has:
  assumes seg: "cc_segs t target = Some s"
    and look': "\<And>h. cc_look (cc_dir t') h =
      (if cc_look (cc_dir t) h = target then (if bit h (63 - sg_depth s) then b else a) else cc_look (cc_dir t) h)"
    and segs': "cc_segs t' a = Some sa" "cc_segs t' b = Some sb"
      "\<And>y. y \<noteq> a \<Longrightarrow> y \<noteq> b \<Longrightarrow> y \<noteq> target \<Longrightarrow> cc_segs t' y = cc_segs t y"
    and pairs: "seg_pairs sa \<subseteq> seg_pairs s" "seg_pairs sb \<subseteq> seg_pairs s"
      "seg_half hf False s \<subseteq> seg_pairs sa \<union> Q" "seg_half hf True s \<subseteq> seg_pairs sb \<union> Q"
    and fresh: "a = target \<or> (\<forall>h. cc_look (cc_dir t) h \<noteq> a)" "\<And>h. cc_look (cc_dir t) h \<noteq> b"
  shows "cc_has hf t' k v \<Longrightarrow> cc_has hf t k v" and "cc_has hf t k v \<Longrightarrow> cc_has hf t' k v \<or> (k, v) \<in> Q"
proof -
  let ?h = "hf k"
  have other: "cc_segs t' (cc_look (cc_dir t') ?h) = cc_segs t (cc_look (cc_dir t) ?h)" if "cc_look (cc_dir t) ?h \<noteq> target"
    using that fresh by (auto simp: look' intro!: segs'(3))
  have same: "cc_segs t' (cc_look (cc_dir t') ?h) = Some (if bit ?h (63 - sg_depth s) then sb else sa)"
    if "cc_look (cc_dir t) ?h = target" using that segs' by (simp add: look')
  show "cc_has hf t' k v \<Longrightarrow> cc_has hf t k v"
    using other same seg pairs(1,2) by (cases "cc_look (cc_dir t) ?h = target") (auto simp: cc_has_def split: if_splits)
  show "cc_has hf t k v \<Longrightarrow> cc_has hf t' k v \<or> (k, v) \<in> Q"
    using other same seg pairs(3,4)
    by (cases "cc_look (cc_dir t) ?h = target"; cases "bit ?h (63 - sg_depth s)") (auto simp: cc_has_def seg_half_def)
qed

lemma cc_set_dir_meta:
  assumes "cc_set_dir ip h l a b t = Some t'"
  shows "cc_segs t' = cc_segs t" "cc_free t' = cc_free t" "di_depth (cc_dir t) \<le> di_depth (cc_dir t')"
  using assms by (auto simp: cc_set_dir_def Let_def di_double_def di_initDirectory_def split: if_splits bind_splits)

lemma cc_set_dir_ok:
  assumes ok: "di_ok (cc_dir t)" and s: "cc_set_dir ip h0 l a b t = Some t'" and d: "di_depth (cc_dir t') < 64"
    and l: "l \<le> di_depth (cc_dir t)" and ip: "ip \<Longrightarrow> a = target"
    and g: "\<And>h. cc_look (cc_dir t) h = target \<longleftrightarrow> cc_pre h l = cc_pre h0 l"
  shows "di_ok (cc_dir t')" "l < di_depth (cc_dir t')"
    "cc_look (cc_dir t') h = (if cc_look (cc_dir t) h = target then (if bit h (63 - l) then b else a) else cc_look (cc_dir t) h)"
proof -
  let ?d = "cc_dir t" and ?x = "cc_index h0 (di_depth (cc_dir t))"
  have sema: "di_sema ?d = 0" using ok by (simp add: di_ok_def)
  have "di_ok (cc_dir t') \<and> l < di_depth (cc_dir t') \<and> cc_look (cc_dir t') h =
    (if cc_look (cc_dir t) h = target then (if bit h (63 - l) then b else a) else cc_look (cc_dir t) h)"
  proof (cases "l = di_depth ?d")
    case True
    have t': "cc_dir t' = di_double ?x a b ?d" using s True sema by (auto simp: cc_set_dir_def sem_suspend_def Let_def)
    have "di_depth ?d < 63" using d t' by (simp add: di_double_def di_initDirectory_def)
    thus ?thesis using di_double_ok [OF ok] di_double_look [OF ok g [unfolded True]] True
      by (auto simp: t' di_double_def di_initDirectory_def)
  next
    case False
    hence lt: "l < di_depth ?d" using l by simp
    have d1: "?d\<lparr>di_sema := 1\<rparr>\<lparr>di_sema := 0\<rparr> = ?d" using sema by simp
    have t': "cc_dir t' = (di_split ip ?x l a b (?d\<lparr>di_sema := 1\<rparr>))\<lparr>di_sema := 0\<rparr>"
      using s False sema by (auto simp: cc_set_dir_def sem_lock_def sem_unlock_def Let_def)
    have t'': "cc_dir t' = di_split ip ?x l a b ?d"
      unfolding t' di_split_def Let_def using sema by simp
    show ?thesis using di_split_look [OF ok lt ip g] ok lt by (auto simp: t'' di_ok_def)
  qed
  thus "di_ok (cc_dir t')" "l < di_depth (cc_dir t')"
    "cc_look (cc_dir t') h = (if cc_look (cc_dir t) h = target then (if bit h (63 - l) then b else a) else cc_look (cc_dir t) h)"
    by auto
qed

lemma cc_divide_ok:
  assumes inv: "cc_inv hf t" and seg: "cc_segs t (cc_look (cc_dir t) h0) = Some s"
    and div: "cc_divide ip hf h0 (cc_look (cc_dir t) h0) s t = Some (t', dr)" and d: "di_depth (cc_dir t') < 64"
  shows "cc_inv hf t'" "cc_has hf t' k v \<Longrightarrow> cc_has hf t k v" "cc_has hf t k v \<Longrightarrow> cc_has hf t' k v \<or> (k, v) \<in> pset dr"
proof -
  let ?target = "cc_look (cc_dir t) h0" and ?l = "sg_depth s"
  define s1 where "s1 = s\<lparr>sg_sema := -1\<rparr>"
  define t1 where "t1 = t\<lparr>cc_segs := (cc_segs t)(?target \<mapsto> s1)\<rparr>"
  have so: "cc_seg_ok hf (cc_dir t) h0 s" using cc_inv_seg [OF inv seg] .
  have sok: "seg_ok hf s" and sem: "sg_sema s = 0" and l: "?l \<le> di_depth (cc_dir t)"
    and g: "\<And>h. cc_look (cc_dir t) h = ?target \<longleftrightarrow> cc_pre h ?l = cc_pre h0 ?l" using so by (auto simp: cc_seg_ok_def)
  have fr: "cc_free_ok t" and ok: "di_ok (cc_dir t)" using inv by (auto simp: cc_inv_def)
  have half: "seg_half hf b s1 = seg_half hf b s" for b by (simp add: seg_half_def s1_def)
  have sub: "seg_half hf b s \<subseteq> seg_pairs s" for b by (auto simp: seg_half_def)
  obtain a b t2 t3 where sp: "cc_split_segment ip hf ?target s1 t1 = Some (a, b, t2, dr)"
    and sd: "cc_set_dir ip h0 ?l a b t2 = Some t3"
    and t': "t' = (if ip then t3\<lparr>cc_segs := (cc_segs t3)(?target \<mapsto> s\<lparr>sg_depth := Suc ?l, sg_sema := 0\<rparr>)\<rparr> else t3)"
    using div sem by (cases ip) (auto simp: cc_divide_def Let_def sem_suspend_def s1_def t1_def bind_eq_Some_conv)
  have dir2: "cc_dir t2 = cc_dir t"
    using sp by (auto simp: cc_split_segment_def t1_def split: if_splits list.splits prod.splits)
  have dir': "cc_dir t' = cc_dir t3" by (simp add: t')
  note m = cc_set_dir_meta [OF sd, unfolded dir2]
  have "cc_inv hf t' \<and> (cc_has hf t' k v \<longrightarrow> cc_has hf t k v) \<and> (cc_has hf t k v \<longrightarrow> cc_has hf t' k v \<or> (k, v) \<in> pset dr)"
  proof (cases ip)
    case True
    obtain raw free snew where f: "cc_free t = (b, raw) # free" and at: "a = ?target"
      and sn: "seg_Split_inplace hf raw s1 = (snew, dr)"
      and t2: "t2 = t1\<lparr>cc_segs := (cc_segs t1)(b \<mapsto> snew), cc_free := free\<rparr>"
      using sp True by (auto simp: cc_split_segment_def t1_def split: list.splits prod.splits)
    have raw: "length raw = kNumSlot" "cc_segs t b = None" using fr f by (auto simp: cc_free_ok_def)
    note sd' = cc_set_dir_ok [OF ok [folded dir2] sd d [unfolded dir'] _ _ g [folded dir2], unfolded dir2, OF l at]
    have fresh: "cc_look (cc_dir t) h \<noteq> b" for h using cc_free_not_used [OF inv] f by (metis list.set_intros(1))
    hence ne: "?target \<noteq> b" by blast
    have si: "split_inv hf (Suc ?l) (seg_half hf True s) (snew, dr)"
      using seg_Split_inplace_inv [OF raw(1), of hf s1] sn half by (simp add: s1_def)
    have segs': "cc_segs t' ?target = Some (s\<lparr>sg_depth := Suc ?l, sg_sema := 0\<rparr>)" "cc_segs t' b = Some snew"
      "\<And>y. y \<noteq> ?target \<Longrightarrow> y \<noteq> b \<Longrightarrow> y \<noteq> ?target \<Longrightarrow> cc_segs t' y = cc_segs t y"
      using True ne by (simp_all add: t' m t2 t1_def)
    have free': "cc_free_ok t'"
    proof -
      have "cc_free t' = free" using True by (simp add: t' m t2)
      moreover have "cc_segs t' y = None" if "(y, r) \<in> set free" for y r
      proof -
        have "cc_segs t y = None" "y \<noteq> b" using that fr f by (force simp: cc_free_ok_def)+
        moreover have "y \<noteq> ?target" using calculation(1) seg by auto
        ultimately show ?thesis using True by (simp add: t' m t2 t1_def)
      qed
      ultimately show ?thesis using fr f by (auto simp: cc_free_ok_def)
    qed
    have sn': "seg_ok hf snew" "sg_sema snew = 0" "sg_depth snew = Suc ?l" "seg_pairs snew \<union> pset dr = seg_half hf True s"
      using si by (auto simp: split_inv_def)
    have 1: "cc_inv hf t'"
      by (rule cc_divide_inv [OF inv seg refl sd'(1,2) [folded dir'] m(3) [folded dir'] sd'(3) [folded dir' at [symmetric], unfolded at] segs'])
        (use sok sn' ne fresh free' in auto)
    have pr: "seg_pairs (s\<lparr>sg_depth := Suc ?l, sg_sema := 0\<rparr>) \<subseteq> seg_pairs s" "seg_pairs snew \<subseteq> seg_pairs s"
      "seg_half hf False s \<subseteq> seg_pairs (s\<lparr>sg_depth := Suc ?l, sg_sema := 0\<rparr>) \<union> pset dr"
      "seg_half hf True s \<subseteq> seg_pairs snew \<union> pset dr"
      using sn'(4) sub [of True] sub [of False] by auto
    have "cc_has hf t' k v \<Longrightarrow> cc_has hf t k v" "cc_has hf t k v \<Longrightarrow> cc_has hf t' k v \<or> (k, v) \<in> pset dr"
      using cc_divide_has [OF seg sd'(3) [folded dir', unfolded at] segs' pr] fresh by auto
    thus ?thesis using 1 by blast
  next
    case False
    obtain raw0 raw1 free sa sb where f: "cc_free t = (a, raw0) # (b, raw1) # free"
      and sn: "seg_Split_copy hf raw0 raw1 s1 = (sa, sb, dr)"
      and t2: "t2 = t1\<lparr>cc_segs := (cc_segs t1)(a \<mapsto> sa, b \<mapsto> sb), cc_free := free\<rparr>"
      using sp False by (auto simp: cc_split_segment_def t1_def split: list.splits prod.splits)
    have raw: "length raw0 = kNumSlot" "length raw1 = kNumSlot" "cc_segs t a = None" "cc_segs t b = None" "a \<noteq> b"
      using fr f by (auto simp: cc_free_ok_def)
    note sd' = cc_set_dir_ok [OF ok [folded dir2] sd d [unfolded dir'] _ _ g [folded dir2], unfolded dir2, OF l]
    have fresh: "cc_look (cc_dir t) h \<noteq> a" "cc_look (cc_dir t) h \<noteq> b" for h
      using cc_free_not_used [OF inv] f by (metis list.set_intros)+
    have si: "copy_inv hf (Suc ?l) (seg_half hf False s) (seg_half hf True s) (sa, sb, dr)"
      using seg_Split_copy_inv [OF raw(1,2), of hf s1] sn half by (simp add: s1_def)
    have segs': "cc_segs t' a = Some sa" "cc_segs t' b = Some sb"
      "\<And>y. y \<noteq> a \<Longrightarrow> y \<noteq> b \<Longrightarrow> y \<noteq> ?target \<Longrightarrow> cc_segs t' y = cc_segs t y"
      using False raw by (simp_all add: t' m t2 t1_def)
    have free': "cc_free_ok t'"
    proof -
      have "cc_free t' = free" using False by (simp add: t' m t2)
      moreover have "cc_segs t' y = None" if "(y, r) \<in> set free" for y r
      proof -
        have "cc_segs t y = None" "y \<noteq> a" "y \<noteq> b" using that fr f by (force simp: cc_free_ok_def)+
        moreover have "y \<noteq> ?target" using calculation(1) seg by auto
        ultimately show ?thesis using False by (simp add: t' m t2 t1_def)
      qed
      ultimately show ?thesis using fr f by (auto simp: cc_free_ok_def)
    qed
    have sn': "seg_ok hf sa" "seg_ok hf sb" "sg_sema sa = 0" "sg_sema sb = 0" "sg_depth sa = Suc ?l" "sg_depth sb = Suc ?l"
      and q: "seg_pairs sa \<subseteq> seg_half hf False s" "seg_pairs sb \<subseteq> seg_half hf True s"
        "seg_half hf False s \<union> seg_half hf True s \<subseteq> seg_pairs sa \<union> seg_pairs sb \<union> pset dr"
      using si by (auto simp: copy_inv_def)
    have 1: "cc_inv hf t'"
      by (rule cc_divide_inv [OF inv seg refl sd'(1,2) [folded dir'] m(3) [folded dir'] sd'(3) [folded dir'] segs' sn' raw(5) _ fresh(2) free'])
        (use False fresh in auto)
    have disj: "seg_half hf False s \<inter> seg_half hf True s = {}" by (auto simp: seg_half_def)
    have pr: "seg_pairs sa \<subseteq> seg_pairs s" "seg_pairs sb \<subseteq> seg_pairs s"
      "seg_half hf False s \<subseteq> seg_pairs sa \<union> pset dr" "seg_half hf True s \<subseteq> seg_pairs sb \<union> pset dr"
      using q sub [of True] sub [of False] disj by blast+
    have "cc_has hf t' k v \<Longrightarrow> cc_has hf t k v" "cc_has hf t k v \<Longrightarrow> cc_has hf t' k v \<or> (k, v) \<in> pset dr"
      using cc_divide_has [OF seg sd'(3) [folded dir'] segs' pr] fresh False by auto
    thus ?thesis using 1 by blast
  qed
  thus "cc_inv hf t'" "cc_has hf t' k v \<Longrightarrow> cc_has hf t k v" "cc_has hf t k v \<Longrightarrow> cc_has hf t' k v \<or> (k, v) \<in> pset dr"
    by auto
qed

section \<open>Insert and Get\<close>

lemma seg_find_slotD:
  assumes "seg_find_slot hf key s = Some loc"
  shows "loc \<in> cc_homes hf key"
    and "seg_key s loc = INVALID \<or> cc_pre (hf (seg_key s loc)) (sg_depth s) \<noteq> cc_pre (hf key) (sg_depth s)"
proof -
  have f: "x \<in> set xs \<and> P x" if "find P xs = Some x" for P and x :: nat and xs
    using that by (auto simp: find_Some_iff)
  show "loc \<in> cc_homes hf key"
    using assms by (auto simp: seg_find_slot_def Let_def cc_homes_def dest: f split: option.splits)
  show "seg_key s loc = INVALID \<or> cc_pre (hf (seg_key s loc)) (sg_depth s) \<noteq> cc_pre (hf key) (sg_depth s)"
    using assms by (auto simp: seg_find_slot_def seg_usable_def Let_def dest: f split: option.splits)
qed

lemma cc_put_ok:
  assumes inv: "cc_inv hf t" and seg: "cc_segs t (cc_look (cc_dir t) (hf key)) = Some s"
    and slot: "seg_find_slot hf key (s\<lparr>sg_sema := w\<rparr>) = Some loc" and key: "key \<noteq> INVALID"
    and t': "t' = t\<lparr>cc_segs := (cc_segs t)(cc_look (cc_dir t) (hf key) \<mapsto> (seg_put loc key val (s\<lparr>sg_sema := w\<rparr>))\<lparr>sg_sema := 0\<rparr>)\<rparr>"
  shows "cc_inv hf t'" "cc_has hf t' k v \<longleftrightarrow> cc_has hf t k v \<or> (k, v) = (key, val)"
proof -
  let ?target = "cc_look (cc_dir t) (hf key)" and ?s' = "seg_put loc key val (s\<lparr>sg_sema := w\<rparr>)"
  have so: "cc_seg_ok hf (cc_dir t) (hf key) s" using cc_inv_seg [OF inv seg] .
  have sok: "seg_ok hf (s\<lparr>sg_sema := w\<rparr>)" using so by (simp add: cc_seg_ok_def)
  have len: "length (sg_bucket (s\<lparr>sg_sema := w\<rparr>)) = kNumSlot" using sok by (simp add: seg_ok_def)
  note sl = seg_find_slotD [OF slot]
  have lt: "loc < kNumSlot" using sl(1) by (rule cc_homes_less)
  have ok': "seg_ok hf ?s'" using seg_put_ok [OF sok sl(1)] .
  have grp: "cc_look (cc_dir t) h = ?target \<longleftrightarrow> cc_pre h (sg_depth s) = cc_pre (hf key) (sg_depth s)" for h
    using so by (simp add: cc_seg_ok_def)
  show "cc_inv hf t'"
  proof -
    have "\<exists>s'. cc_segs t' (cc_look (cc_dir t') h) = Some s' \<and> cc_seg_ok hf (cc_dir t') h s'" for h
    proof (cases "cc_look (cc_dir t) h = ?target")
      case True
      have "cc_pre h (sg_depth s) = cc_pre (hf key) (sg_depth s)" using True grp by blast
      hence "\<forall>h'. cc_look (cc_dir t) h' = cc_look (cc_dir t) h \<longleftrightarrow> cc_pre h' (sg_depth s) = cc_pre h (sg_depth s)"
        unfolding True using grp by simp
      hence "cc_seg_ok hf (cc_dir t) h (?s'\<lparr>sg_sema := 0\<rparr>)" using so ok' by (simp add: cc_seg_ok_def)
      thus ?thesis using True by (simp add: t')
    next
      case False
      obtain s2 where "cc_segs t (cc_look (cc_dir t) h) = Some s2" "cc_seg_ok hf (cc_dir t) h s2" using cc_invD [OF inv] .
      thus ?thesis using False by (simp add: t')
    qed
    moreover have "cc_free_ok t'"
    proof -
      have fr: "cc_free_ok t" using inv by (simp add: cc_inv_def)
      have "cc_segs t' a = None \<and> length raw = kNumSlot" if "(a, raw) \<in> set (cc_free t)" for a raw
      proof -
        have "cc_segs t a = None \<and> length raw = kNumSlot" using fr that by (auto simp: cc_free_ok_def)
        thus ?thesis using cc_free_not_used [OF inv that, of "hf key"] by (simp add: t')
      qed
      moreover have "cc_free t' = cc_free t" by (simp add: t')
      moreover have "distinct (map fst (cc_free t))" using fr by (simp add: cc_free_ok_def)
      ultimately show ?thesis unfolding cc_free_ok_def by auto
    qed
    ultimately show ?thesis using inv by (simp add: cc_inv_def t')
  qed
  let ?old = "(seg_key (s\<lparr>sg_sema := w\<rparr>) loc, cp_val (sg_bucket (s\<lparr>sg_sema := w\<rparr>) ! loc))"
  have sl2: "fst ?old = INVALID \<or> cc_pre (hf (fst ?old)) (sg_depth s) \<noteq> cc_pre (hf key) (sg_depth s)"
    using sl(2) by simp
  have pairs: "(k, v) \<in> seg_pairs ?s' \<longleftrightarrow> (k, v) \<in> seg_pairs s \<or> (k, v) = (key, val)" if k: "cc_look (cc_dir t) (hf k) = ?target"
  proof -
    have keep: "(k, v) \<noteq> ?old" if p: "(k, v) \<in> seg_pairs s"
    proof
      assume "(k, v) = ?old"
      hence "k = fst ?old" by (metis fst_conv)
      moreover have "k \<noteq> INVALID" using p by (auto simp: seg_pairs_def)
      moreover have "cc_pre (hf k) (sg_depth s) = cc_pre (hf key) (sg_depth s)" using grp [of "hf k"] k by (rule iffD1)
      ultimately show False using sl2 by metis
    qed
    have up: "seg_pairs ?s' \<subseteq> insert (key, val) (seg_pairs s)"
      using seg_pairs_put(2) [OF len lt key, of val] by simp
    have lo: "insert (key, val) (seg_pairs s - {?old}) \<subseteq> seg_pairs ?s'"
      using seg_pairs_put(1) [OF len lt key, of val] by simp
    show ?thesis
    proof
      assume "(k, v) \<in> seg_pairs ?s'"
      thus "(k, v) \<in> seg_pairs s \<or> (k, v) = (key, val)" using subsetD [OF up] by (metis insertE)
    next
      assume "(k, v) \<in> seg_pairs s \<or> (k, v) = (key, val)"
      hence "(k, v) \<in> insert (key, val) (seg_pairs s - {?old})" using keep by (metis DiffI insertCI singletonD)
      thus "(k, v) \<in> seg_pairs ?s'" using subsetD [OF lo] by blast
    qed
  qed
  show "cc_has hf t' k v \<longleftrightarrow> cc_has hf t k v \<or> (k, v) = (key, val)"
  proof (cases "cc_look (cc_dir t) (hf k) = ?target")
    case True
    hence "cc_has hf t' k v \<longleftrightarrow> (k, v) \<in> seg_pairs ?s'" "cc_has hf t k v \<longleftrightarrow> (k, v) \<in> seg_pairs s"
      using seg by (simp_all add: cc_has_def t')
    thus ?thesis using pairs [OF True] by simp
  next
    case False thus ?thesis by (auto simp: cc_has_def t')
  qed
qed

lemma cc_divide_depth: "cc_divide ip hf h0 target s t = Some (t', dr) \<Longrightarrow> di_depth (cc_dir t) \<le> di_depth (cc_dir t')"
proof -
  assume d: "cc_divide ip hf h0 target s t = Some (t', dr)"
  obtain v a b t2 t3 where sp: "cc_split_segment ip hf target (s\<lparr>sg_sema := v\<rparr>) (t\<lparr>cc_segs := (cc_segs t)(target \<mapsto> s\<lparr>sg_sema := v\<rparr>)\<rparr>) = Some (a, b, t2, dr)"
    and sd: "cc_set_dir ip h0 (sg_depth s) a b t2 = Some t3" and t': "cc_dir t' = cc_dir t3"
    using d by (cases ip) (auto simp: cc_divide_def Let_def bind_eq_Some_conv)
  have "cc_dir t2 = cc_dir t"
    using sp by (auto simp: cc_split_segment_def split: if_splits list.splits prod.splits)
  thus ?thesis using cc_set_dir_meta(3) [OF sd] t' by simp
qed

lemma cc_Insert_cases:
  assumes "cc_Insert (Suc f) ip hf key val t = Some (t', dr)"
  obtains (put) s w loc where "cc_segs t (cc_look (cc_dir t) (hf key)) = Some s" "sem_lock (sg_sema s) = Some w"
      "seg_find_slot hf key (s\<lparr>sg_sema := w\<rparr>) = Some loc" "dr = []"
      "t' = t\<lparr>cc_segs := (cc_segs t)(cc_look (cc_dir t) (hf key) \<mapsto> (seg_put loc key val (s\<lparr>sg_sema := w\<rparr>))\<lparr>sg_sema := sem_unlock w\<rparr>)\<rparr>"
  | (divide) s w t1 dr1 dr2 where "cc_segs t (cc_look (cc_dir t) (hf key)) = Some s" "sem_lock (sg_sema s) = Some w"
      "cc_divide ip hf (hf key) (cc_look (cc_dir t) (hf key)) (s\<lparr>sg_sema := sem_unlock w\<rparr>) t = Some (t1, dr1)"
      "cc_Insert f ip hf key val t1 = Some (t', dr2)" "dr = dr1 @ dr2"
  using assms by (auto simp: cc_Insert.simps(2) Let_def bind_eq_Some_conv cc_look_def split: option.splits)

lemma cc_Insert_depth: "cc_Insert f ip hf key val t = Some (t', dr) \<Longrightarrow> di_depth (cc_dir t) \<le> di_depth (cc_dir t')"
proof (induction f arbitrary: t dr)
  case 0 thus ?case by simp
next
  case (Suc f)
  from Suc.prems show ?case
  proof (cases rule: cc_Insert_cases)
    case put thus ?thesis by simp
  next
    case (divide s w t1 dr1 dr2)
    show ?thesis using cc_divide_depth [OF divide(3)] Suc.IH [OF divide(4)] by simp
  qed
qed

lemma cc_Insert_ok:
  assumes "cc_Insert f ip hf key val t = Some (t', dr)" "cc_inv hf t" "di_depth (cc_dir t') < 64" "key \<noteq> INVALID"
  shows "cc_inv hf t' \<and> cc_has hf t' key val
    \<and> (\<forall>k v. cc_has hf t' k v \<longrightarrow> cc_has hf t k v \<or> (k, v) = (key, val))
    \<and> (\<forall>k v. cc_has hf t k v \<longrightarrow> cc_has hf t' k v \<or> (k, v) \<in> pset dr)"
  using assms(1,2)
proof (induction f arbitrary: t dr)
  case 0 thus ?case by simp
next
  case (Suc f)
  from Suc.prems(1) show ?case
  proof (cases rule: cc_Insert_cases)
    case (put s w loc)
    have w: "sem_unlock w = 0" using put(2) cc_inv_seg [OF Suc.prems(2) put(1)]
      by (auto simp: sem_unlock_def sem_lock_def cc_seg_ok_def split: if_splits)
    note p = cc_put_ok [OF Suc.prems(2) put(1,3) assms(4) put(5) [unfolded w]]
    show ?thesis using p by blast
  next
    case (divide s w t1 dr1 dr2)
    have s: "s\<lparr>sg_sema := sem_unlock w\<rparr> = s" using divide(2) cc_inv_seg [OF Suc.prems(2) divide(1)]
      by (auto simp: sem_unlock_def sem_lock_def cc_seg_ok_def split: if_splits)
    have d1: "di_depth (cc_dir t1) < 64" using cc_Insert_depth [OF divide(4)] assms(3) by simp
    note d = cc_divide_ok [OF Suc.prems(2) divide(1) divide(3) [unfolded s] d1]
    note ih = Suc.IH [OF divide(4) d(1)]
    have a: "cc_has hf t' key val" "cc_inv hf t'" using ih by blast+
    have b: "cc_has hf t' k v \<Longrightarrow> cc_has hf t k v \<or> (k, v) = (key, val)" for k v using ih d(2) by blast
    have c: "cc_has hf t k v \<Longrightarrow> cc_has hf t' k v \<or> (k, v) \<in> pset dr" for k v
      using ih d(3) unfolding divide(5) pset_simps by blast
    show ?thesis using a b c by blast
  qed
qed

lemma cc_Get_ok:
  assumes inv: "cc_inv hf t" and key: "key \<noteq> INVALID"
  obtains r where "cc_Get ip hf key t = Some (case_option NONE id r)"
    "\<And>v. r = Some v \<Longrightarrow> cc_has hf t key v" "r = None \<Longrightarrow> \<forall>v. \<not> cc_has hf t key v"
proof -
  obtain s where s: "cc_segs t (cc_look (cc_dir t) (hf key)) = Some s" "cc_seg_ok hf (cc_dir t) (hf key) s"
    using cc_invD [OF inv] .
  have ok: "seg_ok hf s" and sem: "sg_sema s = 0" using s(2) by (auto simp: cc_seg_ok_def)
  have d: "di_sema (cc_dir t) = 0" using inv by (simp add: cc_inv_def di_ok_def)
  show thesis
  proof (rule that)
    show "cc_Get ip hf key t = Some (case_option NONE id (seg_search hf key s))"
      using s(1) sem d by (simp add: cc_Get_def cc_look_def sem_lock_def split: option.splits)
    show "cc_has hf t key v" if "seg_search hf key s = Some v" for v
      using seg_search_Some [OF ok that key] s(1) by (simp add: cc_has_def)
    show "\<forall>v. \<not> cc_has hf t key v" if "seg_search hf key s = None"
      using seg_search_None [OF ok that] s(1) by (simp add: cc_has_def)
  qed
qed

section \<open>A fresh table\<close>

lemma cc_log2_bounds: "2 \<le> n \<Longrightarrow> n < 2 ^ 64 \<Longrightarrow> 0 < cc_log2 n \<and> cc_log2 n < 64"
proof -
  have up: "n < 2 ^ k \<Longrightarrow> 0 < k \<Longrightarrow> cc_log2 n < k" for n k :: nat
  proof (induction n arbitrary: k rule: cc_log2.induct)
    case (1 n)
    show ?case
    proof (cases "n < 2")
      case True thus ?thesis using 1 by (simp add: cc_log2.simps [of n])
    next
      case False
      then obtain k' where k: "k = Suc k'" "0 < k'" using 1(2,3) by (cases k; cases "k - 1") auto
      have "cc_log2 (n div 2) < k'" using 1(1) [OF False _ k(2)] 1(2) k by auto
      thus ?thesis using False k by (simp add: cc_log2.simps [of n])
    qed
  qed
  assume "2 \<le> n" "n < 2 ^ 64"
  thus ?thesis using up [of n 64] by (simp add: cc_log2.simps [of n])
qed

lemma cc_init_ok:
  assumes init: "cc_initCCEH cap free = Some t" and cap: "2 \<le> cap" "cap < 2 ^ 64"
    and free: "distinct (map fst free)" "\<forall>(a, raw)\<in>set free. length raw = kNumSlot"
  shows "cc_inv hf t" "\<not> cc_has hf t k v"
proof -
  define n where "n = cc_log2 cap"
  define new where "new = take (2 ^ n) free"
  have n: "0 < n" "n < 64" using cc_log2_bounds [OF cap] by (simp_all add: n_def)
  have len: "length new = 2 ^ n" and t: "t = \<lparr>cc_crashed = True, cc_dir = di_initDirectory n (map fst new),
      cc_segs = map_of (map (\<lambda>(a, raw). (a, seg_initSegment n raw)) new), cc_free = drop (2 ^ n) free\<rparr>"
    using init by (auto simp: cc_initCCEH_def Let_def new_def n_def split: if_splits)
  have dist: "distinct (map fst new)" using free(1) by (simp add: new_def distinct_take flip: take_map)
  have dist': "distinct (map fst (map (\<lambda>(a, raw). (a, seg_initSegment n raw)) new))"
    using dist by (simp add: comp_def case_prod_unfold)
  have dir: "di_ok (cc_dir t)" using n len by (simp add: t di_ok_def di_initDirectory_def)
  have lt: "cc_pre h n < length new" for h using cc_pre_less [of n h] n by (simp add: len)
  have look: "cc_look (cc_dir t) h = fst (new ! cc_pre h n)" for h
    using lt [of h] by (simp add: t cc_look_def di_initDirectory_def cc_index_pre)
  have seg: "cc_segs t (cc_look (cc_dir t) h) = Some (seg_initSegment n (snd (new ! cc_pre h n)))" for h
  proof -
    have "(cc_look (cc_dir t) h, seg_initSegment n (snd (new ! cc_pre h n))) \<in> set (map (\<lambda>(a, raw). (a, seg_initSegment n raw)) new)"
      unfolding set_map look by (rule image_eqI [OF _ nth_mem [OF lt [of h]]]) (simp add: case_prod_unfold)
    thus ?thesis using dist' by (simp add: t)
  qed
  have raw: "length (snd (new ! cc_pre h n)) = kNumSlot" for h
  proof -
    have "new ! cc_pre h n \<in> set free" using nth_mem [OF lt [of h]] unfolding new_def by (rule in_set_takeD)
    thus ?thesis using free(2) by auto
  qed
  have eq: "cc_look (cc_dir t) h' = cc_look (cc_dir t) h \<longleftrightarrow> cc_pre h' n = cc_pre h n" for h h'
    using nth_eq_iff_index_eq [OF dist, of "cc_pre h' n" "cc_pre h n"] lt by (simp add: look)
  have fr: "cc_free_ok t"
  proof -
    have d: "distinct (map fst (new @ drop (2 ^ n) free))" using free(1) by (simp add: new_def)
    have "cc_segs t a = None" if "(a, r) \<in> set (drop (2 ^ n) free)" for a r
      using d that by (force simp: t map_of_eq_None_iff)
    moreover have "length r = kNumSlot" if "(a, r) \<in> set (drop (2 ^ n) free)" for a r
      using free(2) in_set_dropD [OF that] by auto
    ultimately show ?thesis using d by (auto simp: cc_free_ok_def t)
  qed
  show "cc_inv hf t" unfolding cc_inv_def
    using dir fr seg n eq seg_init_ok [OF raw] by (auto simp: cc_seg_ok_def) (simp_all add: t di_initDirectory_def)
  show "\<not> cc_has hf t k v" by (simp add: cc_has_def seg)
qed

end
