(* ===== verification/Spec2Isabelle.thy ===== *)
theory Spec2Isabelle
  imports SpotonUtil BufNode HashBuf SkipBuf VarHash SpotonLog Wal SpMeta NodeBuffer LeafNode LeafBatch SPTreeProps BTreeProps CCEHInv
begin

text \<open>
  A model of the write buffers of buflog and of the structures built on them, translated from the
  C++ sources under \<open>src/\<close>.

  \<^item> \<open>Prelude\<close>, \<open>Interfaces\<close>, \<open>Slots\<close>: words and their bits, the interfaces as locales, arrays of slots.
  \<^item> \<open>SpotonUtil\<close>: \<open>src/spoton_util.h\<close>.
  \<^item> \<open>BufNode\<close>: \<open>SortedBufNode_t\<close>.
  \<^item> \<open>HashBuf\<close>: \<open>HashBuffer\<close>.
  \<^item> \<open>SkipBuf\<close>: \<open>SkipBuf\<close>.
  \<^item> \<open>VarHash\<close>: the \<open>HashTable\<close> of \<open>src/var_hash.h\<close>.
\<close>

end
